(* ===== verification/Prelude.thy ===== *)
theory Prelude
  imports Main "HOL-Library.Word" "HOL-Library.Multiset"
begin

text \<open>
  Shared vocabulary of the development: the C types that appear in every component, the
  named collections the component proofs feed to the simplifier, and generic facts on
  ring-buffer indices, function updates, lists and bytes.

  Conventions. A C pointer that may be NULL is an \<open>option\<close>; an operation on a structure
  takes the structure and returns it updated; the C return codes are kept as \<open>int\<close>
  (or \<open>nat\<close> for unsigned results), so each early return of the source is a branch.
\<close>

unbundle bit_operations_syntax

type_synonym byte = "8 word"
type_synonym u16 = "16 word"
type_synonym u32 = "32 word"

text \<open>A comparison callback: negative, zero or positive, as \<^verbatim>\<open>strcmp\<close> reports.\<close>

type_synonym 'e cmp = "'e \<Rightarrow> 'e \<Rightarrow> int"

named_theorems ring_simps \<open>index arithmetic of ring buffers\<close>
named_theorems op_defs \<open>definitions of the operations, for case analysis on their branches\<close>

section \<open>Ring indices\<close>

lemma ring_index [ring_simps]:
  fixes a b m :: nat
  assumes "a < m" "b \<le> m"
  shows "(a + b) mod m = (if a + b < m then a + b else a + b - m)"
proof (cases "a + b < m")
  case False
  then have "(a + b) mod m = (a + b - m) mod m" by (simp add: le_mod_geq)
  with assms False show ?thesis by simp
qed simp

lemma ring_Suc [ring_simps]:
  fixes a m :: nat
  assumes "a < m"
  shows "(if Suc a \<ge> m then 0 else Suc a) = Suc a mod m"
  using assms by (auto simp: mod_Suc)

lemma ring_inj:
  fixes a i j m :: nat
  assumes "a < m" "i < m" "j < m" "(a + i) mod m = (a + j) mod m"
  shows "i = j"
  using assms by (simp add: ring_index split: if_splits)

lemma ring_less [ring_simps]: "0 < m \<Longrightarrow> (a mod m :: nat) < m"
  by simp

section \<open>Arrays as functions\<close>

text \<open>A C array whose first \<open>n\<close> cells matter is a function on \<open>nat\<close>; \<open>cells p n\<close> lists them.\<close>

definition cells :: "(nat \<Rightarrow> 'a) \<Rightarrow> nat \<Rightarrow> 'a list" where
  "cells p n = map p [0..<n]"

lemma cells_length [simp]: "length (cells p n) = n"
  by (simp add: cells_def)

lemma cells_nth [simp]: "i < n \<Longrightarrow> cells p n ! i = p i"
  by (simp add: cells_def)

lemma cells_0 [simp]: "cells p 0 = []"
  by (simp add: cells_def)

lemma cells_Suc: "cells p (Suc n) = cells p n @ [p n]"
  by (simp add: cells_def)

lemma set_cells: "set (cells p n) = p ` {..<n}"
  by (auto simp: cells_def)

lemma cells_upd: "cells (p(i := x)) n = (cells p n)[i := x]"
  by (rule nth_equalityI) (auto simp: nth_list_update)

lemma cells_upd_out [simp]: "n \<le> i \<Longrightarrow> cells (p(i := x)) n = cells p n"
  by (rule nth_equalityI) auto

lemma mset_cells_swap:
  "i < n \<Longrightarrow> j < n \<Longrightarrow> mset (cells (p(i := p j, j := p i)) n) = mset (cells p n)"
  using mset_swap [of j "cells p n" i] by (simp add: cells_upd)

lemma mset_cells_upd:
  "i < n \<Longrightarrow> mset (cells (p(i := x)) n) = add_mset x (mset (cells p n) - {#p i#})"
  by (simp add: cells_upd mset_update)

lemma mset_cells_pred: "0 < n \<Longrightarrow> mset (cells p (n - 1)) = mset (cells p n) - {#p (n - 1)#}"
  by (cases n) (auto simp: cells_Suc)

lemma mset_cells_fill:
  assumes "k < n - 1"
  shows "mset (cells (p(k := p (n - 1))) (n - 1)) = mset (cells p n) - {#p k#}"
proof -
  obtain m where n: "n = Suc m" using assms by (cases n) auto
  have "p k \<in># mset (cells p m)" using assms by (auto simp: n set_cells)
  then obtain M where "mset (cells p m) = add_mset (p k) M" by (metis insert_DiffM)
  then show ?thesis using assms by (simp add: n cells_Suc mset_cells_upd)
qed

lemma not_in_cells: "(\<And>i. i < n \<Longrightarrow> p i \<noteq> x) \<Longrightarrow> x \<notin> set (cells p n)"
  unfolding set_cells by blast

lemma distinct_cells: "distinct (cells p n) \<longleftrightarrow> inj_on p {..<n}"
  by (auto simp: cells_def distinct_map atLeast0LessThan)

section \<open>Descriptor sets\<close>

definition FD_SETSIZE :: int where "FD_SETSIZE = 1024"

text \<open>
  \<^verbatim>\<open>FD_SET\<close> and \<^verbatim>\<open>FD_ISSET\<close> access an array of \<^verbatim>\<open>FD_SETSIZE\<close> bits; \<open>None\<close> is an access outside
  of it.
\<close>

definition FD_SET :: "int \<Rightarrow> int set \<Rightarrow> int set option" where
  "FD_SET fd fds = (if 0 \<le> fd \<and> fd < FD_SETSIZE then Some (insert fd fds) else None)"

definition FD_ISSET :: "int \<Rightarrow> int set \<Rightarrow> bool option" where
  "FD_ISSET fd fds = (if 0 \<le> fd \<and> fd < FD_SETSIZE then Some (fd \<in> fds) else None)"

end
