(* ===== verification/Request.thy ===== *)
theory Request
  imports Prelude
begin

text \<open>
  What the module interpreter of \<^verbatim>\<open>main/modcall.c\<close> sees of a request (\<^verbatim>\<open>struct rad_request\<close>,
  \<^verbatim>\<open>include/radiusd.h\<close>), and the list of data that modules hang on a request (\<^verbatim>\<open>main/util.c\<close>).
  Everything else of the request (its packets and attribute lists) is \<open>rq_rest\<close>, which the
  modules, conditions and templates read and change. Pointers are natural numbers, 0 is NULL.
\<close>

section \<open>Return codes and requests\<close>

datatype rcode = REJECT | FAIL | OK | HANDLED | INVALID | USERLOCK | NOTFOUND | NOOP | UPDATED | NUMCODES | UNKNOWN

record rdata =
  rd_unique_ptr :: nat
  rd_unique_int :: int
  rd_opaque :: nat
  rd_free_opaque :: bool

record 'u request =
  rq_stop :: bool
  rq_parent_stop :: "bool option"
  rq_data :: "rdata list"
  rq_rcode :: rcode
  rq_module :: nat
  rq_server :: nat
  rq_rand :: "nat \<Rightarrow> u32"
  rq_rest :: 'u

text \<open>The random numbers to come are part of the state; drawing one moves on to the next.\<close>

definition fr_rand :: "'u request \<Rightarrow> u32 \<times> 'u request" where
  "fr_rand rq = (rq_rand rq 0, rq\<lparr>rq_rand := \<lambda>n. rq_rand rq (Suc n)\<rparr>)"

section \<open>Request data\<close>

definition rd_matches :: "nat \<Rightarrow> int \<Rightarrow> rdata \<Rightarrow> bool" where
  "rd_matches p i d \<longleftrightarrow> rd_unique_ptr d = p \<and> rd_unique_int d = i"

fun request_data_reference :: "rdata list \<Rightarrow> nat \<Rightarrow> int \<Rightarrow> nat" where
  "request_data_reference [] p i = 0"
| "request_data_reference (d # ds) p i = (if rd_matches p i d then rd_opaque d else request_data_reference ds p i)"

text \<open>The entry is removed; the caller frees the data.\<close>

fun request_data_get :: "rdata list \<Rightarrow> nat \<Rightarrow> int \<Rightarrow> rdata list \<times> nat" where
  "request_data_get [] p i = ([], 0)"
| "request_data_get (d # ds) p i =
     (if rd_matches p i d then (ds, rd_opaque d)
      else let (ds', r) = request_data_get ds p i in (d # ds', r))"

text \<open>
  An entry of the same key is replaced where it is, and its data freed when it asks for that; a new
  one goes to the end. The results are the list, what is freed and the return code.
\<close>

fun request_data_put :: "bool \<Rightarrow> rdata list \<Rightarrow> rdata \<Rightarrow> (rdata list \<times> nat list) option" where
  "request_data_put talloc_ok [] new = (if talloc_ok then Some ([new], []) else None)"
| "request_data_put talloc_ok (d # ds) new =
     (if rd_matches (rd_unique_ptr new) (rd_unique_int new) d
      then Some (new # ds, if rd_opaque d \<noteq> 0 \<and> rd_free_opaque d then [rd_opaque d] else [])
      else map_option (\<lambda>(ds', freed). (d # ds', freed)) (request_data_put talloc_ok ds new))"

definition request_data_add ::
  "bool \<Rightarrow> rdata list \<Rightarrow> nat \<Rightarrow> int \<Rightarrow> nat \<Rightarrow> bool \<Rightarrow> rdata list \<times> nat list \<times> int" where
  "request_data_add talloc_ok ds p i opaque free_opaque =
     (if opaque = 0 then (ds, [], - 1)
      else case request_data_put talloc_ok ds
             \<lparr>rd_unique_ptr = p, rd_unique_int = i, rd_opaque = opaque, rd_free_opaque = free_opaque\<rparr> of
             None \<Rightarrow> (ds, [], - 1)
           | Some (ds', freed) \<Rightarrow> (ds', freed, 0))"

section \<open>The data as a map\<close>

text \<open>Entries have distinct keys and data that is not NULL; then the list is a finite map.\<close>

definition rd_key :: "rdata \<Rightarrow> nat \<times> int" where
  "rd_key d = (rd_unique_ptr d, rd_unique_int d)"

definition data_ok :: "rdata list \<Rightarrow> bool" where
  "data_ok ds \<longleftrightarrow> distinct (map rd_key ds) \<and> (\<forall>d \<in> set ds. rd_opaque d \<noteq> 0)"

lemma data_ok_simps [simp]:
  "data_ok []" "data_ok (d # ds) \<longleftrightarrow> rd_key d \<notin> rd_key ` set ds \<and> rd_opaque d \<noteq> 0 \<and> data_ok ds"
  by (auto simp: data_ok_def)

lemma reference_none: "(p, i) \<notin> rd_key ` set ds \<Longrightarrow> request_data_reference ds p i = 0"
  by (induction ds) (auto simp: rd_matches_def rd_key_def)

lemma data_get_correct:
  "data_ok ds \<Longrightarrow> request_data_get ds p i = (ds', r) \<Longrightarrow>
     data_ok ds' \<and> r = request_data_reference ds p i \<and> set ds' \<subseteq> set ds \<and>
     (\<forall>q j. request_data_reference ds' q j = (if (q, j) = (p, i) then 0 else request_data_reference ds q j))"
proof (induction ds arbitrary: ds')
  case (Cons d ds)
  show ?case
  proof (cases "rd_matches p i d")
    case True
    then have "(p, i) \<notin> rd_key ` set ds" using Cons.prems(1) by (simp add: rd_matches_def rd_key_def)
    then show ?thesis using Cons.prems True reference_none [of p i ds] by (auto simp: rd_matches_def)
  next
    case False
    obtain ds1 r1 where g: "request_data_get ds p i = (ds1, r1)" by fastforce
    with Cons.prems False have "ds' = d # ds1" "r = r1" by simp_all
    with Cons.IH [of ds1] Cons.prems False g show ?thesis by (auto simp: rd_matches_def)
  qed
qed simp

lemma data_put_correct:
  "data_ok ds \<Longrightarrow> rd_opaque new \<noteq> 0 \<Longrightarrow> request_data_put ok ds new = Some (ds', freed) \<Longrightarrow>
     data_ok ds' \<and> rd_key ` set ds' = insert (rd_key new) (rd_key ` set ds) \<and>
     (\<forall>q j. request_data_reference ds' q j =
        (if rd_matches q j new then rd_opaque new else request_data_reference ds q j))"
proof (induction ds arbitrary: ds')
  case (Cons d ds)
  show ?case
  proof (cases "rd_matches (rd_unique_ptr new) (rd_unique_int new) d")
    case True
    then have "rd_key new = rd_key d" by (simp add: rd_matches_def rd_key_def)
    with True Cons.prems show ?thesis by (auto simp: rd_matches_def)
  next
    case False
    with Cons.prems obtain ds1 where p: "request_data_put ok ds new = Some (ds1, freed)" "ds' = d # ds1" by auto
    have "rd_key new \<noteq> rd_key d" using False by (auto simp: rd_matches_def rd_key_def)
    with Cons.IH [OF _ Cons.prems(2) p(1)] Cons.prems(1) p(2) False show ?thesis
      by (auto simp: rd_matches_def)
  qed
qed (auto simp: rd_matches_def split: if_splits)

lemma data_add_correct:
  assumes "data_ok ds" "request_data_add ok ds p i opaque free_opaque = (ds', freed, 0)"
  shows "data_ok ds' \<and>
    (\<forall>q j. request_data_reference ds' q j = (if (q, j) = (p, i) then opaque else request_data_reference ds q j))"
  using assms data_put_correct [OF assms(1), of "\<lparr>rd_unique_ptr = p, rd_unique_int = i, rd_opaque = opaque, rd_free_opaque = free_opaque\<rparr>" ok]
  by (auto simp: request_data_add_def rd_matches_def split: if_splits option.splits)

end
