(* ===== verification/Modcall.thy ===== *)
theory Modcall
  imports Request
begin

text \<open>
  The interpreter of the policy language (\<^verbatim>\<open>main/modcall.c\<close>): the compiled tree of modules and
  sections, the table of default actions, and \<^verbatim>\<open>modcall\<close> with its stack of 32 frames.

  The code a node refers to outside of this file is part of the node, as a function on the request:
  the method of a module, \<^verbatim>\<open>radius_evaluate_cond\<close> on a condition, \<^verbatim>\<open>map_to_request\<close> on an update
  map, the expansion of a template, the call of another virtual server. A node and the siblings
  after it are a list, whose first element is the node itself; the empty list is NULL.
\<close>

section \<open>The compiled tree\<close>

datatype component =
  AUTHENTICATE | AUTHORIZE | PREACCT | ACCOUNTING | SESSION | PRE_PROXY | POST_PROXY | POST_AUTH | RECV_COA | SEND_COA

datatype grouptype = GROUPTYPE_SIMPLE | GROUPTYPE_REDUNDANT

definition MOD_ACTION_RETURN :: int where "MOD_ACTION_RETURN = - 1"
definition MOD_ACTION_REJECT :: int where "MOD_ACTION_REJECT = - 2"
definition MODCALL_STACK_MAX :: nat where "MODCALL_STACK_MAX = 32"

text \<open>A module instance: its name, a forced code (set by radmin), and its method for the section.\<close>

record 'u modinst =
  mi_name :: nat
  mi_force :: "rcode option"
  mi_method :: "'u request \<Rightarrow> rcode \<times> 'u request"

text \<open>A condition gets the last return code; a negative result is an error.\<close>

type_synonym 'u cond = "rcode \<Rightarrow> 'u request \<Rightarrow> int \<times> 'u request"

text \<open>
  What a \<open>switch\<close> is over: an attribute, given by whether the request has it; a string to expand
  once, whose expansion can fail; or anything else. A \<open>case\<close> gets the expansion, if any.
\<close>

datatype 'u switch_on =
  SWITCH_ATTR "'u request \<Rightarrow> bool"
| SWITCH_EXPAND "'u request \<Rightarrow> string option \<times> 'u request"
| SWITCH_OTHER

datatype 'u mod_type =
  MOD_SINGLE "'u modinst"
| MOD_GROUP
| MOD_LOAD_BALANCE
| MOD_REDUNDANT_LOAD_BALANCE
| MOD_IF "'u cond"
| MOD_ELSE
| MOD_ELSIF "'u cond"
| MOD_UPDATE "('u request \<Rightarrow> int \<times> 'u request) list"
| MOD_SWITCH "'u switch_on"
| MOD_CASE "(string option \<Rightarrow> 'u request \<Rightarrow> int \<times> 'u request) option"
| MOD_FOREACH "'u request \<Rightarrow> nat list option"
| MOD_BREAK
| MOD_RETURN
| MOD_POLICY
| MOD_REFERENCE nat "'u request \<Rightarrow> rcode \<times> 'u request"
| MOD_XLAT "'u request \<Rightarrow> 'u request"

datatype 'u modcallable = Mod (mc_type: "'u mod_type") (mc_actions: "int list") (mc_children: "'u modcallable list")

fun rcode_num :: "rcode \<Rightarrow> nat" where
  "rcode_num REJECT = 0" | "rcode_num FAIL = 1" | "rcode_num OK = 2" | "rcode_num HANDLED = 3"
| "rcode_num INVALID = 4" | "rcode_num USERLOCK = 5" | "rcode_num NOTFOUND = 6" | "rcode_num NOOP = 7"
| "rcode_num UPDATED = 8" | "rcode_num NUMCODES = 9" | "rcode_num UNKNOWN = 10"

section \<open>Actions\<close>

fun default_component_results :: "component \<Rightarrow> rcode" where
  "default_component_results AUTHENTICATE = REJECT"
| "default_component_results AUTHORIZE = NOTFOUND"
| "default_component_results PREACCT = NOOP"
| "default_component_results ACCOUNTING = NOOP"
| "default_component_results SESSION = FAIL"
| "default_component_results PRE_PROXY = NOOP"
| "default_component_results POST_PROXY = NOOP"
| "default_component_results POST_AUTH = NOOP"
| "default_component_results RECV_COA = NOOP"
| "default_component_results SEND_COA = NOOP"

text \<open>In the order reject, fail, ok, handled, invalid, userlock, notfound, noop, updated.\<close>

fun defaultactions :: "component \<Rightarrow> grouptype \<Rightarrow> int list" where
  "defaultactions AUTHENTICATE GROUPTYPE_SIMPLE = [- 1, 1, - 1, - 1, 1, - 1, - 1, 1, 1]"
| "defaultactions AUTHENTICATE GROUPTYPE_REDUNDANT = [- 1, 1, - 1, - 1, - 1, - 1, - 1, - 1, - 1]"
| "defaultactions AUTHORIZE GROUPTYPE_SIMPLE = [- 1, - 1, 3, - 1, - 1, - 1, 1, 2, 4]"
| "defaultactions AUTHORIZE GROUPTYPE_REDUNDANT = [- 1, 1, - 1, - 1, - 1, - 1, - 1, - 1, - 1]"
| "defaultactions PREACCT GROUPTYPE_SIMPLE = [- 1, - 1, 2, - 1, - 1, - 1, - 1, 1, 3]"
| "defaultactions PREACCT GROUPTYPE_REDUNDANT = [- 1, 1, - 1, - 1, - 1, - 1, - 1, - 1, - 1]"
| "defaultactions ACCOUNTING GROUPTYPE_SIMPLE = [- 1, - 1, 2, - 1, - 1, - 1, - 1, 1, 3]"
| "defaultactions ACCOUNTING GROUPTYPE_REDUNDANT = [1, 1, - 1, - 1, 1, 1, 1, 2, 4]"
| "defaultactions SESSION GROUPTYPE_SIMPLE = [- 1, 1, - 1, - 1, - 1, - 1, - 1, - 1, - 1]"
| "defaultactions SESSION GROUPTYPE_REDUNDANT = [- 1, 1, - 1, - 1, - 1, - 1, - 1, - 1, - 1]"
| "defaultactions PRE_PROXY GROUPTYPE_SIMPLE = [- 1, - 1, 3, - 1, - 1, - 1, 1, 2, 4]"
| "defaultactions PRE_PROXY GROUPTYPE_REDUNDANT = [- 1, 1, - 1, - 1, - 1, - 1, - 1, - 1, - 1]"
| "defaultactions POST_PROXY GROUPTYPE_SIMPLE = [- 1, - 1, 3, - 1, - 1, - 1, 1, 2, 4]"
| "defaultactions POST_PROXY GROUPTYPE_REDUNDANT = [- 1, 1, - 1, - 1, - 1, - 1, - 1, - 1, - 1]"
| "defaultactions POST_AUTH GROUPTYPE_SIMPLE = [- 1, - 1, 3, - 1, - 1, - 1, 1, 2, 4]"
| "defaultactions POST_AUTH GROUPTYPE_REDUNDANT = [- 1, 1, - 1, - 1, - 1, - 1, - 1, - 1, - 1]"
| "defaultactions RECV_COA GROUPTYPE_SIMPLE = [- 1, - 1, 3, - 1, - 1, - 1, 1, 2, 4]"
| "defaultactions RECV_COA GROUPTYPE_REDUNDANT = [- 1, 1, - 1, - 1, - 1, - 1, - 1, - 1, - 1]"
| "defaultactions SEND_COA GROUPTYPE_SIMPLE = [- 1, - 1, 3, - 1, - 1, - 1, 1, 2, 4]"
| "defaultactions SEND_COA GROUPTYPE_REDUNDANT = [- 1, 1, - 1, - 1, - 1, - 1, - 1, - 1, - 1]"

fun authtype_actions :: "grouptype \<Rightarrow> int list" where
  "authtype_actions GROUPTYPE_SIMPLE = [- 1, - 1, 4, - 1, - 1, - 1, 1, 2, 3]"
| "authtype_actions GROUPTYPE_REDUNDANT = [- 1, 1, - 1, - 1, - 1, - 1, - 1, - 1, - 1]"

text \<open>\<open>strcasecmp\<close> is equality of the strings in lower case.\<close>

definition lower :: "char \<Rightarrow> char" where
  "lower c = (if of_char c \<ge> (65 :: nat) \<and> of_char c \<le> (90 :: nat) then char_of (of_char c + 32 :: nat) else c)"

definition strcaseeq :: "string \<Rightarrow> string \<Rightarrow> bool" where
  "strcaseeq a b \<longleftrightarrow> map lower a = map lower b"

fun fr_str2int :: "(string \<times> 'n) list \<Rightarrow> string \<Rightarrow> 'n \<Rightarrow> 'n" where
  "fr_str2int [] name def = def"
| "fr_str2int ((n, x) # table) name def = (if strcaseeq n name then x else fr_str2int table name def)"

definition mod_rcode_table :: "(string \<times> int) list" where
  "mod_rcode_table =
     [(''reject'', 0), (''fail'', 1), (''ok'', 2), (''handled'', 3), (''invalid'', 4), (''userlock'', 5),
      (''notfound'', 6), (''noop'', 7), (''updated'', 8)]"

definition digit :: "char \<Rightarrow> bool" where
  "digit c \<longleftrightarrow> of_char c \<ge> (48 :: nat) \<and> of_char c \<le> (57 :: nat)"

fun atoi :: "int \<Rightarrow> string \<Rightarrow> int" where
  "atoi n [] = n"
| "atoi n (c # cs) = atoi (10 * n + (of_char c - 48)) cs"

text \<open>
  \<open>attr = value\<close> in a section. The result is the actions after it and whether it was accepted; the
  range of \<open>atoi\<close> is not modelled.
\<close>

definition parse_action :: "string \<Rightarrow> int option" where
  "parse_action v =
     (if strcaseeq v ''return'' then Some MOD_ACTION_RETURN
      else if strcaseeq v ''break'' then Some MOD_ACTION_RETURN
      else if strcaseeq v ''reject'' then Some MOD_ACTION_REJECT
      else if list_all digit v then (if atoi 0 v = 0 then None else Some (atoi 0 v))
      else None)"

definition compile_action :: "int list \<Rightarrow> string \<Rightarrow> string option \<Rightarrow> int list \<times> bool" where
  "compile_action actions attr value =
     (case value of
        None \<Rightarrow> (actions, False)
      | Some v \<Rightarrow>
          (case parse_action v of
                None \<Rightarrow> (actions, False)
              | Some a \<Rightarrow>
                  if \<not> strcaseeq attr ''default''
                  then let rcode = fr_str2int mod_rcode_table attr (- 1)
                       in if rcode < 0 then (actions, False) else (actions[nat rcode := a], True)
                  else (map (\<lambda>x. if x = 0 then a else x) actions, True)))"

text \<open>The entries of a section with a value, in order; one that is not accepted makes the section fail.\<close>

fun compile_actions :: "int list \<Rightarrow> (string \<times> string option) list \<Rightarrow> int list option" where
  "compile_actions actions [] = Some actions"
| "compile_actions actions ((attr, value) # pairs) =
     (let (actions1, ok) = compile_action actions attr value
      in if \<not> ok then None else compile_actions actions1 pairs)"

text \<open>The \<open>set_codes\<close> of \<^verbatim>\<open>do_compile_modgroup\<close>: what is not set yet gets its default.\<close>

definition set_codes :: "bool \<Rightarrow> component \<Rightarrow> grouptype \<Rightarrow> int list \<Rightarrow> int list" where
  "set_codes has_parent component parentgrouptype actions =
     map2 (\<lambda>x d. if x = 0 then d else x) actions
       (if \<not> has_parent \<or> component \<noteq> AUTHENTICATE then defaultactions component parentgrouptype
        else authtype_actions parentgrouptype)"

section \<open>The stack\<close>

datatype fault = Exit | Assert_failed | Out_of_bounds

datatype unwind = NO_UNWIND | UNWIND_BREAK | UNWIND_RETURN

text \<open>
  A frame. Its field \<^verbatim>\<open>c\<close> is the list argument of the functions below; a frame is at the index
  \<open>depth\<close> of its call, since \<^verbatim>\<open>entry\<close> and \<^verbatim>\<open>depth\<close> advance together. \<^verbatim>\<open>modcall_recurse\<close> returns true on
  every path, so what its callers do on false is left out.
\<close>

record frame =
  e_result :: rcode
  e_priority :: int
  e_unwind :: unwind

definition call_modsingle :: "'u modinst \<Rightarrow> 'u request \<Rightarrow> rcode \<times> 'u request" where
  "call_modsingle sp rq =
     (if rq_stop rq then (NOOP, rq)
      else case mi_force sp of
        Some code \<Rightarrow> (code, rq\<lparr>rq_rcode := code\<rparr>)
      | None \<Rightarrow>
          let (code, rq1) = mi_method sp (rq\<lparr>rq_module := mi_name sp\<rparr>)
          in (code, rq1\<lparr>rq_rcode := code, rq_module := rq_module rq\<rparr>))"

definition action_of :: "'u modcallable \<Rightarrow> rcode \<Rightarrow> fault + int" where
  "action_of c r = (if rcode_num r < length (mc_actions c) then Inr (mc_actions c ! rcode_num r) else Inl Out_of_bounds)"

text \<open>From \<open>calculate_result\<close> on: the frame, and whether the list is left.\<close>

definition calculate_result :: "'u modcallable \<Rightarrow> rcode \<Rightarrow> int \<Rightarrow> frame \<Rightarrow> fault + frame \<times> bool" where
  "calculate_result c result priority entry =
     (if result = UNKNOWN then Inl Assert_failed
      else case action_of c result of
        Inl f \<Rightarrow> Inl f
      | Inr a \<Rightarrow>
          if a = MOD_ACTION_RETURN \<and> priority \<le> 0 then Inr (entry\<lparr>e_result := result\<rparr>, True)
          else if a = MOD_ACTION_REJECT then Inr (entry\<lparr>e_result := REJECT\<rparr>, True)
          else let priority1 = (if priority < 0 then a else priority);
                   entry1 = (if priority1 > e_priority entry
                             then entry\<lparr>e_result := result, e_priority := priority1\<rparr> else entry)
               in Inr (entry1, (case mc_type c of MOD_CASE _ \<Rightarrow> True | _ \<Rightarrow> False) \<or>
                               e_unwind entry1 = UNWIND_BREAK \<or> e_unwind entry1 = UNWIND_RETURN))"

section \<open>The parts of the interpreter that call nothing\<close>

definition stopped :: "'u request \<Rightarrow> bool" where
  "stopped rq \<longleftrightarrow> rq_stop rq \<or> rq_parent_stop rq = Some True"

definition radius_get_vp :: nat where "radius_get_vp = 1"

text \<open>The result so far, or the one on the stack; an error is false.\<close>

definition evaluate_cond :: "'u cond \<Rightarrow> rcode \<Rightarrow> frame \<Rightarrow> 'u request \<Rightarrow> bool \<times> 'u request" where
  "evaluate_cond cond result entry rq =
     (let (condition, rq1) = cond (if result \<noteq> UNKNOWN then result else e_result entry) rq
      in (condition > 0, rq1))"

fun update_maps :: "('u request \<Rightarrow> int \<times> 'u request) list \<Rightarrow> 'u request \<Rightarrow> rcode \<times> 'u request" where
  "update_maps [] rq = (NOOP, rq)"
| "update_maps (m # ms) rq =
     (let (rcode, rq1) = m rq
      in if rcode < 0 then (if rcode = - 2 then INVALID else FAIL, rq1) else update_maps ms rq1)"

text \<open>The first of the eight foreach variables that is free.\<close>

fun foreach_slot :: "rdata list \<Rightarrow> int list \<Rightarrow> int option" where
  "foreach_slot ds [] = None"
| "foreach_slot ds (i # is) = (if request_data_reference ds radius_get_vp i = 0 then Some i else foreach_slot ds is)"

text \<open>\<open>break\<close> takes the variable of the innermost loop away, \<open>return\<close> those of all loops.\<close>

fun drop_foreach_vars :: "bool \<Rightarrow> rdata list \<Rightarrow> int list \<Rightarrow> rdata list" where
  "drop_foreach_vars is_break ds [] = ds"
| "drop_foreach_vars is_break ds (i # is) =
     (let (ds1, copy_p) = request_data_get ds radius_get_vp i
      in if copy_p \<noteq> 0 \<and> is_break then ds1 else drop_foreach_vars is_break ds1 is)"

text \<open>
  The search of a \<open>switch\<close> for its case: the index in the children, or none. \<open>default\<close> looks for
  the case without a template only.
\<close>

fun find_null_case :: "nat \<Rightarrow> 'u modcallable list \<Rightarrow> fault + nat option" where
  "find_null_case i [] = Inr None"
| "find_null_case i (this # rest) =
     (case mc_type this of
        MOD_CASE None \<Rightarrow> Inr (Some i)
      | MOD_CASE (Some _) \<Rightarrow> find_null_case (i + 1) rest
      | _ \<Rightarrow> Inl Assert_failed)"

fun find_case ::
  "string option \<Rightarrow> nat \<Rightarrow> nat option \<Rightarrow> 'u modcallable list \<Rightarrow> 'u request \<Rightarrow> fault + nat option \<times> 'u request" where
  "find_case expanded i null_case [] rq = Inr (null_case, rq)"
| "find_case expanded i null_case (this # rest) rq =
     (case mc_type this of
        MOD_CASE None \<Rightarrow> find_case expanded (i + 1) (if null_case = None then Some i else null_case) rest rq
      | MOD_CASE (Some match) \<Rightarrow>
          (let (r, rq1) = match expanded rq
           in if r = 1 then Inr (Some i, rq1) else find_case expanded (i + 1) null_case rest rq1)
      | _ \<Rightarrow> Inl Assert_failed)"

definition switch_case :: "'u switch_on \<Rightarrow> 'u modcallable list \<Rightarrow> 'u request \<Rightarrow> fault + nat option \<times> 'u request" where
  "switch_case vpt children rq =
     (case vpt of
        SWITCH_ATTR exists \<Rightarrow>
          if \<not> exists rq then map_sum id (\<lambda>found. (found, rq)) (find_null_case 0 children)
          else find_case None 0 None children rq
      | SWITCH_EXPAND expand \<Rightarrow>
          (case expand rq of
             (None, rq1) \<Rightarrow> map_sum id (\<lambda>found. (found, rq1)) (find_null_case 0 children)
           | (Some s, rq1) \<Rightarrow> find_case (Some s) 0 None children rq1)
      | SWITCH_OTHER \<Rightarrow> find_case None 0 None children rq)"

text \<open>The choice of a child at random: the \<open>n\<close>th replaces the one chosen before with probability 1/n.\<close>

fun choose_child :: "'b list \<Rightarrow> nat \<Rightarrow> u32 \<Rightarrow> nat \<Rightarrow> 'u request \<Rightarrow> nat \<times> 'u request" where
  "choose_child [] i n found rq = (found, rq)"
| "choose_child (this # rest) i n found rq =
     (let m = n + 1;
          (r, rq1) = fr_rand rq
      in choose_child rest (i + 1) m (if m * (r AND 0xffff) < 0x10000 then i else found) rq1)"

section \<open>The interpreter\<close>

text \<open>
  What is left to do for a statement: go on with the next sibling, go to \<open>calculate_result\<close> with a
  code, leave the section with an unwinding, call the children from an index on (none is NULL), or
  run the loop of a \<open>foreach\<close> (its variable and values) or of a redundant-load-balance (the order
  of its children). The flags are \<open>was_if\<close> and \<open>if_taken\<close>.
\<close>

datatype todo =
  Calculate rcode
| Call "nat option" bool
| Foreach int "nat list"
| Failover "nat list"

datatype step =
  Next_sibling
| Unwind unwind
| Do todo

text \<open>The label \<open>do_children\<close>, up to the call of \<^verbatim>\<open>modcall_child\<close>.\<close>

definition do_children :: "'u modcallable \<Rightarrow> step" where
  "do_children c =
     (if mc_children c = []
      then (case mc_type c of MOD_CASE _ \<Rightarrow> Do (Calculate NOOP) | _ \<Rightarrow> Next_sibling)
      else Do (Call (Some 0) True))"

text \<open>The label \<open>mod_if\<close>.\<close>

definition mod_if ::
  "'u modcallable \<Rightarrow> 'u cond \<Rightarrow> rcode \<Rightarrow> frame \<Rightarrow> 'u request \<Rightarrow> step \<times> bool \<times> bool \<times> 'u request" where
  "mod_if c cond result entry rq =
     (let (condition, rq1) = evaluate_cond cond result entry rq
      in if \<not> condition then (Next_sibling, True, False, rq1) else (do_children c, True, True, rq1))"

definition statement ::
  "nat \<Rightarrow> 'u modcallable \<Rightarrow> bool \<Rightarrow> bool \<Rightarrow> rcode \<Rightarrow> frame \<Rightarrow> 'u request \<Rightarrow> fault + step \<times> bool \<times> bool \<times> 'u request" where
  "statement depth c was_if if_taken result entry rq =
     (case mc_type c of
        MOD_IF cond \<Rightarrow> Inr (mod_if c cond result entry rq)
      | MOD_ELSIF cond \<Rightarrow>
          if \<not> was_if then Inr (Next_sibling, was_if, if_taken, rq)
          else if if_taken then Inr (Next_sibling, True, True, rq)
          else Inr (mod_if c cond result entry rq)
      | MOD_ELSE \<Rightarrow>
          if \<not> was_if then Inr (Next_sibling, was_if, if_taken, rq)
          else if if_taken then Inr (Next_sibling, False, False, rq)
          else Inr (do_children c, False, False, rq)
      | MOD_SINGLE sp \<Rightarrow>
          let (r, rq1) = call_modsingle sp rq in Inr (Do (Calculate r), False, False, rq1)
      | MOD_UPDATE maps \<Rightarrow>
          let (r, rq1) = update_maps maps rq in Inr (Do (Calculate r), False, False, rq1)
      | MOD_FOREACH vpt \<Rightarrow>
          if depth \<ge> MODCALL_STACK_MAX then Inl Exit
          else (case foreach_slot (rq_data rq) [0..7] of
            None \<Rightarrow> Inr (Do (Calculate FAIL), False, False, rq)
          | Some foreach_depth \<Rightarrow>
              (case vpt rq of
                 None \<Rightarrow> Inr (Do (Calculate NOOP), False, False, rq)
               | Some vps \<Rightarrow> if vps = [] then Inl Assert_failed else Inr (Do (Foreach foreach_depth vps), False, False, rq)))
      | MOD_BREAK \<Rightarrow>
          Inr (Unwind UNWIND_BREAK, False, False,
               rq\<lparr>rq_data := drop_foreach_vars True (rq_data rq) [8, 7, 6, 5, 4, 3, 2, 1, 0]\<rparr>)
      | MOD_RETURN \<Rightarrow>
          Inr (Unwind UNWIND_RETURN, False, False,
               rq\<lparr>rq_data := drop_foreach_vars False (rq_data rq) [8, 7, 6, 5, 4, 3, 2, 1, 0]\<rparr>)
      | MOD_GROUP \<Rightarrow> Inr (do_children c, False, False, rq)
      | MOD_POLICY \<Rightarrow> Inr (do_children c, False, False, rq)
      | MOD_CASE _ \<Rightarrow> Inr (do_children c, False, False, rq)
      | MOD_SWITCH vpt \<Rightarrow> map_sum id (\<lambda>(found, rq1). (Do (Call found True), False, False, rq1)) (switch_case vpt (mc_children c) rq)
      | MOD_LOAD_BALANCE \<Rightarrow>
          if mc_children c = [] then Inl Assert_failed
          else let (found, rq1) = choose_child (mc_children c) 0 0 0 rq in Inr (Do (Call (Some found) False), False, False, rq1)
      | MOD_REDUNDANT_LOAD_BALANCE \<Rightarrow>
          if mc_children c = [] then Inl Assert_failed
          else let (found, rq1) = choose_child (mc_children c) 0 0 0 rq
               in Inr (Do (Failover ([found..<length (mc_children c)] @ [0..<found])), False, False, rq1)
      | MOD_REFERENCE ref_name indexed_modcall \<Rightarrow>
          if rq_server rq = ref_name then Inr (Next_sibling, False, False, rq)
          else let (r, rq1) = indexed_modcall (rq\<lparr>rq_server := ref_name\<rparr>)
               in Inr (Do (Calculate r), False, False, rq1\<lparr>rq_server := rq_server rq\<rparr>)
      | MOD_XLAT xlat \<Rightarrow> Inr (Next_sibling, False, False, xlat rq))"

definition new_frame :: "frame \<Rightarrow> frame" where
  "new_frame entry = \<lparr>e_result = e_result entry, e_priority = 0, e_unwind = NO_UNWIND\<rparr>"

definition callee :: "'u modcallable \<Rightarrow> nat option \<Rightarrow> 'u modcallable list" where
  "callee c found = (case found of None \<Rightarrow> [] | Some i \<Rightarrow> drop i (mc_children c))"

lemma size_drop: "size_list size (drop i cs) \<le> size_list size (cs :: 'u modcallable list)"
proof (induction cs arbitrary: i)
  case (Cons c cs)
  then show ?case by (cases i) (simp_all add: le_SucI trans_le_add2)
qed simp

lemma size_children: "size_list size (mc_children c) < size c"
  by (cases c) simp

lemma size_callee: "size_list size (callee c found) < size c"
proof (cases found)
  case None
  then show ?thesis by (cases c) (simp add: callee_def)
qed (simp add: callee_def le_less_trans [OF size_drop size_children])

text \<open>
  \<open>recurse\<close> is the loop of \<^verbatim>\<open>modcall_recurse\<close> over the siblings with its variables \<open>was_if\<close>, \<open>if_taken\<close>
  and \<open>result\<close>; \<open>perform\<close> is what is left to do for one statement, giving its result and priority;
  \<open>child\<close> is \<^verbatim>\<open>modcall_child\<close>, at the depth of the child; \<open>foreach_loop\<close> and \<open>failover\<close> are the loops.
  They end because the size of the tree decreases, then the kind of call, then the values or indices left.
\<close>

function (sequential)
  recurse :: "bool \<Rightarrow> nat \<Rightarrow> 'u modcallable list \<Rightarrow> bool \<Rightarrow> bool \<Rightarrow> rcode \<Rightarrow> frame list \<Rightarrow> 'u request \<Rightarrow>
    fault + frame list \<times> 'u request" and
  perform :: "nat \<Rightarrow> 'u modcallable \<Rightarrow> todo \<Rightarrow> frame list \<Rightarrow> 'u request \<Rightarrow> fault + rcode \<times> int \<times> frame list \<times> 'u request" and
  child :: "nat \<Rightarrow> 'u modcallable list \<Rightarrow> bool \<Rightarrow> frame list \<Rightarrow> 'u request \<Rightarrow> fault + rcode \<times> frame list \<times> 'u request" and
  foreach_loop :: "nat \<Rightarrow> 'u modcallable list \<Rightarrow> int \<Rightarrow> nat list \<Rightarrow> frame list \<Rightarrow> 'u request \<Rightarrow> fault + frame list \<times> 'u request" and
  failover :: "nat \<Rightarrow> 'u modcallable list \<Rightarrow> nat list \<Rightarrow> rcode \<Rightarrow> frame list \<Rightarrow> 'u request \<Rightarrow> fault + rcode \<times> frame list \<times> 'u request"
where
  "recurse do_next depth [] was_if if_taken result stack rq = Inr (stack, rq)"
| "recurse do_next depth (c # cs) was_if if_taken result stack rq =
     (if stopped rq
      then Inr (stack[depth := (stack ! depth)\<lparr>e_result := FAIL, e_priority := 9999\<rparr>], rq)
      else case statement depth c was_if if_taken result (stack ! depth) rq of
        Inl f \<Rightarrow> Inl f
      | Inr (Next_sibling, was_if1, if_taken1, rq1) \<Rightarrow>
          if do_next then recurse do_next depth cs was_if1 if_taken1 result stack rq1 else Inr (stack, rq1)
      | Inr (Unwind u, was_if1, if_taken1, rq1) \<Rightarrow> Inr (stack[depth := (stack ! depth)\<lparr>e_unwind := u\<rparr>], rq1)
      | Inr (Do todo, was_if1, if_taken1, rq1) \<Rightarrow>
          (case perform depth c todo stack rq1 of
             Inl f \<Rightarrow> Inl f
           | Inr (r, priority, stack1, rq2) \<Rightarrow>
               (case calculate_result c r priority (stack1 ! depth) of
                  Inl f \<Rightarrow> Inl f
                | Inr (entry, leave) \<Rightarrow>
                    if \<not> leave \<and> do_next then recurse do_next depth cs was_if1 if_taken1 r (stack1[depth := entry]) rq2
                    else Inr (stack1[depth := entry], rq2))))"
| "perform depth c (Call found do_next) stack rq =
     map_sum id (\<lambda>(r, stack1, rq1). (r, - 1, stack1, rq1)) (child (depth + 1) (callee c found) do_next stack rq)"
| "perform depth c (Foreach foreach_depth vps) stack rq =
     map_sum id (\<lambda>(stack1, rq1).
         (e_result (stack1 ! (depth + 1)), e_priority (stack1 ! (depth + 1)), stack1,
          rq1\<lparr>rq_data := fst (request_data_get (rq_data rq1) radius_get_vp foreach_depth)\<rparr>))
       (foreach_loop depth (mc_children c) foreach_depth vps stack rq)"
| "perform depth c (Failover is) stack rq =
     map_sum id (\<lambda>(r, stack1, rq1). (r, - 1, stack1, rq1)) (failover depth (mc_children c) is UNKNOWN stack rq)"
| "perform depth c (Calculate r) stack rq = Inr (r, - 1, stack, rq)"
| "child depth c do_next stack rq =
     (if depth \<ge> MODCALL_STACK_MAX then Inl Exit
      else map_sum id (\<lambda>(stack2, rq1).
                  (e_result (stack2 ! depth),
                   (if e_unwind (stack2 ! depth) \<noteq> NO_UNWIND
                    then stack2[depth - 1 := (stack2 ! (depth - 1))\<lparr>e_unwind := e_unwind (stack2 ! depth)\<rparr>] else stack2),
                   rq1))
                (recurse do_next depth c False False UNKNOWN (stack[depth := new_frame (stack ! (depth - 1))]) rq))"
| "foreach_loop depth children foreach_depth [] stack rq = Inr (stack, rq)"
| "foreach_loop depth children foreach_depth (vp # vps) stack rq =
     (let rq1 = rq\<lparr>rq_data := fst (request_data_add True (rq_data rq) radius_get_vp foreach_depth vp False)\<rparr>
      in if depth + 1 \<ge> MODCALL_STACK_MAX then Inl Out_of_bounds
         else case recurse True (depth + 1) children False False UNKNOWN
                (stack[depth + 1 := new_frame (stack ! depth)]) rq1 of
           Inl f \<Rightarrow> Inl f
         | Inr (stack1, rq2) \<Rightarrow>
             if e_unwind (stack1 ! (depth + 1)) = UNWIND_BREAK
             then Inr (stack1[depth := (stack1 ! depth)\<lparr>e_unwind := NO_UNWIND\<rparr>], rq2)
             else if e_unwind (stack1 ! (depth + 1)) = UNWIND_RETURN
             then Inr (stack1[depth := (stack1 ! depth)\<lparr>e_unwind := UNWIND_RETURN\<rparr>], rq2)
             else foreach_loop depth children foreach_depth vps stack1 rq2)"
| "failover depth children [] r stack rq = Inr (r, stack, rq)"
| "failover depth children (i # is) r0 stack rq =
     (case child (depth + 1) (drop i children) False stack rq of
        Inl f \<Rightarrow> Inl f
      | Inr (r, stack1, rq1) \<Rightarrow>
          (case action_of (children ! i) r of
             Inl f \<Rightarrow> Inl f
           | Inr a \<Rightarrow> if a = MOD_ACTION_RETURN then Inr (r, stack1, rq1)
                      else failover depth children is r stack1 rq1))"
  by pat_completeness auto

termination
proof (relation "measures
    [\<lambda>x. case x of
        Inl (Inl (do_next, depth, cs, wi, it, r, stack, rq)) \<Rightarrow> size_list size cs
      | Inl (Inr (depth, c, todo, stack, rq)) \<Rightarrow> size c
      | Inr (Inl (depth, cs, do_next, stack, rq)) \<Rightarrow> size_list size cs
      | Inr (Inr (Inl (depth, cs, slot, vps, stack, rq))) \<Rightarrow> size_list size cs
      | Inr (Inr (Inr (depth, cs, is, r, stack, rq))) \<Rightarrow> size_list size cs,
     \<lambda>x. case x of
        Inl (Inl _) \<Rightarrow> 0 | Inl (Inr _) \<Rightarrow> 1 | Inr (Inl _) \<Rightarrow> 1 | Inr (Inr (Inl _)) \<Rightarrow> 2 | Inr (Inr (Inr _)) \<Rightarrow> 2,
     \<lambda>x. case x of
        Inl _ \<Rightarrow> 0 | Inr (Inl _) \<Rightarrow> 0
      | Inr (Inr (Inl (depth, cs, slot, vps, stack, rq))) \<Rightarrow> length vps
      | Inr (Inr (Inr (depth, cs, is, r, stack, rq))) \<Rightarrow> length is]")
qed (auto simp: size_children size_callee le_imp_less_or_eq [OF size_drop] less_SucI)

text \<open>The array is not initialised in a build without assertions; its frames are written before they are read.\<close>

definition modcall :: "component \<Rightarrow> 'u modcallable list \<Rightarrow> 'u request \<Rightarrow> fault + rcode \<times> 'u request" where
  "modcall component c rq =
     (let zero = \<lparr>e_result = REJECT, e_priority = 0, e_unwind = NO_UNWIND\<rparr>;
          stack = (replicate MODCALL_STACK_MAX zero)[0 := zero\<lparr>e_result := default_component_results component\<rparr>]
      in map_sum id (\<lambda>(stack1, rq1). (e_result (stack1 ! 0), rq1)) (recurse True 0 c False False UNKNOWN stack rq))"

end
