(* ===== verification/ModcallSem.thy ===== *)
theory ModcallSem
  imports Modcall
begin

text \<open>
  What a section computes, without the stack: the reference semantics, with one frame for the
  section at hand, and the proof that the interpreter computes it whenever its stack is deep enough.
\<close>

section \<open>The reference semantics\<close>

function (sequential)
  sem :: "bool \<Rightarrow> 'u modcallable list \<Rightarrow> bool \<Rightarrow> bool \<Rightarrow> rcode \<Rightarrow> frame \<Rightarrow> 'u request \<Rightarrow> fault + frame \<times> 'u request" and
  sem_perform :: "'u modcallable \<Rightarrow> todo \<Rightarrow> frame \<Rightarrow> 'u request \<Rightarrow> fault + rcode \<times> int \<times> frame \<times> 'u request" and
  sem_child :: "'u modcallable list \<Rightarrow> bool \<Rightarrow> frame \<Rightarrow> 'u request \<Rightarrow> fault + rcode \<times> frame \<times> 'u request" and
  sem_foreach :: "'u modcallable list \<Rightarrow> int \<Rightarrow> nat list \<Rightarrow> frame \<Rightarrow> frame \<Rightarrow> 'u request \<Rightarrow> fault + frame \<times> frame \<times> 'u request" and
  sem_failover :: "'u modcallable list \<Rightarrow> nat list \<Rightarrow> rcode \<Rightarrow> frame \<Rightarrow> 'u request \<Rightarrow> fault + rcode \<times> frame \<times> 'u request"
where
  "sem do_next [] was_if if_taken result entry rq = Inr (entry, rq)"
| "sem do_next (c # cs) was_if if_taken result entry rq =
     (if stopped rq then Inr (entry\<lparr>e_result := FAIL, e_priority := 9999\<rparr>, rq)
      else case statement 0 c was_if if_taken result entry rq of
        Inl f \<Rightarrow> Inl f
      | Inr (Next_sibling, was_if1, if_taken1, rq1) \<Rightarrow>
          if do_next then sem do_next cs was_if1 if_taken1 result entry rq1 else Inr (entry, rq1)
      | Inr (Unwind u, was_if1, if_taken1, rq1) \<Rightarrow> Inr (entry\<lparr>e_unwind := u\<rparr>, rq1)
      | Inr (Do todo, was_if1, if_taken1, rq1) \<Rightarrow>
          (case sem_perform c todo entry rq1 of
             Inl f \<Rightarrow> Inl f
           | Inr (r, priority, entry1, rq2) \<Rightarrow>
               (case calculate_result c r priority entry1 of
                  Inl f \<Rightarrow> Inl f
                | Inr (entry2, leave) \<Rightarrow>
                    if \<not> leave \<and> do_next then sem do_next cs was_if1 if_taken1 r entry2 rq2 else Inr (entry2, rq2))))"
| "sem_perform c (Call found do_next) entry rq =
     map_sum id (\<lambda>(r, entry1, rq1). (r, - 1, entry1, rq1)) (sem_child (callee c found) do_next entry rq)"
| "sem_perform c (Foreach slot vps) entry rq =
     map_sum id (\<lambda>(body, entry1, rq1). (e_result body, e_priority body, entry1,
         rq1\<lparr>rq_data := fst (request_data_get (rq_data rq1) radius_get_vp slot)\<rparr>))
       (sem_foreach (mc_children c) slot vps entry entry rq)"
| "sem_perform c (Failover is) entry rq =
     map_sum id (\<lambda>(r, entry1, rq1). (r, - 1, entry1, rq1)) (sem_failover (mc_children c) is UNKNOWN entry rq)"
| "sem_perform c (Calculate r) entry rq = Inr (r, - 1, entry, rq)"
| "sem_child cs do_next entry rq =
     map_sum id (\<lambda>(body, rq1).
         (e_result body, if e_unwind body \<noteq> NO_UNWIND then entry\<lparr>e_unwind := e_unwind body\<rparr> else entry, rq1))
       (sem do_next cs False False UNKNOWN (new_frame entry) rq)"
| "sem_foreach children slot [] body entry rq = Inr (body, entry, rq)"
| "sem_foreach children slot (vp # vps) body entry rq =
     (case sem True children False False UNKNOWN (new_frame entry)
             (rq\<lparr>rq_data := fst (request_data_add True (rq_data rq) radius_get_vp slot vp False)\<rparr>) of
        Inl f \<Rightarrow> Inl f
      | Inr (body1, rq1) \<Rightarrow>
          if e_unwind body1 = UNWIND_BREAK then Inr (body1, entry\<lparr>e_unwind := NO_UNWIND\<rparr>, rq1)
          else if e_unwind body1 = UNWIND_RETURN then Inr (body1, entry\<lparr>e_unwind := UNWIND_RETURN\<rparr>, rq1)
          else sem_foreach children slot vps body1 entry rq1)"
| "sem_failover children [] r entry rq = Inr (r, entry, rq)"
| "sem_failover children (i # is) r0 entry rq =
     (case sem_child (drop i children) False entry rq of
        Inl f \<Rightarrow> Inl f
      | Inr (r, entry1, rq1) \<Rightarrow>
          (case action_of (children ! i) r of
             Inl f \<Rightarrow> Inl f
           | Inr a \<Rightarrow> if a = MOD_ACTION_RETURN then Inr (r, entry1, rq1)
                      else sem_failover children is r entry1 rq1))"
  by pat_completeness auto

termination
proof (relation "measures
    [\<lambda>x. case x of
        Inl (Inl (do_next, cs, wi, it, r, entry, rq)) \<Rightarrow> size_list size cs
      | Inl (Inr (c, todo, entry, rq)) \<Rightarrow> size c
      | Inr (Inl (cs, do_next, entry, rq)) \<Rightarrow> size_list size cs
      | Inr (Inr (Inl (cs, slot, vps, body, entry, rq))) \<Rightarrow> size_list size cs
      | Inr (Inr (Inr (cs, is, r, entry, rq))) \<Rightarrow> size_list size cs,
     \<lambda>x. case x of
        Inl (Inl _) \<Rightarrow> 0 | Inl (Inr _) \<Rightarrow> 1 | Inr (Inl _) \<Rightarrow> 1 | Inr (Inr (Inl _)) \<Rightarrow> 2 | Inr (Inr (Inr _)) \<Rightarrow> 2,
     \<lambda>x. case x of
        Inl _ \<Rightarrow> 0 | Inr (Inl _) \<Rightarrow> 0
      | Inr (Inr (Inl (cs, slot, vps, body, entry, rq))) \<Rightarrow> length vps
      | Inr (Inr (Inr (cs, is, r, entry, rq))) \<Rightarrow> length is]")
qed (auto simp: size_children size_callee le_imp_less_or_eq [OF size_drop] less_SucI)

section \<open>The depth of a tree\<close>

text \<open>The frames a list of statements needs above its own.\<close>

fun needs_frame :: "'u mod_type \<Rightarrow> bool" where
  "needs_frame (MOD_FOREACH vpt) = True"
| "needs_frame (MOD_SWITCH vpt) = True"
| "needs_frame _ = False"

fun levels :: "'u modcallable \<Rightarrow> nat" where
  "levels (Mod t acts ch) = (if ch = [] \<and> \<not> needs_frame t then 0 else Suc (fold max (map levels ch) 0))"

definition list_levels :: "'u modcallable list \<Rightarrow> nat" where
  "list_levels cs = fold max (map levels cs) 0"

lemma fold_max: "fold max xs (a :: nat) = max a (fold max xs 0)"
proof (induction xs arbitrary: a)
  case (Cons x xs)
  show ?case using Cons [of "max x a"] Cons [of "max x 0"] by simp
qed simp

lemma list_levels_simps [simp]: "list_levels [] = 0" "list_levels (c # cs) = max (levels c) (list_levels cs)"
  using fold_max [of "map levels cs" "levels c"] by (auto simp: list_levels_def)

lemma levels_children:
  "levels c = (if mc_children c = [] \<and> \<not> needs_frame (mc_type c) then 0 else Suc (list_levels (mc_children c)))"
  by (cases c) (simp add: list_levels_def)

lemma list_levels_drop: "list_levels (drop i cs) \<le> list_levels cs"
proof (induction cs arbitrary: i)
  case (Cons c cs)
  then show ?case by (cases i) (auto simp: le_max_iff_disj)
qed simp

section \<open>The interpreter computes the reference semantics\<close>

text \<open>What a statement leaves to do is a call only if it needs a frame.\<close>

definition calls :: "todo \<Rightarrow> bool" where
  "calls todo \<longleftrightarrow> (case todo of Calculate _ \<Rightarrow> False | _ \<Rightarrow> True)"

lemma do_children_calls: "do_children c = Do todo \<Longrightarrow> (calls todo \<longrightarrow> mc_children c \<noteq> []) \<and> todo \<noteq> Foreach slot vps"
  by (auto simp: do_children_def calls_def split: if_splits mod_type.splits)

lemma mod_if_calls:
  "mod_if c cond result entry rq = (Do todo, wi, it, rq') \<Longrightarrow> (calls todo \<longrightarrow> mc_children c \<noteq> []) \<and> todo \<noteq> Foreach slot vps"
  using do_children_calls [of c] by (auto simp: mod_if_def Let_def split: prod.splits if_splits)

lemma statement_calls:
  assumes "statement depth c was_if if_taken result entry rq = Inr (Do todo, wi, it, rq')"
  shows "(calls todo \<longrightarrow> levels c = Suc (list_levels (mc_children c))) \<and> todo \<noteq> Foreach slot []"
proof -
  have "(calls todo \<longrightarrow> mc_children c \<noteq> [] \<or> needs_frame (mc_type c)) \<and> todo \<noteq> Foreach slot []"
  proof (cases "mc_type c")
    case (MOD_IF cond)
    then show ?thesis using assms mod_if_calls [of c cond result entry rq] by (auto simp: statement_def)
  next
    case (MOD_ELSIF cond)
    then show ?thesis using assms mod_if_calls [of c cond result entry rq] by (auto simp: statement_def split: if_splits)
  next
    case (MOD_SWITCH vpt)
    then show ?thesis using assms by (cases "switch_case vpt (mc_children c) rq") (auto simp: statement_def)
  qed (use assms do_children_calls [of c] in
      \<open>auto simp: statement_def calls_def Let_def split: if_splits prod.splits option.splits\<close>)
  then show ?thesis using levels_children [of c] by auto
qed

lemma statement_depth: "depth < MODCALL_STACK_MAX \<Longrightarrow> statement depth = statement 0"
  by (intro ext) (simp add: statement_def MODCALL_STACK_MAX_def cong: mod_type.case_cong)

text \<open>The frames below a depth are left alone.\<close>

definition above :: "nat \<Rightarrow> frame list \<Rightarrow> frame list \<Rightarrow> bool" where
  "above d stack stack' \<longleftrightarrow> length stack = MODCALL_STACK_MAX \<and> length stack' = MODCALL_STACK_MAX \<and> (\<forall>j < d. stack' ! j = stack ! j)"

lemma above_refl [simp]: "above d stack stack \<longleftrightarrow> length stack = MODCALL_STACK_MAX"
  by (auto simp: above_def)

lemma above_trans: "above d s1 s2 \<Longrightarrow> above d' s2 s3 \<Longrightarrow> d \<le> d' \<Longrightarrow> above d s1 s3"
  by (auto simp: above_def)

lemma above_update: "above d s1 s2 \<Longrightarrow> d \<le> i \<Longrightarrow> above d s1 (s2[i := f])"
  by (auto simp: above_def)

lemma above_length: "above d s1 s2 \<Longrightarrow> length s2 = MODCALL_STACK_MAX"
  by (simp add: above_def)

lemma above_nth: "above d s1 s2 \<Longrightarrow> j < d \<Longrightarrow> s2 ! j = s1 ! j"
  by (simp add: above_def)

definition agrees :: "('r \<Rightarrow> 'x \<Rightarrow> bool) \<Rightarrow> fault + 'r \<Rightarrow> fault + 'x \<Rightarrow> bool" where
  "agrees R c a = (case a of Inl f \<Rightarrow> c = Inl f | Inr x \<Rightarrow> \<exists>y. c = Inr y \<and> R y x)"

lemma agrees_Inl [simp]: "agrees R c (Inl f) \<longleftrightarrow> c = Inl f"
  by (simp add: agrees_def)

lemma agrees_Inr [simp]: "agrees R c (Inr x) \<longleftrightarrow> (\<exists>y. c = Inr y \<and> R y x)"
  by (simp add: agrees_def)

lemma agrees_map:
  "agrees R c a \<Longrightarrow> (\<And>y x. R y x \<Longrightarrow> S (g y) (h x)) \<Longrightarrow> agrees S (map_sum id g c) (map_sum id h a)"
  by (cases a) auto

definition same_frame :: "nat \<Rightarrow> frame list \<Rightarrow> frame list \<times> 'u request \<Rightarrow> frame \<times> 'u request \<Rightarrow> bool" where
  "same_frame d stack y x \<longleftrightarrow> fst y ! d = fst x \<and> above d stack (fst y) \<and> snd y = snd x"

definition same_result ::
  "nat \<Rightarrow> frame list \<Rightarrow> rcode \<times> frame list \<times> 'u request \<Rightarrow> rcode \<times> frame \<times> 'u request \<Rightarrow> bool" where
  "same_result d stack y x \<longleftrightarrow> fst y = fst x \<and> same_frame d stack (snd y) (snd x)"

definition same_body ::
  "nat \<Rightarrow> frame list \<Rightarrow> frame list \<times> 'u request \<Rightarrow> frame \<times> frame \<times> 'u request \<Rightarrow> bool" where
  "same_body d stack y x \<longleftrightarrow> fst y ! (d + 1) = fst x \<and> same_frame d stack y (snd x)"

definition same_perform ::
  "nat \<Rightarrow> frame list \<Rightarrow> rcode \<times> int \<times> frame list \<times> 'u request \<Rightarrow> rcode \<times> int \<times> frame \<times> 'u request \<Rightarrow> bool" where
  "same_perform d stack y x \<longleftrightarrow> fst y = fst x \<and> fst (snd y) = fst (snd x) \<and> same_frame d stack (snd (snd y)) (snd (snd x))"

lemmas same_defs = same_frame_def same_result_def same_body_def same_perform_def

lemma interpreter_agrees:
  "length stack = MODCALL_STACK_MAX \<Longrightarrow> d + list_levels cs < MODCALL_STACK_MAX \<Longrightarrow>
     agrees (same_frame d stack) (recurse do_next d cs wi it res stack rq) (sem do_next cs wi it res (stack ! d) rq)"
  "length stack = MODCALL_STACK_MAX \<Longrightarrow> d < MODCALL_STACK_MAX \<Longrightarrow>
     (calls todo \<longrightarrow> d + Suc (list_levels (mc_children c)) < MODCALL_STACK_MAX) \<Longrightarrow> (\<And>slot. todo \<noteq> Foreach slot []) \<Longrightarrow>
     agrees (same_perform d stack) (perform d c todo stack rq) (sem_perform c todo (stack ! d) rq)"
  "length stack = MODCALL_STACK_MAX \<Longrightarrow> 0 < d \<Longrightarrow> d + list_levels cs < MODCALL_STACK_MAX \<Longrightarrow>
     agrees (same_result (d - 1) stack) (child d cs do_next stack rq) (sem_child cs do_next (stack ! (d - 1)) rq)"
  "length stack = MODCALL_STACK_MAX \<Longrightarrow> d + Suc (list_levels cs) < MODCALL_STACK_MAX \<Longrightarrow> (vps = [] \<Longrightarrow> body = stack ! (d + 1)) \<Longrightarrow>
     agrees (same_body d stack) (foreach_loop d cs slot vps stack rq) (sem_foreach cs slot vps body (stack ! d) rq)"
  "length stack = MODCALL_STACK_MAX \<Longrightarrow> d + Suc (list_levels cs) < MODCALL_STACK_MAX \<Longrightarrow>
     agrees (same_result d stack) (failover d cs is r stack rq) (sem_failover cs is r (stack ! d) rq)"
proof (induction do_next d cs wi it res stack rq and d c todo stack rq and d cs do_next stack rq
    and d cs slot vps stack rq and d cs "is" r stack rq arbitrary: and and and body and rule: recurse_perform_child_foreach_loop_failover.induct)
  case (1 do_next depth was_if if_taken result stack rq)
  then show ?case by (simp add: same_defs)
next
  case (2 do_next depth c cs was_if if_taken result stack rq)
  have L: "length stack = MODCALL_STACK_MAX" "depth < MODCALL_STACK_MAX" "depth + list_levels cs < MODCALL_STACK_MAX"
    "depth + levels c < MODCALL_STACK_MAX" using 2(4,5) by simp_all
  note D = statement_depth [OF L(2)]
  show ?case
  proof (cases "stopped rq")
    case True
    then show ?thesis using L by (simp add: same_defs above_update)
  next
    case ns: False
    show ?thesis
    proof (cases "statement 0 c was_if if_taken result (stack ! depth) rq")
      case (Inl f)
      from Inl have "statement depth c was_if if_taken result (stack ! depth) rq = Inl f" unfolding D .
      then show ?thesis using ns Inl by simp
    next
      case (Inr b)
      obtain step wi it rq1 where b: "b = (step, wi, it, rq1)" by (cases b) auto
      have st: "statement depth c was_if if_taken result (stack ! depth) rq = Inr (step, wi, it, rq1)"
        "statement 0 c was_if if_taken result (stack ! depth) rq = Inr (step, wi, it, rq1)" using Inr unfolding D b by simp_all
      show ?thesis
      proof (cases step)
        case Next_sibling
        then show ?thesis using 2(1) [OF ns Inr [folded D] b [symmetric] Next_sibling refl refl] ns st L
          by (auto simp: same_defs)
      next
        case (Unwind u)
        then show ?thesis using ns st L by (simp add: same_defs above_update)
      next
        case (Do todo)
        note C = statement_calls [OF st(2) [unfolded Do]]
        have P: "agrees (same_perform depth stack) (perform depth c todo stack rq1) (sem_perform c todo (stack ! depth) rq1)"
          using 2(2) [OF ns Inr [folded D] b [symmetric] Do refl refl L(1,2)] C L(4) by (metis Suc_eq_plus1 add.commute add_Suc_right)
        show ?thesis
        proof (cases "sem_perform c todo (stack ! depth) rq1")
          case (Inl f)
          then show ?thesis using P ns st Do by simp
        next
          case I: (Inr x)
          obtain r p e rq2 where x: "x = (r, p, e, rq2)" by (cases x) auto
          obtain st1 where s1: "perform depth c todo stack rq1 = Inr (r, p, st1, rq2)" "st1 ! depth = e" "above depth stack st1"
            using P I x by (auto simp: same_defs)
          show ?thesis
          proof (cases "calculate_result c r p e")
            case (Inl f)
            then show ?thesis using ns st Do I x s1 by simp
          next
            case R: (Inr el)
            obtain e2 leave where el: "el = (e2, leave)" by (cases el)
            have l1: "length (st1[depth := e2]) = MODCALL_STACK_MAX" using above_length [OF s1(3)] by simp
            have e2: "st1[depth := e2] ! depth = e2" using above_length [OF s1(3)] L(2) by simp
            have ab: "above depth stack (st1[depth := e2])" using above_update [OF s1(3)] by simp
            show ?thesis
            proof (cases "\<not> leave \<and> do_next")
              case False
              then show ?thesis using ns st Do I x s1 R el e2 ab by (auto simp: same_defs)
            next
              case True
              have "agrees (same_frame depth (st1[depth := e2])) (recurse do_next depth cs wi it r (st1[depth := e2]) rq2)
                (sem do_next cs wi it r e2 rq2)"
                using 2(3) [OF ns Inr [folded D] b [symmetric] Do refl refl s1(1) refl refl refl _ el [symmetric] True l1 L(3)]
                  R s1(2) e2 by simp
              then have "agrees (same_frame depth stack) (recurse do_next depth cs wi it r (st1[depth := e2]) rq2)
                (sem do_next cs wi it r e2 rq2)"
                using above_trans [OF ab _ order_refl] by (auto simp: agrees_def same_frame_def split: sum.splits)
              then show ?thesis using ns st Do I x s1 R el True by simp
            qed
          qed
        qed
      qed
    qed
  qed
next
  case (3 depth c found do_next stack rq)
  have "list_levels (callee c found) \<le> list_levels (mc_children c)"
    using list_levels_drop by (auto simp: callee_def split: option.split)
  then have "agrees (same_result depth stack) (child (depth + 1) (callee c found) do_next stack rq)
    (sem_child (callee c found) do_next (stack ! depth) rq)" using 3 by (simp add: calls_def)
  then show ?case unfolding perform.simps sem_perform.simps by (rule agrees_map) (auto simp: same_defs)
next
  case (4 depth c slot vps stack rq)
  have "vps \<noteq> []" using 4(5) by blast
  then have "agrees (same_body depth stack) (foreach_loop depth (mc_children c) slot vps stack rq)
    (sem_foreach (mc_children c) slot vps (stack ! depth) (stack ! depth) rq)" using 4 by (simp add: calls_def)
  then show ?case unfolding perform.simps sem_perform.simps by (rule agrees_map) (auto simp: same_defs)
next
  case (5 depth c "is" stack rq)
  then have "agrees (same_result depth stack) (failover depth (mc_children c) is UNKNOWN stack rq)
    (sem_failover (mc_children c) is UNKNOWN (stack ! depth) rq)" by (simp add: calls_def)
  then show ?case unfolding perform.simps sem_perform.simps by (rule agrees_map) (auto simp: same_defs)
next
  case (7 depth c do_next stack rq)
  let ?st = "stack[depth := new_frame (stack ! (depth - 1))]"
  have d: "\<not> depth \<ge> MODCALL_STACK_MAX" "depth - 1 < depth" "?st ! depth = new_frame (stack ! (depth - 1))" using 7(2-4) by simp_all
  have "agrees (same_frame depth ?st) (recurse do_next depth c False False UNKNOWN ?st rq)
    (sem do_next c False False UNKNOWN (new_frame (stack ! (depth - 1))) rq)"
    using 7(1) [OF d(1)] 7(2,4) d(3) by simp
  then show ?case unfolding child.simps sem_child.simps if_not_P [OF d(1)]
  proof (rule agrees_map, goal_cases)
    case (1 y x)
    then have y: "fst y ! depth = fst x" "above depth ?st (fst y)" "snd y = snd x" by (simp_all add: same_defs)
    have j: "fst y ! j = stack ! j" if "j < depth" for j using above_nth [OF y(2) that] that by simp
    have "above (depth - 1) stack (fst y)" using above_length [OF y(2)] 7(2) j by (simp add: above_def)
    then show ?case using y j d(2) above_length [OF y(2)] 7(4)
      by (cases y; cases x) (auto simp: same_defs above_update)
  qed
next
  case (8 depth children slot stack rq)
  then show ?case by (simp add: same_defs)
next
  case (9 depth children slot vp vps stack rq)
  let ?rq = "rq\<lparr>rq_data := fst (request_data_add True (rq_data rq) radius_get_vp slot vp False)\<rparr>"
  let ?st = "stack[depth + 1 := new_frame (stack ! depth)]"
  have d: "\<not> depth + 1 \<ge> MODCALL_STACK_MAX" "?st ! (depth + 1) = new_frame (stack ! depth)" using 9(3,4) by simp_all
  have A: "agrees (same_frame (depth + 1) ?st) (recurse True (depth + 1) children False False UNKNOWN ?st ?rq)
    (sem True children False False UNKNOWN (new_frame (stack ! depth)) ?rq)"
    using 9(1) [OF refl d(1)] 9(3,4) d(2) by simp
  show ?case
  proof (cases "sem True children False False UNKNOWN (new_frame (stack ! depth)) ?rq")
    case (Inl f)
    then show ?thesis using A d(1) by simp
  next
    case (Inr x)
    obtain body1 rq2 where x: "x = (body1, rq2)" by (cases x)
    obtain st1 where s1: "recurse True (depth + 1) children False False UNKNOWN ?st ?rq = Inr (st1, rq2)"
      "st1 ! (depth + 1) = body1" "above (depth + 1) ?st st1" using A Inr x by (auto simp: same_defs)
    have j: "st1 ! j = stack ! j" if "j \<le> depth" for j using above_nth [OF s1(3), of j] that by simp
    have ab: "above depth stack st1" using above_length [OF s1(3)] 9(3) j by (simp add: above_def)
    have len: "length st1 = MODCALL_STACK_MAX" using above_length [OF s1(3)] .
    consider "e_unwind body1 = UNWIND_BREAK" | "e_unwind body1 = UNWIND_RETURN" | "e_unwind body1 = NO_UNWIND"
      by (cases "e_unwind body1") auto
    then show ?thesis
    proof cases
      case 3
      have "agrees (same_body depth st1) (foreach_loop depth children slot vps st1 rq2)
        (sem_foreach children slot vps body1 (stack ! depth) rq2)"
        using 9(2) [OF refl d(1) s1(1) refl] 3 s1(2) len 9(4) j [of depth] by simp
      then have "agrees (same_body depth stack) (foreach_loop depth children slot vps st1 rq2)
        (sem_foreach children slot vps body1 (stack ! depth) rq2)"
        using above_trans [OF ab _ order_refl] by (auto simp: agrees_def same_defs split: sum.splits)
      then show ?thesis using d(1) s1 Inr x 3 by simp
    qed (use d(1) s1 Inr x ab len j [of depth] in \<open>auto simp: same_defs above_update\<close>)
  qed
next
  case (10 depth children r stack rq)
  then show ?case by (simp add: same_defs)
next
  case (11 depth children i "is" r0 stack rq)
  have "agrees (same_result depth stack) (child (depth + 1) (drop i children) False stack rq)
    (sem_child (drop i children) False (stack ! depth) rq)"
    using 11(1,3,4) list_levels_drop [of i children] by simp
  note A = this
  show ?case
  proof (cases "sem_child (drop i children) False (stack ! depth) rq")
    case (Inl f)
    then show ?thesis using A by simp
  next
    case (Inr x)
    obtain r e rq1 where x: "x = (r, e, rq1)" by (cases x) auto
    obtain st1 where s1: "child (depth + 1) (drop i children) False stack rq = Inr (r, st1, rq1)" "st1 ! depth = e"
      "above depth stack st1" using A Inr x by (auto simp: same_defs)
    show ?thesis
    proof (cases "action_of (children ! i) r")
      case (Inl f)
      then show ?thesis using s1 Inr x by simp
    next
      case a: (Inr a)
      show ?thesis
      proof (cases "a = MOD_ACTION_RETURN")
        case True
        then show ?thesis using s1 Inr x a by (simp add: same_defs)
      next
        case False
        have "agrees (same_result depth st1) (failover depth children is r st1 rq1) (sem_failover children is r e rq1)"
          using 11(2) [OF s1(1) refl refl a False above_length [OF s1(3)] 11(4)] s1(2) by simp
        then have "agrees (same_result depth stack) (failover depth children is r st1 rq1) (sem_failover children is r e rq1)"
          using above_trans [OF s1(3) _ order_refl] by (auto simp: agrees_def same_defs split: sum.splits)
        then show ?thesis using s1 Inr x a False by simp
      qed
    qed
  qed
qed (simp_all add: same_defs)

end
