(* ===== verification/ModcallProps.thy ===== *)
theory ModcallProps
  imports ModcallSem
begin

text \<open>
  The promises of the policy language as \<^verbatim>\<open>doc/configuration/configurable_failover.rst\<close> makes
  them, for the interpreter: what a section of modules returns, and failover.
\<close>

section \<open>Sections of modules\<close>

text \<open>
  A module with its nine actions, each a positive priority, \<open>return\<close> or \<open>reject\<close>, that returns a
  valid code and does not stop the request.
\<close>

definition actions_ok :: "int list \<Rightarrow> bool" where
  "actions_ok acts \<longleftrightarrow> length acts = 9 \<and> (\<forall>a \<in> set acts. a = MOD_ACTION_RETURN \<or> a = MOD_ACTION_REJECT \<or> 0 < a)"

definition module_ok :: "'u modcallable \<Rightarrow> bool" where
  "module_ok m \<longleftrightarrow> (\<exists>sp acts. m = Mod (MOD_SINGLE sp) acts [] \<and> actions_ok acts \<and>
     (\<forall>rq. \<not> stopped rq \<longrightarrow> rcode_num (fst (call_modsingle sp rq)) < 9 \<and> \<not> stopped (snd (call_modsingle sp rq))))"

fun call_module :: "'u modcallable \<Rightarrow> 'u request \<Rightarrow> rcode \<times> 'u request" where
  "call_module (Mod (MOD_SINGLE sp) acts ch) rq = call_modsingle sp rq"
| "call_module _ rq = (UNKNOWN, rq)"

definition final :: "int \<Rightarrow> bool" where
  "final a \<longleftrightarrow> a = MOD_ACTION_RETURN \<or> a = MOD_ACTION_REJECT"

text \<open>The modules are called in order, up to one whose action ends the section: their codes and actions.\<close>

fun run_modules :: "'u modcallable list \<Rightarrow> 'u request \<Rightarrow> (rcode \<times> int) list \<times> 'u request" where
  "run_modules [] rq = ([], rq)"
| "run_modules (m # ms) rq =
     (let (r, rq1) = call_module m rq; a = mc_actions m ! rcode_num r
      in if final a then ([(r, a)], rq1)
         else let (rs, rq2) = run_modules ms rq1 in ((r, a) # rs, rq2))"

text \<open>
  The code that was forced, or the one with the highest priority, the first of these; the default
  of the component when there is none.
\<close>

definition section_code :: "rcode \<Rightarrow> (rcode \<times> int) list \<Rightarrow> rcode" where
  "section_code dflt rs =
     (if rs = [] then dflt
      else if snd (last rs) = MOD_ACTION_RETURN then fst (last rs)
      else if snd (last rs) = MOD_ACTION_REJECT then REJECT
      else (case find (\<lambda>(r, a). a = Max (snd ` set rs)) rs of Some (r, a) \<Rightarrow> r | None \<Rightarrow> dflt))"

lemma module_okD:
  assumes "module_ok m" "\<not> stopped rq" "call_module m rq = (r, rq1)"
  shows "statement d m wi it res e rq = Inr (Do (Calculate r), False, False, rq1)" "\<not> stopped rq1" "rcode_num r < 9"
    "r \<noteq> UNKNOWN" "action_of m r = Inr (mc_actions m ! rcode_num r)"
    "final (mc_actions m ! rcode_num r) \<or> 0 < mc_actions m ! rcode_num r" "\<And>x. mc_type m \<noteq> MOD_CASE x"
proof -
  obtain sp acts where m: "m = Mod (MOD_SINGLE sp) acts []" "actions_ok acts"
    and c: "rcode_num (fst (call_modsingle sp rq)) < 9" "\<not> stopped (snd (call_modsingle sp rq))"
    using assms(1,2) by (auto simp: module_ok_def)
  have r: "call_modsingle sp rq = (r, rq1)" using assms(3) m(1) by simp
  then show "statement d m wi it res e rq = Inr (Do (Calculate r), False, False, rq1)" using m(1) by (simp add: statement_def)
  show n: "\<not> stopped rq1" "rcode_num r < 9" using c r by simp_all
  then show "r \<noteq> UNKNOWN" by auto
  have l: "length acts = 9" using m(2) by (simp add: actions_ok_def)
  then show "action_of m r = Inr (mc_actions m ! rcode_num r)" using m(1) n by (simp add: action_of_def)
  have "acts ! rcode_num r \<in> set acts" using l n by simp
  then show "final (mc_actions m ! rcode_num r) \<or> 0 < mc_actions m ! rcode_num r"
    using m by (auto simp: actions_ok_def final_def)
  show "mc_type m \<noteq> MOD_CASE x" for x using m(1) by simp
qed

text \<open>The running best of the interpreter.\<close>

fun pick :: "rcode \<Rightarrow> int \<Rightarrow> (rcode \<times> int) list \<Rightarrow> rcode" where
  "pick r p [] = r"
| "pick r p ((r', a) # rs) =
     (if a = MOD_ACTION_RETURN then r' else if a = MOD_ACTION_REJECT then REJECT
      else if a > p then pick r' a rs else pick r p rs)"

lemma sem_modules:
  "list_all module_ok ms \<Longrightarrow> \<not> stopped rq \<Longrightarrow> e_unwind e = NO_UNWIND \<Longrightarrow> 0 \<le> e_priority e \<Longrightarrow>
   \<exists>e'. sem True ms wi it res e rq = Inr (e', snd (run_modules ms rq)) \<and>
     e_result e' = pick (e_result e) (e_priority e) (fst (run_modules ms rq)) \<and> e_unwind e' = NO_UNWIND"
proof (induction ms arbitrary: wi it res e rq)
  case (Cons m ms)
  obtain r rq1 where c: "call_module m rq = (r, rq1)" by fastforce
  note M = module_okD [OF _ Cons.prems(2) c]
  have m: "module_ok m" using Cons.prems(1) by simp
  let ?a = "mc_actions m ! rcode_num r"
  show ?case
  proof (cases "final ?a")
    case True
    then show ?thesis using M [OF m] c Cons.prems by (auto simp: calculate_result_def final_def MOD_ACTION_RETURN_def MOD_ACTION_REJECT_def)
  next
    case False
    then have pos: "0 < ?a" using M(6) [OF m] by blast
    define e1 where "e1 = (if ?a > e_priority e then e\<lparr>e_result := r, e_priority := ?a\<rparr> else e)"
    have e1: "e_unwind e1 = NO_UNWIND" "0 \<le> e_priority e1" using Cons.prems(3,4) by (auto simp: e1_def)
    have "calculate_result m r (- 1) e = Inr (e1, False)"
      using M [OF m] False e1(1) by (auto simp: calculate_result_def final_def e1_def Let_def split: mod_type.split)
    then have "sem True (m # ms) wi it res e rq = sem True ms False False r e1 rq1"
      using M(1) [OF m] Cons.prems(2) by simp
    moreover have "fst (run_modules (m # ms) rq) = (r, ?a) # fst (run_modules ms rq1)" "snd (run_modules (m # ms) rq) = snd (run_modules ms rq1)"
      using c False by (simp_all add: Let_def split: prod.split)
    moreover have "pick (e_result e) (e_priority e) ((r, ?a) # rs) = pick (e_result e1) (e_priority e1) rs" for rs
      using False by (simp add: e1_def final_def)
    ultimately show ?thesis using Cons.IH [OF _ M(2) [OF m] e1] Cons.prems(1) by simp
  qed
qed simp

lemma Max_Cons: "Max (snd ` set (x # rs)) = (if rs = [] then snd x else max (snd x) (Max (snd ` set rs)))"
  for x :: "'r \<times> int"
  by simp

lemma pick_first_max:
  "\<forall>x \<in> set rs. \<not> final (snd x) \<Longrightarrow>
   pick r p rs = (if \<exists>x \<in> set rs. snd x > p then fst (the (find (\<lambda>x. snd x = Max (snd ` set rs)) rs)) else r)"
proof (induction rs arbitrary: r p)
  case (Cons x rs)
  obtain r1 a where x: "x = (r1, a)" by (cases x)
  have step: "pick r p (x # rs) = (if a > p then pick r1 a rs else pick r p rs)"
    using Cons.prems x by (auto simp: final_def)
  have IH: "pick q k rs = (if \<exists>x \<in> set rs. snd x > k then fst (the (find (\<lambda>x. snd x = Max (snd ` set rs)) rs)) else q)" for q k
    using Cons by simp
  show ?case
  proof (cases "\<exists>y \<in> set rs. snd y > max a p")
    case True
    then obtain y where y: "y \<in> set rs" "snd y > max a p" by blast
    have "snd y \<le> Max (snd ` set rs)" using y(1) by (intro Max_ge) auto
    with y(2) have "Max (snd ` set rs) > a" by linarith
    moreover have "rs \<noteq> []" using y(1) by auto
    ultimately have "Max (snd ` set (x # rs)) = Max (snd ` set rs)" "a \<noteq> Max (snd ` set rs)" unfolding Max_Cons x by auto
    then have f: "find (\<lambda>y. snd y = Max (snd ` set (x # rs))) (x # rs) = find (\<lambda>x. snd x = Max (snd ` set rs)) rs"
      unfolding x by simp
    have "\<exists>y \<in> set rs. snd y > a" using y by (intro bexI [of _ y]) simp_all
    moreover have "\<exists>y \<in> set (x # rs). snd y > p" using y by (intro bexI [of _ y]) simp_all
    moreover have "\<exists>y \<in> set rs. snd y > p" using y by (intro bexI [of _ y]) simp_all
    ultimately show ?thesis unfolding step IH f by simp
  next
    case False
    show ?thesis
    proof (cases "a > p")
      case True
      then have le: "\<forall>y \<in> set rs. snd y \<le> a" using False by fastforce
      then have "Max (snd ` set (x # rs)) = a" unfolding x by (intro Max_eqI) auto
      then have "find (\<lambda>y. snd y = Max (snd ` set (x # rs))) (x # rs) = Some x" by (simp add: x)
      then show ?thesis unfolding step IH using True le x by (auto simp: not_less)
    next
      case no: False
      then have "\<forall>y \<in> set rs. \<not> snd y > p" using False by (simp add: max_def)
      moreover from this have "\<not> (\<exists>y \<in> set (x # rs). snd y > p)" using no x by simp
      ultimately have "\<not> (\<exists>y \<in> set rs. snd y > p)" "\<not> (\<exists>y \<in> set (x # rs). snd y > p)" by blast+
      then show ?thesis unfolding step IH using no by simp
    qed
  qed
qed simp

lemma pick_final: "\<forall>x \<in> set rs. \<not> final (snd x) \<Longrightarrow> final a \<Longrightarrow> pick r p (rs @ [(r', a)]) = (if a = MOD_ACTION_RETURN then r' else REJECT)"
  by (induction rs arbitrary: r p) (auto simp: final_def)

lemma run_modules_shape:
  assumes "list_all module_ok ms" "\<not> stopped rq"
  shows "(\<forall>x \<in> set (fst (run_modules ms rq)). \<not> final (snd x) \<and> 0 < snd x) \<or>
    (\<exists>rs r a. fst (run_modules ms rq) = rs @ [(r, a)] \<and> final a \<and> (\<forall>x \<in> set rs. \<not> final (snd x)))"
  using assms
proof (induction ms arbitrary: rq)
  case (Cons m ms)
  obtain r rq1 where c: "call_module m rq = (r, rq1)" by fastforce
  have m: "module_ok m" using Cons.prems(1) by simp
  note M = module_okD [OF m Cons.prems(2) c]
  let ?a = "mc_actions m ! rcode_num r"
  show ?case
  proof (cases "final ?a")
    case True
    then show ?thesis using c by (intro disjI2 exI [of _ "[]"]) simp
  next
    case False
    then have cons: "fst (run_modules (m # ms) rq) = (r, ?a) # fst (run_modules ms rq1)"
      using c by (simp add: Let_def split: prod.split)
    from Cons.IH [OF _ M(2)] Cons.prems(1) consider
        "\<forall>x \<in> set (fst (run_modules ms rq1)). \<not> final (snd x) \<and> 0 < snd x"
      | rs r' a where "fst (run_modules ms rq1) = rs @ [(r', a)]" "final a" "\<forall>x \<in> set rs. \<not> final (snd x)" by fastforce
    then show ?thesis
    proof cases
      case 1
      then show ?thesis using False M(6) unfolding cons by simp
    next
      case 2
      then show ?thesis using False unfolding cons by (intro disjI2 exI [of _ "(r, ?a) # rs"]) auto
    qed
  qed
qed simp

lemma pick_section_code:
  assumes "(\<forall>x \<in> set rs. \<not> final (snd x) \<and> 0 < snd x) \<or>
    (\<exists>rs' r a. rs = rs' @ [(r, a)] \<and> final a \<and> (\<forall>x \<in> set rs'. \<not> final (snd x)))"
  shows "pick r 0 rs = section_code r rs"
  using assms
proof (elim disjE exE conjE)
  assume pos: "\<forall>x \<in> set rs. \<not> final (snd x) \<and> 0 < snd x"
  show ?thesis
  proof (cases "rs = []")
    case False
    then have "last rs \<in> set rs" by simp
    then have l: "\<not> final (snd (last rs))" using pos by blast
    have "Max (snd ` set rs) \<in> snd ` set rs" using False by (intro Max_in) auto
    then have "find (\<lambda>x. snd x = Max (snd ` set rs)) rs \<noteq> None" by (auto simp: find_None_iff)
    moreover have "\<exists>x \<in> set rs. snd x > 0" using False pos by (cases rs) auto
    moreover have "(\<lambda>(r, a). a = Max (snd ` set rs)) = (\<lambda>x :: rcode \<times> int. snd x = Max (snd ` set rs))" by auto
    ultimately show ?thesis using pick_first_max [of rs r 0] pos False l
      by (auto simp: section_code_def final_def)
  qed (simp add: section_code_def)
next
  fix rs' r' a
  assume "rs = rs' @ [(r', a)]" "final a" "\<forall>x \<in> set rs'. \<not> final (snd x)"
  then show ?thesis using pick_final [of rs' a r 0 r'] by (auto simp: section_code_def final_def MOD_ACTION_RETURN_def MOD_ACTION_REJECT_def)
qed

lemma levels_modules: "list_all module_ok ms \<Longrightarrow> list_levels ms = 0"
  by (induction ms) (auto simp: module_ok_def)

definition first_frame :: "component \<Rightarrow> frame" where
  "first_frame component = \<lparr>e_result = default_component_results component, e_priority = 0, e_unwind = NO_UNWIND\<rparr>"

lemma modcall_sem:
  assumes "list_levels c < MODCALL_STACK_MAX"
  shows "modcall component c rq = map_sum id (\<lambda>(e, rq1). (e_result e, rq1)) (sem True c False False UNKNOWN (first_frame component) rq)"
proof -
  let ?zero = "\<lparr>e_result = REJECT, e_priority = 0, e_unwind = NO_UNWIND\<rparr>"
  let ?st = "(replicate MODCALL_STACK_MAX ?zero)[0 := first_frame component]"
  have "?st ! 0 = first_frame component" "length ?st = MODCALL_STACK_MAX" by (simp_all add: MODCALL_STACK_MAX_def)
  then have "agrees (same_frame 0 ?st) (recurse True 0 c False False UNKNOWN ?st rq)
      (sem True c False False UNKNOWN (first_frame component) rq)"
    using interpreter_agrees(1) [of ?st 0 c True False False UNKNOWN rq] assms by simp
  then show ?thesis
    by (cases "sem True c False False UNKNOWN (first_frame component) rq")
       (auto simp: modcall_def first_frame_def same_frame_def)
qed

lemma modcall_modules:
  assumes "list_all module_ok ms" "\<not> stopped rq"
  shows "modcall component ms rq =
    Inr (section_code (default_component_results component) (fst (run_modules ms rq)), snd (run_modules ms rq))"
proof -
  obtain e where e: "sem True ms False False UNKNOWN (first_frame component) rq = Inr (e, snd (run_modules ms rq))"
    "e_result e = pick (default_component_results component) 0 (fst (run_modules ms rq))"
    using sem_modules [OF assms, of "first_frame component" False False UNKNOWN] by (auto simp: first_frame_def)
  then show ?thesis
    using modcall_sem [of ms component rq] levels_modules [OF assms(1)] pick_section_code [OF run_modules_shape [OF assms]]
    by (simp add: MODCALL_STACK_MAX_def)
qed

section \<open>Failover\<close>

text \<open>Modules as they are compiled in a \<open>redundant\<close> section, and what the documentation promises of it.\<close>

definition redundant_module :: "component \<Rightarrow> 'u modcallable \<Rightarrow> bool" where
  "redundant_module component m \<longleftrightarrow> module_ok m \<and> mc_actions m = defaultactions component GROUPTYPE_REDUNDANT"

fun first_working :: "rcode \<Rightarrow> 'u modcallable list \<Rightarrow> 'u request \<Rightarrow> rcode \<times> 'u request" where
  "first_working r [] rq = (r, rq)"
| "first_working r (m # ms) rq =
     (let (r1, rq1) = call_module m rq in if r1 = FAIL then first_working FAIL ms rq1 else (r1, rq1))"

lemma redundant_action:
  assumes "component \<noteq> ACCOUNTING" "rcode_num r < 9"
  shows "defaultactions component GROUPTYPE_REDUNDANT ! rcode_num r = (if r = FAIL then 1 else MOD_ACTION_RETURN)"
  using assms by (cases component; cases r) (simp_all add: MOD_ACTION_RETURN_def)

lemma redundant_step:
  assumes "component \<noteq> ACCOUNTING" "redundant_module component m" "\<not> stopped rq" "call_module m rq = (r, rq1)"
  shows "mc_actions m ! rcode_num r = (if r = FAIL then 1 else MOD_ACTION_RETURN)" "\<not> stopped rq1"
  using assms redundant_action [OF assms(1), of r] module_okD [OF _ assms(3,4)] by (auto simp: redundant_module_def)

lemma redundant_run:
  assumes "component \<noteq> ACCOUNTING"
  shows "list_all (redundant_module component) ms \<Longrightarrow> \<not> stopped rq \<Longrightarrow> (p = 0 \<or> p = 1 \<and> r = FAIL) \<Longrightarrow>
    pick r p (fst (run_modules ms rq)) = fst (first_working r ms rq) \<and> snd (run_modules ms rq) = snd (first_working r ms rq)"
proof (induction ms arbitrary: r p rq)
  case (Cons m ms)
  obtain r1 rq1 where c: "call_module m rq = (r1, rq1)" by fastforce
  have m: "redundant_module component m" using Cons.prems(1) by simp
  note S = redundant_step [OF assms m Cons.prems(2) c]
  show ?case
  proof (cases "r1 = FAIL")
    case True
    from Cons.prems(3) have "p = 0 \<or> p = 1" by blast
    with Cons.IH [OF _ S(2), of 1 FAIL] Cons.prems(1,3) True c S(1) show ?thesis
      by (auto simp: Let_def final_def MOD_ACTION_RETURN_def MOD_ACTION_REJECT_def split: prod.split)
  next
    case False
    then show ?thesis using c S(1) by (simp add: final_def MOD_ACTION_RETURN_def)
  qed
qed simp

lemma choose_child_frame:
  "choose_child cs i n found rq = (k, rq1) \<Longrightarrow>
   (k = found \<or> i \<le> k \<and> k < i + length cs) \<and> (\<exists>rand. rq1 = rq\<lparr>rq_rand := rand\<rparr>)"
proof (induction cs i n found rq rule: choose_child.induct)
  case (1 i n found rq)
  then have "rq1 = rq\<lparr>rq_rand := rq_rand rq\<rparr>" by simp
  then have "\<exists>rand. rq1 = rq\<lparr>rq_rand := rand\<rparr>" by (rule exI [of _ "rq_rand rq"])
  with 1 show ?case by simp
next
  case (2 this rest i n found rq)
  obtain r rq2 where d: "fr_rand rq = (r, rq2)" by fastforce
  then have u: "rq2\<lparr>rq_rand := f\<rparr> = rq\<lparr>rq_rand := f\<rparr>" for f by (auto simp: fr_rand_def)
  have "choose_child rest (i + 1) (n + 1) (if (n + 1) * (r AND 0xffff) < 0x10000 then i else found) rq2 = (k, rq1)"
    using 2(2) d by (simp add: Let_def)
  from 2(1) [OF refl d [symmetric] refl this] obtain rand where "rq1 = rq2\<lparr>rq_rand := rand\<rparr>"
    "k = (if (n + 1) * (r AND 0xffff) < 0x10000 then i else found) \<or> i + 1 \<le> k \<and> k < i + 1 + length rest" by blast
  then have "rq1 = rq\<lparr>rq_rand := rand\<rparr>" "k = found \<or> i \<le> k \<and> k < i + length (this # rest)" using u by (auto split: if_splits)
  then show ?case by blast
qed

lemma stopped_rand [simp]: "stopped (rq\<lparr>rq_rand := f\<rparr>) = stopped rq"
  by (simp add: stopped_def)

lemma sem_child_module:
  assumes "component \<noteq> ACCOUNTING" "redundant_module component m" "\<not> stopped rq" "call_module m rq = (r, rq1)"
  shows "sem_child (m # rest) False entry rq = Inr (r, entry, rq1)"
proof -
  have ok: "module_ok m" using assms(2) by (simp add: redundant_module_def)
  note M = module_okD [OF ok assms(3,4)]
  note S = redundant_step [OF assms]
  have "\<exists>e b. calculate_result m r (- 1) (new_frame entry) = Inr (e, b) \<and> e_result e = r \<and> e_unwind e = NO_UNWIND"
    using M S by (auto simp: calculate_result_def new_frame_def MOD_ACTION_RETURN_def MOD_ACTION_REJECT_def)
  then obtain e b where e: "calculate_result m r (- 1) (new_frame entry) = Inr (e, b)" "e_result e = r" "e_unwind e = NO_UNWIND"
    by blast
  have "sem False (m # rest) False False UNKNOWN (new_frame entry) rq = Inr (e, rq1)"
    using M(1) assms(3) e(1) by simp
  then show ?thesis using e by simp
qed

lemma sem_failover_modules:
  assumes "component \<noteq> ACCOUNTING" "list_all (redundant_module component) ms"
  shows "\<forall>i \<in> set is. i < length ms \<Longrightarrow> \<not> stopped rq \<Longrightarrow>
    sem_failover ms is r entry rq = Inr (fst (first_working r (map ((!) ms) is) rq), entry, snd (first_working r (map ((!) ms) is) rq))
    \<and> (is \<noteq> [] \<longrightarrow> rcode_num (fst (first_working r (map ((!) ms) is) rq)) < 9)"
proof (induction "is" arbitrary: r rq)
  case (Cons i "is")
  obtain r1 rq1 where c: "call_module (ms ! i) rq = (r1, rq1)" by fastforce
  have i: "i < length ms" and m: "redundant_module component (ms ! i)"
    using Cons.prems(1) assms(2) by (auto simp: list_all_length)
  have "module_ok (ms ! i)" using m by (simp add: redundant_module_def)
  note M = module_okD [OF this Cons.prems(2) c]
  note S = redundant_step [OF assms(1) m Cons.prems(2) c]
  have ch: "sem_child (drop i ms) False entry rq = Inr (r1, entry, rq1)"
    using sem_child_module [OF assms(1) m Cons.prems(2) c] i by (simp add: Cons_nth_drop_Suc [symmetric])
  show ?case
  proof (cases "r1 = FAIL")
    case True
    then show ?thesis using Cons.IH [OF _ S(2), of FAIL] Cons.prems(1) ch c M(5) S(1)
      by (cases "is") (auto simp: MOD_ACTION_RETURN_def)
  next
    case False
    then show ?thesis using ch c M(3,5) S(1) by simp
  qed
qed simp

lemma rotate_indices:
  "k < length ms \<Longrightarrow> map ((!) ms) ([k..<length ms] @ [0..<k]) = drop k ms @ take k ms"
  by (intro nth_equalityI) (auto simp: nth_append)

lemma call_failover_section:
  assumes "component \<noteq> ACCOUNTING" "list_all (redundant_module component) ms" "ms \<noteq> []" "\<not> stopped rq" "actions_ok acts"
    and ch: "choose_child ms 0 0 0 rq = (k, rq1)"
  shows "k < length ms \<and>
    modcall component [Mod MOD_REDUNDANT_LOAD_BALANCE acts ms] rq =
      (let (r, rq2) = first_working UNKNOWN (drop k ms @ take k ms) rq1
       in Inr (if acts ! rcode_num r = MOD_ACTION_REJECT then REJECT else r, rq2))"
proof -
  let ?G = "Mod MOD_REDUNDANT_LOAD_BALANCE acts ms"
  have k: "k < length ms" "\<not> stopped rq1"
    using choose_child_frame [OF ch] assms(3,4) by (cases "k = 0"; auto)+
  let ?is = "[k..<length ms] @ [0..<k]"
  obtain r rq2 where w: "first_working UNKNOWN (map ((!) ms) ?is) rq1 = (r, rq2)" by fastforce
  have ne: "?is \<noteq> []" and lt: "\<forall>i \<in> set ?is. i < length ms" using k(1) by auto
  have f: "sem_failover ms ?is UNKNOWN (first_frame component) rq1 = Inr (r, first_frame component, rq2)" "rcode_num r < 9"
    using sem_failover_modules [OF assms(1,2) lt k(2), of UNKNOWN "first_frame component", unfolded w fst_conv snd_conv] ne by blast+
  have st: "statement 0 ?G False False UNKNOWN (first_frame component) rq = Inr (Do (Failover ?is), False, False, rq1)"
    using assms(3) ch by (simp add: statement_def)
  have r: "r \<noteq> UNKNOWN" using f(2) by auto
  have act: "action_of ?G r = Inr (acts ! rcode_num r)" using assms(5) f(2) by (simp add: action_of_def actions_ok_def)
  have "acts ! rcode_num r \<in> set acts" using assms(5) f(2) by (simp add: actions_ok_def)
  then have a: "acts ! rcode_num r = MOD_ACTION_RETURN \<or> acts ! rcode_num r = MOD_ACTION_REJECT \<or> 0 < acts ! rcode_num r"
    using assms(5) by (simp add: actions_ok_def)
  have "\<exists>e b. calculate_result ?G r (- 1) (first_frame component) = Inr (e, b) \<and>
      e_result e = (if acts ! rcode_num r = MOD_ACTION_REJECT then REJECT else r)"
    using a r act by (auto simp: calculate_result_def first_frame_def MOD_ACTION_RETURN_def MOD_ACTION_REJECT_def)
  then obtain e b where e: "calculate_result ?G r (- 1) (first_frame component) = Inr (e, b)"
    "e_result e = (if acts ! rcode_num r = MOD_ACTION_REJECT then REJECT else r)" by blast
  have "sem True [?G] False False UNKNOWN (first_frame component) rq = Inr (e, rq2)"
    using assms(4) st f(1) e(1) by (simp del: upt.simps)
  moreover have "list_all module_ok ms" using assms(2) by (auto simp: redundant_module_def list_all_iff)
  then have "list_levels [?G] < MODCALL_STACK_MAX"
    using levels_modules [of ms] by (simp add: MODCALL_STACK_MAX_def list_levels_def)
  ultimately have "modcall component [?G] rq = Inr (e_result e, rq2)" by (simp add: modcall_sem)
  then show ?thesis using k(1) e(2) w rotate_indices [OF k(1)] by simp
qed

section \<open>Properties\<close>

text \<open>Modules of one code, and a request without anything, for the examples.\<close>

definition demo_rq :: "unit request" where
  "demo_rq = \<lparr>rq_stop = False, rq_parent_stop = None, rq_data = [], rq_rcode = NOOP, rq_module = 0, rq_server = 0,
     rq_rand = (\<lambda>_. 0), rq_rest = ()\<rparr>"

definition always :: "rcode \<Rightarrow> int list \<Rightarrow> 'u modcallable" where
  "always r acts = Mod (MOD_SINGLE \<lparr>mi_name = 1, mi_force = None, mi_method = (\<lambda>rq. (r, rq))\<rparr>) acts []"

lemma always_call: "\<not> stopped rq \<Longrightarrow> call_module (always r acts) rq = (r, rq\<lparr>rq_rcode := r\<rparr>)"
  by (simp add: always_def call_modsingle_def stopped_def)

lemma always_ok: "rcode_num r < 9 \<Longrightarrow> actions_ok acts \<Longrightarrow> module_ok (always r acts)"
  unfolding module_ok_def always_def
  by (intro exI conjI) (auto simp: call_modsingle_def stopped_def)

lemma always_actions: "mc_actions (always r acts) = acts"
  by (simp add: always_def)

lemma default_actions_ok: "actions_ok (defaultactions component gt)"
  by (cases component; cases gt) (simp_all add: actions_ok_def MOD_ACTION_RETURN_def)

lemma demo_runs: "\<not> stopped demo_rq" "\<not> stopped (demo_rq\<lparr>rq_rcode := r\<rparr>)"
  by (simp_all add: stopped_def demo_rq_def)

text \<open>
  C3: A tree of at most 31 levels is run on the stack of 32 frames exactly as its semantics says,
  which has no stack: no frame is written out of bounds or by a section that does not own it, and
  the interpreter never exits.
\<close>

theorem modcall_refines_sections:
  assumes "list_levels c < MODCALL_STACK_MAX"
  shows "modcall component c rq =
    map_sum id (\<lambda>(e, rq1). (e_result e, rq1)) (sem True c False False UNKNOWN (first_frame component) rq)"
  using assms by (rule modcall_sem)

theorem modcall_refines_sections_witness:
  "modcall AUTHORIZE [Mod MOD_GROUP (defaultactions AUTHORIZE GROUPTYPE_SIMPLE)
     [always NOOP (defaultactions AUTHORIZE GROUPTYPE_SIMPLE), always UPDATED (defaultactions AUTHORIZE GROUPTYPE_SIMPLE)]] demo_rq =
   Inr (UPDATED, demo_rq\<lparr>rq_rcode := UPDATED\<rparr>)"
  by (subst modcall_refines_sections)
     (simp_all add: MODCALL_STACK_MAX_def always_def demo_rq_def stopped_def statement_def call_modsingle_def do_children_def
       callee_def new_frame_def first_frame_def calculate_result_def action_of_def MOD_ACTION_RETURN_def MOD_ACTION_REJECT_def)

text \<open>
  C4: A section of modules calls them in order, up to the first whose action is \<open>return\<close> or \<open>reject\<close>,
  and no other; it returns the code that was forced, or else the code with the highest priority,
  the first of several, or the default of the component if there is none.
\<close>

theorem section_of_modules:
  assumes "list_all module_ok ms" "\<not> stopped rq"
  shows "modcall component ms rq =
    Inr (section_code (default_component_results component) (fst (run_modules ms rq)), snd (run_modules ms rq))"
  using assms by (rule modcall_modules)

theorem section_of_modules_witness:
  "modcall ACCOUNTING [always NOOP (defaultactions ACCOUNTING GROUPTYPE_SIMPLE), always UPDATED (defaultactions ACCOUNTING GROUPTYPE_SIMPLE),
     always OK (defaultactions ACCOUNTING GROUPTYPE_SIMPLE)] demo_rq = Inr (UPDATED, demo_rq\<lparr>rq_rcode := OK\<rparr>)"
proof -
  let ?acts = "defaultactions ACCOUNTING GROUPTYPE_SIMPLE"
  let ?ms = "[always NOOP ?acts, always UPDATED ?acts, always OK ?acts] :: unit modcallable list"
  have ok: "list_all module_ok ?ms" by (simp add: always_ok default_actions_ok del: defaultactions.simps)
  have acts: "?acts ! 7 = 1" "?acts ! 8 = 3" "?acts ! 2 = 2" by simp_all
  have run: "run_modules ?ms demo_rq = ([(NOOP, 1), (UPDATED, 3), (OK, 2)], demo_rq\<lparr>rq_rcode := OK\<rparr>)"
    by (simp add: always_call always_actions demo_runs acts final_def MOD_ACTION_RETURN_def MOD_ACTION_REJECT_def
        del: defaultactions.simps)
  have "section_code NOOP [(NOOP, 1), (UPDATED, 3), (OK, 2)] = UPDATED"
    by (simp add: section_code_def MOD_ACTION_RETURN_def MOD_ACTION_REJECT_def)
  with section_of_modules [OF ok demo_runs(1), of ACCOUNTING] run show ?thesis by simp
qed



end
