(* ===== verification/ModcallIf.thy ===== *)
theory ModcallIf
  imports ModcallProps
begin

text \<open>
  The chains of \<open>if\<close>, \<open>elsif\<close> and \<open>else\<close> of the interpreter.
\<close>

section \<open>If, elsif, else\<close>

type_synonym 'u branch = "'u cond \<times> int list \<times> 'u modcallable list"

fun elsifs :: "'u branch list \<Rightarrow> (int list \<times> 'u modcallable list) option \<Rightarrow> 'u modcallable list" where
  "elsifs [] None = []"
| "elsifs [] (Some (acts, body)) = [Mod MOD_ELSE acts body]"
| "elsifs ((cond, acts, body) # bs) els = Mod (MOD_ELSIF cond) acts body # elsifs bs els"

fun if_chain :: "'u branch \<Rightarrow> 'u branch list \<Rightarrow> (int list \<times> 'u modcallable list) option \<Rightarrow> 'u modcallable list" where
  "if_chain (cond, acts, body) bs els = Mod (MOD_IF cond) acts body # elsifs bs els"

text \<open>The conditions are evaluated in order, up to the first that holds; its block, or that of \<open>else\<close>, as a group.\<close>

fun select :: "'u branch list \<Rightarrow> (int list \<times> 'u modcallable list) option \<Rightarrow> rcode \<Rightarrow> 'u request \<Rightarrow>
    'u modcallable list \<times> 'u request" where
  "select [] None r rq = ([], rq)"
| "select [] (Some (acts, body)) r rq = ([Mod MOD_GROUP acts body], rq)"
| "select ((cond, acts, body) # bs) els r rq =
     (let (v, rq1) = cond r rq in if v > 0 then ([Mod MOD_GROUP acts body], rq1) else select bs els r rq1)"

definition plain_head :: "'u modcallable list \<Rightarrow> bool" where
  "plain_head cs \<longleftrightarrow> (case cs of [] \<Rightarrow> True | c # _ \<Rightarrow> mc_type c \<noteq> MOD_ELSE \<and> (\<forall>cond. mc_type c \<noteq> MOD_ELSIF cond))"

definition keeps_running :: "'u branch \<Rightarrow> bool" where
  "keeps_running b \<longleftrightarrow> (\<forall>r rq. \<not> stopped rq \<longrightarrow> \<not> stopped (snd (fst b r rq)))"

text \<open>A block after which the request still runs.\<close>

definition never_stops :: "nat \<Rightarrow> 'u modcallable list \<Rightarrow> bool" where
  "never_stops depth body \<longleftrightarrow> (\<forall>acts todo stack rq r p stack' rq'.
     \<not> stopped rq \<longrightarrow> perform depth (Mod MOD_GROUP acts body) todo stack rq = Inr (r, p, stack', rq') \<longrightarrow> \<not> stopped rq')"

lemma statement_flags:
  "plain_head (c # cs) \<Longrightarrow> statement depth c wi it res entry rq = statement depth c False False res entry rq"
  by (cases "mc_type c") (simp_all add: plain_head_def statement_def)

lemma recurse_flags:
  "plain_head cs \<Longrightarrow> recurse True depth cs wi it res stack rq = recurse True depth cs False False res stack rq"
proof (cases cs)
  case (Cons c cs')
  assume "plain_head cs"
  show ?thesis unfolding Cons recurse.simps statement_flags [of c cs' depth wi it, unfolded Cons [symmetric], OF \<open>plain_head cs\<close>]
    by (rule refl)
qed simp

text \<open>After a branch was taken, the others are passed over.\<close>

lemma skip_elsifs:
  assumes "plain_head rest"
  shows "\<not> stopped rq \<or> rest \<noteq> [] \<Longrightarrow>
    recurse True depth (elsifs bs els @ rest) True True res stack rq = recurse True depth rest False False res stack rq"
proof (induction bs els rule: elsifs.induct)
  case 1
  then show ?case using recurse_flags [OF assms] by simp
next
  case (2 acts body)
  then show ?case by (cases rest) (simp_all add: statement_def)
next
  case (3 cond acts body bs els)
  then show ?case by (cases rest) (auto simp: statement_def)
qed

text \<open>A taken branch is the group of its block.\<close>

lemma perform_group:
  "perform depth (Mod t acts body) todo stack rq = perform depth (Mod MOD_GROUP acts body) todo stack rq"
proof -
  have "callee (Mod t acts body) found = callee (Mod MOD_GROUP acts body) found" for found
    by (simp add: callee_def split: option.split)
  then show ?thesis by (cases todo) (simp_all del: child.simps)
qed

lemma calculate_group:
  "(\<And>x. t \<noteq> MOD_CASE x) \<Longrightarrow> calculate_result (Mod t acts body) r p e = calculate_result (Mod MOD_GROUP acts body) r p e"
  by (simp add: calculate_result_def action_of_def split: mod_type.split)

lemma taken_branch:
  assumes rest: "plain_head rest" and run: "\<not> stopped rq" "\<not> stopped rq1" "rest \<noteq> [] \<or> never_stops depth body"
    and t: "\<And>x. t \<noteq> MOD_CASE x"
    and st: "statement depth (Mod t acts body) wi it res (stack ! depth) rq = Inr (do_children (Mod MOD_GROUP acts body), wi1, it1, rq1)"
    and skip: "\<And>res stack rq. \<not> stopped rq \<or> rest \<noteq> [] \<Longrightarrow>
      recurse True depth cs wi1 it1 res stack rq = recurse True depth rest False False res stack rq"
  shows "recurse True depth (Mod t acts body # cs) wi it res stack rq =
    recurse True depth (Mod MOD_GROUP acts body # rest) False False res stack rq1"
proof -
  have g: "statement depth (Mod MOD_GROUP acts body) False False res (stack ! depth) rq1 =
    Inr (do_children (Mod MOD_GROUP acts body), False, False, rq1)" by (simp add: statement_def)
  show ?thesis
  proof (cases "body = []")
    case True
    then have "do_children (Mod MOD_GROUP acts body) = Next_sibling" by (simp add: do_children_def)
    then show ?thesis using run st g skip by simp
  next
    case False
    then have d: "do_children (Mod MOD_GROUP acts body) = Do (Call (Some 0) True)" by (simp add: do_children_def)
    show ?thesis
    proof (cases "perform depth (Mod MOD_GROUP acts body) (Call (Some 0) True) stack rq1")
      case (Inl f)
      then show ?thesis using run(1,2) st g d perform_group [of depth t acts body "Call (Some 0) True"]
        by (simp del: perform.simps)
    next
      case (Inr x)
      obtain r p st1 rq2 where x: "x = (r, p, st1, rq2)" by (cases x) auto
      have "\<not> stopped rq2 \<or> rest \<noteq> []" using run(2,3) Inr unfolding x never_stops_def by blast
      then have s: "recurse True depth cs wi1 it1 r st2 rq2 = recurse True depth rest False False r st2 rq2" for st2
        by (rule skip)
      show ?thesis
        using run(1,2) st g d Inr x perform_group [of depth t acts body "Call (Some 0) True"] calculate_group [OF t, of acts body r p]
        by (simp del: perform.simps add: s cong: sum.case_cong prod.case_cong if_cong)
    qed
  qed
qed

lemma do_children_group: "(\<And>x. t \<noteq> MOD_CASE x) \<Longrightarrow> do_children (Mod t acts body) = do_children (Mod MOD_GROUP acts body)"
  by (cases t) (auto simp: do_children_def)

lemma keeps_runningD: "keeps_running b \<Longrightarrow> \<not> stopped rq \<Longrightarrow> fst b r rq = (v, rq1) \<Longrightarrow> \<not> stopped rq1"
  unfolding keeps_running_def by (metis snd_conv)

definition last_result :: "rcode \<Rightarrow> frame \<Rightarrow> rcode" where
  "last_result res entry = (if res \<noteq> UNKNOWN then res else e_result entry)"

lemma mod_if_group:
  "cond (last_result res entry) rq = (v, rq1) \<Longrightarrow> (\<And>x. t \<noteq> MOD_CASE x) \<Longrightarrow>
   mod_if (Mod t acts body) cond res entry rq =
     (if v > 0 then (do_children (Mod MOD_GROUP acts body), True, True, rq1) else (Next_sibling, True, False, rq1))"
  unfolding mod_if_def evaluate_cond_def last_result_def [symmetric] Let_def
  using do_children_group [of t acts body] by simp

definition blocks_run :: "nat \<Rightarrow> 'u branch list \<Rightarrow> (int list \<times> 'u modcallable list) option \<Rightarrow> bool" where
  "blocks_run depth bs els \<longleftrightarrow> (\<forall>b \<in> set bs. never_stops depth (snd (snd b))) \<and> (\<forall>e. els = Some e \<longrightarrow> never_stops depth (snd e))"

lemma elsif_chain:
  assumes rest: "plain_head rest"
  shows "\<not> stopped rq \<Longrightarrow> list_all keeps_running bs \<Longrightarrow> rest \<noteq> [] \<or> blocks_run depth bs els \<Longrightarrow>
    recurse True depth (elsifs bs els @ rest) True False res stack rq =
      (let (sel, rq1) = select bs els (last_result res (stack ! depth)) rq
       in recurse True depth (sel @ rest) False False res stack rq1)"
proof (induction bs els arbitrary: rq rule: elsifs.induct)
  case 1
  then show ?case using recurse_flags [OF rest, of depth True False res stack rq] by simp
next
  case (2 acts body)
  have n: "rest \<noteq> [] \<or> never_stops depth body" using 2(3) by (auto simp: blocks_run_def)
  have st: "statement depth (Mod MOD_ELSE acts body) True False res (stack ! depth) rq =
    Inr (do_children (Mod MOD_GROUP acts body), False, False, rq)"
    using do_children_group [of MOD_ELSE acts body] by (simp add: statement_def)
  have "recurse True depth (Mod MOD_ELSE acts body # rest) True False res stack rq =
    recurse True depth (Mod MOD_GROUP acts body # rest) False False res stack rq"
    by (rule taken_branch [OF rest 2(1) 2(1) n _ st]) simp_all
  then show ?case by (simp del: recurse.simps)
next
  case (3 cond acts body bs els)
  obtain v rq1 where c: "cond (last_result res (stack ! depth)) rq = (v, rq1)" by fastforce
  have run: "\<not> stopped rq1" using keeps_runningD [of "(cond, acts, body)" rq "last_result res (stack ! depth)" v rq1] 3(2,3) c by simp
  have st: "statement depth (Mod (MOD_ELSIF cond) acts body) True False res (stack ! depth) rq =
    Inr (if v > 0 then (do_children (Mod MOD_GROUP acts body), True, True, rq1) else (Next_sibling, True, False, rq1))"
    using mod_if_group [where cond = cond and rq = rq and res = res and entry = "stack ! depth" and t = "MOD_ELSIF cond", OF c] by (simp add: statement_def)
  show ?case
  proof (cases "v > 0")
    case True
    have n: "rest \<noteq> [] \<or> never_stops depth body" using 3(4) by (auto simp: blocks_run_def)
    have "recurse True depth (Mod (MOD_ELSIF cond) acts body # (elsifs bs els @ rest)) True False res stack rq =
      recurse True depth (Mod MOD_GROUP acts body # rest) False False res stack rq1"
      by (rule taken_branch [OF rest 3(2) run n]) (use st True skip_elsifs [OF rest] in simp_all)
    then show ?thesis using c True by (simp del: recurse.simps)
  next
    case False
    have "recurse True depth (elsifs bs els @ rest) True False res stack rq1 =
      (let (sel, rq2) = select bs els (last_result res (stack ! depth)) rq1 in recurse True depth (sel @ rest) False False res stack rq2)"
      using 3(1) [OF run] 3(3,4) by (simp add: blocks_run_def)
    moreover have "recurse True depth (Mod (MOD_ELSIF cond) acts body # (elsifs bs els @ rest)) True False res stack rq =
      recurse True depth (elsifs bs els @ rest) True False res stack rq1"
      using st False 3(2) by simp
    ultimately show ?thesis using c False by (simp del: recurse.simps)
  qed
qed

text \<open>
  C17: A chain of if, elsif and else is the block of the first condition that holds, run as a group, or
  that of \<open>else\<close>, or nothing: the later conditions are not evaluated and the other blocks not run. The
  conditions see the last return code. It holds wherever the chain stands in a section, for a chain
  that is followed by another statement or whose blocks leave the request running.
\<close>

theorem if_chain_exact:
  assumes "plain_head rest" "\<not> stopped rq" "list_all keeps_running (b # bs)" "rest \<noteq> [] \<or> blocks_run depth (b # bs) els"
  shows "recurse True depth (if_chain b bs els @ rest) was_if if_taken res stack rq =
    (let (sel, rq1) = select (b # bs) els (last_result res (stack ! depth)) rq
     in recurse True depth (sel @ rest) False False res stack rq1)"
proof -
  obtain cond acts body where b: "b = (cond, acts, body)" by (cases b) auto
  obtain v rq1 where c: "cond (last_result res (stack ! depth)) rq = (v, rq1)" by fastforce
  have run: "\<not> stopped rq1" using keeps_runningD [of b rq "last_result res (stack ! depth)" v rq1] assms(2,3) c b by simp
  have st: "statement depth (Mod (MOD_IF cond) acts body) was_if if_taken res (stack ! depth) rq =
    Inr (if v > 0 then (do_children (Mod MOD_GROUP acts body), True, True, rq1) else (Next_sibling, True, False, rq1))"
    using mod_if_group [where cond = cond and rq = rq and res = res and entry = "stack ! depth" and t = "MOD_IF cond", OF c] by (simp add: statement_def)
  show ?thesis
  proof (cases "v > 0")
    case True
    have n: "rest \<noteq> [] \<or> never_stops depth body" using assms(4) b by (auto simp: blocks_run_def)
    have "recurse True depth (Mod (MOD_IF cond) acts body # (elsifs bs els @ rest)) was_if if_taken res stack rq =
      recurse True depth (Mod MOD_GROUP acts body # rest) False False res stack rq1"
      by (rule taken_branch [OF assms(1,2) run n]) (use st True skip_elsifs [OF assms(1)] in simp_all)
    then show ?thesis using b c True by (simp del: recurse.simps)
  next
    case False
    have "recurse True depth (Mod (MOD_IF cond) acts body # (elsifs bs els @ rest)) was_if if_taken res stack rq =
      recurse True depth (elsifs bs els @ rest) True False res stack rq1"
      using st False assms(2) by simp
    moreover have "rest \<noteq> [] \<or> blocks_run depth bs els" using assms(4) by (auto simp: blocks_run_def)
    ultimately show ?thesis using elsif_chain [OF assms(1) run, of bs depth els res stack] assms(3) b c False
      by (simp del: recurse.simps)
  qed
qed

theorem if_chain_exact_witness:
  "\<forall>stack. recurse True 0 (if_chain ((\<lambda>r rq. (0, rq)), defaultactions AUTHORIZE GROUPTYPE_SIMPLE, [always REJECT (defaultactions AUTHORIZE GROUPTYPE_SIMPLE)])
       [((\<lambda>r rq. (1, rq)), defaultactions AUTHORIZE GROUPTYPE_SIMPLE, [always OK (defaultactions AUTHORIZE GROUPTYPE_SIMPLE)])] None
     @ [always NOOP (defaultactions AUTHORIZE GROUPTYPE_SIMPLE)])
     False False UNKNOWN stack demo_rq =
   recurse True 0 [Mod MOD_GROUP (defaultactions AUTHORIZE GROUPTYPE_SIMPLE) [always OK (defaultactions AUTHORIZE GROUPTYPE_SIMPLE)],
     always NOOP (defaultactions AUTHORIZE GROUPTYPE_SIMPLE)] False False UNKNOWN stack demo_rq"
  by (intro allI, subst if_chain_exact) (simp_all del: recurse.simps add: plain_head_def always_def demo_runs keeps_running_def)

end
