(* ===== verification/ModcallActions.thy ===== *)
theory ModcallActions
  imports ModcallIf
begin

text \<open>
  The actions a section or a module ends up with after its entries are compiled.
\<close>

section \<open>Actions of sections and modules\<close>

definition is_default :: "string \<Rightarrow> bool" where
  "is_default attr \<longleftrightarrow> strcaseeq attr ''default''"

text \<open>The actions given explicitly for a code, and those given as the default, in order.\<close>

fun settings :: "(string \<times> string option) list \<Rightarrow> nat \<Rightarrow> int list" where
  "settings [] r = []"
| "settings ((attr, Some v) # ps) r =
     (if \<not> is_default attr \<and> fr_str2int mod_rcode_table attr (- 1) = int r \<and> parse_action v \<noteq> None
      then the (parse_action v) # settings ps r else settings ps r)"
| "settings ((attr, None) # ps) r = settings ps r"

fun defaults :: "(string \<times> string option) list \<Rightarrow> int list" where
  "defaults [] = []"
| "defaults ((attr, Some v) # ps) =
     (if is_default attr \<and> parse_action v \<noteq> None then the (parse_action v) # defaults ps else defaults ps)"
| "defaults ((attr, None) # ps) = defaults ps"

lemma atoi_nonneg: "0 \<le> n \<Longrightarrow> list_all digit v \<Longrightarrow> 0 \<le> atoi n v"
proof (induction v arbitrary: n)
  case (Cons c cs)
  have "(48 :: int) \<le> of_char c"
  proof -
    have "48 \<le> (of_char c :: nat)" using Cons.prems(2) by (simp add: digit_def)
    then show ?thesis by (metis of_nat_le_iff of_nat_numeral of_nat_of_char)
  qed
  then show ?case using Cons.IH [of "10 * n + (of_char c - 48)"] Cons.prems by simp
qed simp

lemma parse_action_nonzero: "parse_action v = Some a \<Longrightarrow> a \<noteq> 0"
  by (auto simp: parse_action_def MOD_ACTION_RETURN_def MOD_ACTION_REJECT_def split: if_splits)

lemma str2int_range: "fr_str2int mod_rcode_table attr (- 1) < 9"
  by (simp add: mod_rcode_table_def)

lemma compile_actions_result:
  "compile_actions acts ps = Some acts' \<Longrightarrow> length acts = 9 \<Longrightarrow> r < 9 \<Longrightarrow>
     length acts' = 9 \<and> acts' ! r =
       (if settings ps r \<noteq> [] then last (settings ps r)
        else if acts ! r \<noteq> 0 then acts ! r
        else if defaults ps \<noteq> [] then hd (defaults ps) else 0)"
proof (induction ps arbitrary: acts)
  case (Cons p ps)
  obtain attr v where "p = (attr, Some v)" using Cons.prems(1)
    by (cases p; cases "snd p") (auto simp: compile_action_def)
  then obtain acts1 where c: "compile_action acts attr (Some v) = (acts1, True)" "compile_actions acts1 ps = Some acts'"
    and p: "p = (attr, Some v)"
    using Cons.prems(1) by (auto simp: Let_def split: prod.splits if_splits)
  obtain a where a: "parse_action v = Some a" using c(1) by (auto simp: compile_action_def split: option.splits)
  note nz = parse_action_nonzero [OF a]
  show ?case
  proof (cases "is_default attr")
    case True
    then have "acts1 = map (\<lambda>x. if x = 0 then a else x) acts" using c(1) a by (simp add: compile_action_def is_default_def)
    then have "length acts1 = 9" "acts1 ! r = (if acts ! r = 0 then a else acts ! r)" using Cons.prems(2,3) by simp_all
    with Cons.IH [OF c(2) _ Cons.prems(3)] True a nz p show ?thesis by simp
  next
    case False
    let ?n = "fr_str2int mod_rcode_table attr (- 1)"
    have n: "\<not> ?n < 0" "acts1 = acts[nat ?n := a]"
      using c(1) a False by (simp_all add: compile_action_def is_default_def Let_def split: if_splits)
    then have "length acts1 = 9" "acts1 ! r = (if ?n = int r then a else acts ! r)"
      using Cons.prems(2,3) by (auto simp: nth_list_update)
    with Cons.IH [OF c(2) _ Cons.prems(3)] False a nz p show ?thesis by simp
  qed
qed simp

lemma default_action_nonzero:
  assumes "r < 9"
  shows "defaultactions component gt ! r \<noteq> 0" "authtype_actions gt ! r \<noteq> 0"
proof -
  have "\<forall>a \<in> set (defaultactions component gt). a \<noteq> 0" by (cases component; cases gt) simp_all
  moreover have "\<forall>a \<in> set (authtype_actions gt). a \<noteq> 0" by (cases gt) simp_all
  moreover have "length (defaultactions component gt) = 9" "length (authtype_actions gt) = 9"
    by (cases component; cases gt; simp) (cases gt; simp)
  ultimately show "defaultactions component gt ! r \<noteq> 0" "authtype_actions gt ! r \<noteq> 0" using assms by (metis nth_mem)+
qed

lemma table_length: "length (defaultactions component gt) = 9" "length (authtype_actions gt) = 9"
  by (cases component; cases gt; simp) (cases gt; simp)

text \<open>
  C39: In a section, the action of a code is the last one given for it, or else the first
  \<open>default\<close>, or else that of the table for the section it stands in. For a module with entries it is
  the last one given for the code or that of the table: there \<open>default\<close> has no effect.
\<close>

theorem compiled_actions:
  assumes "r < 9"
  shows "(compile_actions (replicate 9 0) ps = Some acts \<longrightarrow>
      set_codes has_parent component gt acts ! r =
        (if settings ps r \<noteq> [] then last (settings ps r)
         else if defaults ps \<noteq> [] then hd (defaults ps)
         else if \<not> has_parent \<or> component \<noteq> AUTHENTICATE then defaultactions component gt ! r
         else authtype_actions gt ! r)) \<and>
    (compile_actions (defaultactions component gt) ps = Some acts' \<longrightarrow>
      acts' ! r = (if settings ps r \<noteq> [] then last (settings ps r) else defaultactions component gt ! r))"
proof (intro conjI impI)
  assume c: "compile_actions (replicate 9 0) ps = Some acts"
  have z: "length (replicate 9 (0 :: int)) = 9" "replicate 9 (0 :: int) ! r = 0" using assms by simp_all
  have A: "length acts = 9" "acts ! r = (if settings ps r \<noteq> [] then last (settings ps r)
      else if defaults ps \<noteq> [] then hd (defaults ps) else 0)"
    using compile_actions_result [OF c z(1) assms] z(2) by simp_all
  have nz: "a \<noteq> 0" if "a \<in> set (settings ps r) \<union> set (defaults ps)" for a
    using that by (induction ps r rule: settings.induct) (auto dest: parse_action_nonzero split: if_splits)
  have "last (settings ps r) \<noteq> 0" if "settings ps r \<noteq> []" using nz [OF UnI1 [OF last_in_set [OF that]]] .
  moreover have "hd (defaults ps) \<noteq> 0" if "defaults ps \<noteq> []" using nz [OF UnI2 [OF hd_in_set [OF that]]] .
  ultimately show "set_codes has_parent component gt acts ! r =
        (if settings ps r \<noteq> [] then last (settings ps r)
         else if defaults ps \<noteq> [] then hd (defaults ps)
         else if \<not> has_parent \<or> component \<noteq> AUTHENTICATE then defaultactions component gt ! r
         else authtype_actions gt ! r)"
    using A assms table_length by (simp add: set_codes_def)
next
  assume c: "compile_actions (defaultactions component gt) ps = Some acts'"
  show "acts' ! r = (if settings ps r \<noteq> [] then last (settings ps r) else defaultactions component gt ! r)"
    using compile_actions_result [OF c table_length(1) assms] default_action_nonzero(1) [OF assms] by simp
qed

theorem compiled_actions_witness:
  "compile_actions (replicate 9 0) [(''default'', Some ''return''), (''ok'', Some ''3'')] = Some [- 1, - 1, 3, - 1, - 1, - 1, - 1, - 1, - 1] \<and>
   set_codes True AUTHORIZE GROUPTYPE_SIMPLE [- 1, - 1, 3, - 1, - 1, - 1, - 1, - 1, - 1] ! 2 = 3"
proof -
  let ?ps = "[(''default'', Some ''return''), (''ok'', Some ''3'')]"
  have c: "compile_actions (replicate 9 0) ?ps = Some [- 1, - 1, 3, - 1, - 1, - 1, - 1, - 1, - 1]" by code_simp
  have "settings ?ps 2 = [3]" by code_simp
  with compiled_actions [of 2 ?ps] c show ?thesis by simp
qed

end
