(* ===== verification/ModcallFindings.thy ===== *)
theory ModcallFindings
  imports ModcallActions
begin

text \<open>
  Where the interpreter does something else than its documentation or its own checks intend: each is
  a concrete section and what \<^verbatim>\<open>modcall\<close> returns for it.
\<close>

section \<open>The stack\<close>

abbreviation simple :: "int list" where "simple \<equiv> defaultactions AUTHORIZE GROUPTYPE_SIMPLE"

fun nest :: "nat \<Rightarrow> int list \<Rightarrow> 'u modcallable list \<Rightarrow> 'u modcallable list" where
  "nest 0 acts body = body"
| "nest (Suc n) acts body = [Mod MOD_GROUP acts (nest n acts body)]"

lemma nest_nonempty: "body \<noteq> [] \<Longrightarrow> nest n acts body \<noteq> []"
  by (cases n) simp_all

lemma nested_group:
  assumes "\<not> stopped rq" "body \<noteq> []" "d + 1 < MODCALL_STACK_MAX"
    "\<And>stack. recurse True (d + 1) body False False UNKNOWN stack rq = Inl f"
  shows "recurse True d [Mod MOD_GROUP acts body] wi it res stack rq = Inl f"
  using assms by (simp add: statement_def do_children_def callee_def)

lemma nested_overrun:
  assumes "\<not> stopped rq" "vpt rq = Some (v # vs)" "foreach_slot (rq_data rq) [0..7] = Some slot"
  shows "d + n + 1 = MODCALL_STACK_MAX \<Longrightarrow>
    recurse True d (nest n acts [Mod (MOD_FOREACH vpt) acts body]) wi it res stack rq = Inl Out_of_bounds"
proof (induction n arbitrary: d wi it res stack)
  case 0
  then show ?case using assms by (simp add: statement_def del: upto_rec_numeral upto.simps)
next
  case (Suc n)
  show ?case unfolding nest.simps
    by (rule nested_group) (use assms(1) Suc in \<open>simp_all add: nest_nonempty\<close>)
qed

text \<open>
  A \<open>foreach\<close> inside 31 groups passes its own check of the depth and then writes the frame after the
  last one: the check tests its own depth, not that of the frame it is about to write.
\<close>

lemma foreach_overruns_stack:
  assumes "\<not> stopped rq" "vpt rq = Some (v # vs)" "foreach_slot (rq_data rq) [0..7] = Some slot"
  shows "modcall component (nest 31 acts [Mod (MOD_FOREACH vpt) acts body]) rq = Inl Out_of_bounds"
  unfolding modcall_def Let_def
  by (subst nested_overrun [where rq = rq and vpt = vpt, OF assms]) (simp_all add: MODCALL_STACK_MAX_def)

section \<open>Loops\<close>

text \<open>A module that returns the codes of a list, by the value of the loop variable.\<close>

definition by_value :: "(nat \<times> rcode) list \<Rightarrow> int list \<Rightarrow> 'u modcallable" where
  "by_value codes acts = Mod (MOD_SINGLE \<lparr>mi_name = 1, mi_force = None,
     mi_method = (\<lambda>rq. (case map_of codes (request_data_reference (rq_data rq) radius_get_vp 0) of
        Some r \<Rightarrow> (r, rq) | None \<Rightarrow> (NOOP, rq)))\<rparr>) acts []"

text \<open>
  A reject on the first value is forgotten when the module succeeds on the second: only \<open>break\<close> and
  \<open>return\<close> leave the loop, and each iteration starts with a fresh frame.
\<close>

lemma foreach_forgets_reject:
  "map_sum id fst (modcall AUTHORIZE [Mod (MOD_FOREACH (\<lambda>rq. Some [1, 2])) simple [by_value [(1, REJECT), (2, OK)] simple]] demo_rq) = Inr OK"
  by code_simp

text \<open>On one value, a reject after another module succeeded: the section goes on and a later module overrides it.\<close>

lemma foreach_overrides_reject:
  "map_sum id fst (modcall AUTHORIZE [Mod (MOD_FOREACH (\<lambda>rq. Some [1])) simple [always OK simple, always REJECT simple],
      always UPDATED simple] demo_rq) = Inr UPDATED \<and>
   map_sum id fst (modcall AUTHORIZE [Mod MOD_GROUP simple [always OK simple, always REJECT simple],
      always UPDATED simple] demo_rq) = Inr REJECT"
  by (intro conjI; code_simp)

text \<open>\<^verbatim>\<open>break\<close> leaves at once; the manual says that the statements after it are still executed.\<close>

lemma break_skips_rest:
  "map_sum id fst (modcall AUTHORIZE [Mod (MOD_FOREACH (\<lambda>rq. Some [1, 2])) simple [Mod MOD_BREAK simple [], always OK simple]] demo_rq) = Inr NOTFOUND"
  by code_simp

section \<open>Sections\<close>

text \<open>
  A \<open>switch\<close> without a matching case gives the result so far once more, now with its own actions: the
  first statement of \<open>authenticate\<close> then ends the section with the default reject. An empty group is
  passed over.
\<close>

lemma switch_without_case:
  "map_sum id fst (modcall AUTHENTICATE [Mod (MOD_SWITCH SWITCH_OTHER) (defaultactions AUTHENTICATE GROUPTYPE_SIMPLE)
      [Mod (MOD_CASE (Some (\<lambda>_ rq. (0, rq)))) simple [always OK simple]], always OK (defaultactions AUTHENTICATE GROUPTYPE_SIMPLE)] demo_rq) = Inr REJECT \<and>
   map_sum id fst (modcall AUTHENTICATE [Mod MOD_GROUP (defaultactions AUTHENTICATE GROUPTYPE_SIMPLE) [],
      always OK (defaultactions AUTHENTICATE GROUPTYPE_SIMPLE)] demo_rq) = Inr OK"
  by (intro conjI; code_simp)

text \<open>
  In an accounting section the modules of \<open>redundant\<close> do not stop at the first that does not fail; the
  documentation promises \<open>fail = 1\<close> and \<open>return\<close> for everything else.
\<close>

lemma accounting_redundant_goes_on:
  "map_sum id fst (modcall ACCOUNTING [always UPDATED (defaultactions ACCOUNTING GROUPTYPE_REDUNDANT),
      always OK (defaultactions ACCOUNTING GROUPTYPE_REDUNDANT)] demo_rq) = Inr OK"
  by code_simp

text \<open>The documentation gives a module's block with \<open>default\<close> as an example; it changes nothing.\<close>

lemma module_default_ignored:
  "compile_actions (defaultactions AUTHORIZE GROUPTYPE_SIMPLE) [(''default'', Some ''1'')] = Some (defaultactions AUTHORIZE GROUPTYPE_SIMPLE)"
  by code_simp

end
