(* ===== verification/Hash.thy ===== *)
theory Hash
  imports Prelude "HOL-Library.Monad_Syntax"
begin

text \<open>
  The hash table of \<^verbatim>\<open>lib/hash.c\<close>. Its buckets are split-ordered: each chain is sorted by the
  bit-reversed hash, a bucket that was never used is NULL (\<open>None\<close>) and its elements are still in the
  chain of an ancestor, from which \<open>fr_hash_table_fixup\<close> takes them when the bucket is first needed.
  Chains never share a node, so a chain is a list, and a node is known by its bucket and its index.

  The data are pointers, numbers with 0 for NULL. The callbacks \<open>hash\<close> and \<open>cmp\<close> (which may be NULL)
  and the results of \<^verbatim>\<open>malloc\<close> are arguments; the data handed to the \<open>free\<close> callback are returned as a
  list. The guards against a NULL table are left to the types. \<open>None\<close> is a crash or an endless recursion.
  The counters are \<^verbatim>\<open>int\<close> in C; they stay below 2^31 in a table of fewer than 2^30 elements.
\<close>

section \<open>Reversing a hash, and parents of buckets\<close>

definition reversed_byte :: "byte list" where
  "reversed_byte = [
   0, 128, 64, 192, 32, 160, 96, 224, 16, 144, 80, 208, 48, 176, 112, 240,
   8, 136, 72, 200, 40, 168, 104, 232, 24, 152, 88, 216, 56, 184, 120, 248,
   4, 132, 68, 196, 36, 164, 100, 228, 20, 148, 84, 212, 52, 180, 116, 244,
   12, 140, 76, 204, 44, 172, 108, 236, 28, 156, 92, 220, 60, 188, 124, 252,
   2, 130, 66, 194, 34, 162, 98, 226, 18, 146, 82, 210, 50, 178, 114, 242,
   10, 138, 74, 202, 42, 170, 106, 234, 26, 154, 90, 218, 58, 186, 122, 250,
   6, 134, 70, 198, 38, 166, 102, 230, 22, 150, 86, 214, 54, 182, 118, 246,
   14, 142, 78, 206, 46, 174, 110, 238, 30, 158, 94, 222, 62, 190, 126, 254,
   1, 129, 65, 193, 33, 161, 97, 225, 17, 145, 81, 209, 49, 177, 113, 241,
   9, 137, 73, 201, 41, 169, 105, 233, 25, 153, 89, 217, 57, 185, 121, 249,
   5, 133, 69, 197, 37, 165, 101, 229, 21, 149, 85, 213, 53, 181, 117, 245,
   13, 141, 77, 205, 45, 173, 109, 237, 29, 157, 93, 221, 61, 189, 125, 253,
   3, 131, 67, 195, 35, 163, 99, 227, 19, 147, 83, 211, 51, 179, 115, 243,
   11, 139, 75, 203, 43, 171, 107, 235, 27, 155, 91, 219, 59, 187, 123, 251,
   7, 135, 71, 199, 39, 167, 103, 231, 23, 151, 87, 215, 55, 183, 119, 247,
   15, 143, 79, 207, 47, 175, 111, 239, 31, 159, 95, 223, 63, 191, 127, 255]"

definition parent_byte :: "byte list" where
  "parent_byte = [
   0, 0, 0, 1, 0, 1, 2, 3, 0, 1, 2, 3, 4, 5, 6, 7,
   0, 1, 2, 3, 4, 5, 6, 7, 8, 9, 10, 11, 12, 13, 14, 15,
   0, 1, 2, 3, 4, 5, 6, 7, 8, 9, 10, 11, 12, 13, 14, 15,
   16, 17, 18, 19, 20, 21, 22, 23, 24, 25, 26, 27, 28, 29, 30, 31,
   0, 1, 2, 3, 4, 5, 6, 7, 8, 9, 10, 11, 12, 13, 14, 15,
   16, 17, 18, 19, 20, 21, 22, 23, 24, 25, 26, 27, 28, 29, 30, 31,
   32, 33, 34, 35, 36, 37, 38, 39, 40, 41, 42, 43, 44, 45, 46, 47,
   48, 49, 50, 51, 52, 53, 54, 55, 56, 57, 58, 59, 60, 61, 62, 63,
   0, 1, 2, 3, 4, 5, 6, 7, 8, 9, 10, 11, 12, 13, 14, 15,
   16, 17, 18, 19, 20, 21, 22, 23, 24, 25, 26, 27, 28, 29, 30, 31,
   32, 33, 34, 35, 36, 37, 38, 39, 40, 41, 42, 43, 44, 45, 46, 47,
   48, 49, 50, 51, 52, 53, 54, 55, 56, 57, 58, 59, 60, 61, 62, 63,
   64, 65, 66, 67, 68, 69, 70, 71, 72, 73, 74, 75, 76, 77, 78, 79,
   80, 81, 82, 83, 84, 85, 86, 87, 88, 89, 90, 91, 92, 93, 94, 95,
   96, 97, 98, 99, 100, 101, 102, 103, 104, 105, 106, 107, 108, 109, 110, 111,
   112, 113, 114, 115, 116, 117, 118, 119, 120, 121, 122, 123, 124, 125, 126, 127]"

definition byte_of :: "nat \<Rightarrow> u32 \<Rightarrow> nat" where
  "byte_of n key = unat (drop_bit n key AND 0xff)"

definition reverse :: "u32 \<Rightarrow> u32" where
  "reverse key =
     push_bit 24 (ucast (reversed_byte ! byte_of 0 key)) OR push_bit 16 (ucast (reversed_byte ! byte_of 8 key)) OR
     push_bit 8 (ucast (reversed_byte ! byte_of 16 key)) OR ucast (reversed_byte ! byte_of 24 key)"

definition parent_of :: "u32 \<Rightarrow> u32" where
  "parent_of key =
     (if key > 0x00ffffff then (key AND 0x00ffffff) OR push_bit 24 (ucast (parent_byte ! unat (drop_bit 24 key)))
      else if key > 0x0000ffff then (key AND 0x0000ffff) OR push_bit 16 (ucast (parent_byte ! unat (drop_bit 16 key)))
      else if key > 0x000000ff then (key AND 0x000000ff) OR push_bit 8 (ucast (parent_byte ! unat (drop_bit 8 key)))
      else ucast (parent_byte ! unat key))"

section \<open>Chains\<close>

record hnode =
  he_reversed :: u32
  he_key :: u32
  he_data :: nat

text \<open>The index of the node in the list; \<open>i\<close> is the index of its first element.\<close>

fun list_find :: "nat cmp option \<Rightarrow> nat \<Rightarrow> hnode list \<Rightarrow> u32 \<Rightarrow> nat \<Rightarrow> nat option" where
  "list_find cmp i [] reversed data = None"
| "list_find cmp i (cur # rest) reversed data =
     (if he_reversed cur = reversed
      then (case cmp of
              None \<Rightarrow> Some i
            | Some c \<Rightarrow> if c data (he_data cur) > 0 then None
                        else if c data (he_data cur) < 0 then list_find cmp (i + 1) rest reversed data else Some i)
      else if he_reversed cur > reversed then None
      else list_find cmp (i + 1) rest reversed data)"

fun list_insert :: "nat cmp option \<Rightarrow> hnode list \<Rightarrow> hnode \<Rightarrow> hnode list option" where
  "list_insert cmp [] node = Some [node]"
| "list_insert cmp (cur # rest) node =
     (if he_reversed cur > he_reversed node then Some (node # cur # rest)
      else if he_reversed cur = he_reversed node
      then (case cmp of
              None \<Rightarrow> None
            | Some c \<Rightarrow> if c (he_data node) (he_data cur) > 0 then Some (cur # node # rest)
                        else if c (he_data node) (he_data cur) < 0 then map_option ((#) cur) (list_insert cmp rest node)
                        else None)
      else map_option ((#) cur) (list_insert cmp rest node))"

definition list_delete :: "hnode list \<Rightarrow> nat \<Rightarrow> hnode list" where
  "list_delete chain i = take i chain @ drop (i + 1) chain"

section \<open>The table\<close>

type_synonym buckets = "hnode list option list"

record htable =
  ht_num_elements :: int
  ht_num_buckets :: nat
  ht_next_grow :: int
  ht_mask :: u32
  ht_free :: bool
  ht_buckets :: buckets

definition FR_HASH_NUM_BUCKETS :: nat where "FR_HASH_NUM_BUCKETS = 64"
definition GROW_FACTOR :: nat where "GROW_FACTOR = 2"

text \<open>\<open>has_free\<close> tells whether there is a callback for freed data; the hash callback is not NULL.\<close>

definition fr_hash_table_create :: "bool \<Rightarrow> bool \<Rightarrow> bool \<Rightarrow> htable option" where
  "fr_hash_table_create has_free malloc_table malloc_buckets =
     (if \<not> malloc_table then None
      else if \<not> malloc_buckets then None
      else Some \<lparr>ht_num_elements = 0, ht_num_buckets = FR_HASH_NUM_BUCKETS,
             ht_next_grow = int (FR_HASH_NUM_BUCKETS * 2 + FR_HASH_NUM_BUCKETS div 2),
             ht_mask = of_nat (FR_HASH_NUM_BUCKETS - 1), ht_free = has_free,
             ht_buckets = (replicate FR_HASH_NUM_BUCKETS None)[0 := Some []]\<rparr>)"

text \<open>
  The walk of a chain. \<open>this\<close> is the bucket whose chain the nodes \<open>part\<close> are; a node of another
  bucket ends that chain and starts the chain of its own bucket.
\<close>

fun fixup_loop :: "u32 \<Rightarrow> u32 \<Rightarrow> hnode list \<Rightarrow> hnode list \<Rightarrow> buckets \<Rightarrow> buckets" where
  "fixup_loop m this part [] B = B[unat this := Some part]"
| "fixup_loop m this part (cur # rest) B =
     (let real_entry = he_key cur AND m
      in if real_entry \<noteq> this then fixup_loop m real_entry [cur] rest (B[unat this := Some part])
         else fixup_loop m this (part @ [cur]) rest B)"

partial_function (option) fr_hash_table_fixup :: "u32 \<Rightarrow> u32 \<Rightarrow> buckets \<Rightarrow> buckets option" where
  "fr_hash_table_fixup m entry B =
     (let parent_entry = parent_of entry
      in do {
        B1 \<leftarrow> (if B ! unat parent_entry = None then fr_hash_table_fixup m parent_entry B else Some B);
        chain \<leftarrow> B1 ! unat parent_entry;
        let B2 = fixup_loop m parent_entry [] chain B1;
        Some (if B2 ! unat entry = None then B2[unat entry := Some []] else B2)
      })"

definition fr_hash_table_grow :: "bool \<Rightarrow> htable \<Rightarrow> htable" where
  "fr_hash_table_grow malloc_ok ht =
     (if \<not> malloc_ok then ht
      else ht\<lparr>ht_buckets := ht_buckets ht @ replicate (ht_num_buckets ht) None,
              ht_num_buckets := ht_num_buckets ht * GROW_FACTOR,
              ht_next_grow := ht_next_grow ht * int GROW_FACTOR,
              ht_mask := of_nat (ht_num_buckets ht * GROW_FACTOR - 1)\<rparr>)"

text \<open>The bucket of a hash, set up if it is NULL, as the operations begin.\<close>

definition ready :: "htable \<Rightarrow> u32 \<Rightarrow> htable option" where
  "ready ht entry =
     (if ht_buckets ht ! unat entry = None
      then map_option (\<lambda>B. ht\<lparr>ht_buckets := B\<rparr>) (fr_hash_table_fixup (ht_mask ht) entry (ht_buckets ht)) else Some ht)"

definition fr_hash_table_insert :: "(nat \<Rightarrow> u32) \<Rightarrow> nat cmp option \<Rightarrow> bool \<Rightarrow> bool \<Rightarrow> htable \<Rightarrow> nat \<Rightarrow> (htable \<times> int) option" where
  "fr_hash_table_insert hash cmp malloc_node malloc_grow ht data =
     (if data = 0 then Some (ht, 0)
      else let key = hash data; entry = key AND ht_mask ht; reversed = reverse key
      in do {
        ht1 \<leftarrow> ready ht entry;
        if \<not> malloc_node then Some (ht1, 0)
        else do {
          chain \<leftarrow> ht_buckets ht1 ! unat entry;
          (case list_insert cmp chain \<lparr>he_reversed = reversed, he_key = key, he_data = data\<rparr> of
             None \<Rightarrow> Some (ht1, 0)
           | Some chain1 \<Rightarrow>
               let ht2 = ht1\<lparr>ht_buckets := (ht_buckets ht1)[unat entry := Some chain1],
                             ht_num_elements := ht_num_elements ht1 + 1\<rparr>
               in Some (if ht_num_elements ht2 \<ge> ht_next_grow ht2 then fr_hash_table_grow malloc_grow ht2 else ht2, 1))
        }
      })"

text \<open>The node found: its bucket, its index and the chain it is in.\<close>

definition fr_hash_table_find :: "(nat \<Rightarrow> u32) \<Rightarrow> nat cmp option \<Rightarrow> htable \<Rightarrow> nat \<Rightarrow>
    (htable \<times> (nat \<times> nat \<times> hnode list) option) option" where
  "fr_hash_table_find hash cmp ht data =
     (let key = hash data; entry = key AND ht_mask ht; reversed = reverse key
      in do {
        ht1 \<leftarrow> ready ht entry;
        chain \<leftarrow> ht_buckets ht1 ! unat entry;
        Some (ht1, map_option (\<lambda>i. (unat entry, i, chain)) (list_find cmp 0 chain reversed data))
      })"

definition fr_hash_table_replace :: "(nat \<Rightarrow> u32) \<Rightarrow> nat cmp option \<Rightarrow> bool \<Rightarrow> bool \<Rightarrow> htable \<Rightarrow> nat \<Rightarrow>
    (htable \<times> nat list \<times> int) option" where
  "fr_hash_table_replace hash cmp malloc_node malloc_grow ht data =
     (if data = 0 then Some (ht, [], 0)
      else do {
        (ht1, found) \<leftarrow> fr_hash_table_find hash cmp ht data;
        (case found of
           None \<Rightarrow> map_option (\<lambda>(ht2, r). (ht2, [], r)) (fr_hash_table_insert hash cmp malloc_node malloc_grow ht1 data)
         | Some (entry, i, chain) \<Rightarrow>
             Some (ht1\<lparr>ht_buckets := (ht_buckets ht1)[entry := Some (chain[i := (chain ! i)\<lparr>he_data := data\<rparr>])]\<rparr>,
                   if ht_free ht1 then [he_data (chain ! i)] else [], 1))
      })"

definition fr_hash_table_finddata :: "(nat \<Rightarrow> u32) \<Rightarrow> nat cmp option \<Rightarrow> htable \<Rightarrow> nat \<Rightarrow> (htable \<times> nat) option" where
  "fr_hash_table_finddata hash cmp ht data =
     map_option (\<lambda>(ht1, found). (ht1, case found of None \<Rightarrow> 0 | Some (entry, i, chain) \<Rightarrow> he_data (chain ! i)))
       (fr_hash_table_find hash cmp ht data)"

definition fr_hash_table_yank :: "(nat \<Rightarrow> u32) \<Rightarrow> nat cmp option \<Rightarrow> htable \<Rightarrow> nat \<Rightarrow> (htable \<times> nat) option" where
  "fr_hash_table_yank hash cmp ht data =
     (let key = hash data; entry = key AND ht_mask ht; reversed = reverse key
      in do {
        ht1 \<leftarrow> ready ht entry;
        chain \<leftarrow> ht_buckets ht1 ! unat entry;
        Some (case list_find cmp 0 chain reversed data of
            None \<Rightarrow> (ht1, 0)
          | Some i \<Rightarrow> (ht1\<lparr>ht_buckets := (ht_buckets ht1)[unat entry := Some (list_delete chain i)],
                           ht_num_elements := ht_num_elements ht1 - 1\<rparr>, he_data (chain ! i)))
      })"

definition fr_hash_table_delete :: "(nat \<Rightarrow> u32) \<Rightarrow> nat cmp option \<Rightarrow> htable \<Rightarrow> nat \<Rightarrow> (htable \<times> nat list \<times> int) option" where
  "fr_hash_table_delete hash cmp ht data =
     map_option (\<lambda>(ht1, old). if old = 0 then (ht1, [], 0) else (ht1, if ht_free ht1 then [old] else [], 1))
       (fr_hash_table_yank hash cmp ht data)"

definition fr_hash_table_free :: "htable \<Rightarrow> nat list" where
  "fr_hash_table_free ht =
     concat (map (\<lambda>b. case b of None \<Rightarrow> [] | Some chain \<Rightarrow>
                    if ht_free ht then filter (\<lambda>d. d \<noteq> 0) (map he_data chain) else []) (ht_buckets ht))"

definition fr_hash_table_num_elements :: "htable \<Rightarrow> int" where
  "fr_hash_table_num_elements ht = ht_num_elements ht"

section \<open>Walks and iterators\<close>

text \<open>The callback gets its context and the data, and gives its code; it leaves the table alone.\<close>

fun walk_chain :: "('c \<Rightarrow> nat \<Rightarrow> int \<times> 'c) \<Rightarrow> hnode list \<Rightarrow> 'c \<Rightarrow> int \<times> 'c" where
  "walk_chain call [] ctx = (0, ctx)"
| "walk_chain call (node # rest) ctx =
     (let (rcode, ctx1) = call ctx (he_data node) in if rcode \<noteq> 0 then (rcode, ctx1) else walk_chain call rest ctx1)"

text \<open>The buckets below \<open>n\<close>, from the last to the first.\<close>

fun walk_buckets :: "('c \<Rightarrow> nat \<Rightarrow> int \<times> 'c) \<Rightarrow> nat \<Rightarrow> htable \<Rightarrow> 'c \<Rightarrow> (htable \<times> int \<times> 'c) option" where
  "walk_buckets call 0 ht ctx = Some (ht, 0, ctx)"
| "walk_buckets call (Suc i) ht ctx =
     do {
       ht1 \<leftarrow> ready ht (of_nat i);
       chain \<leftarrow> ht_buckets ht1 ! i;
       let (rcode, ctx1) = walk_chain call chain ctx;
       if rcode \<noteq> 0 then Some (ht1, rcode, ctx1) else walk_buckets call i ht1 ctx1
     }"

definition fr_hash_table_walk :: "('c \<Rightarrow> nat \<Rightarrow> int \<times> 'c) \<Rightarrow> htable \<Rightarrow> 'c \<Rightarrow> (htable \<times> int \<times> 'c) option" where
  "fr_hash_table_walk call ht ctx = walk_buckets call (ht_num_buckets ht) ht ctx"

text \<open>An iterator: its bucket and the nodes from its node on.\<close>

record hiter =
  it_bucket :: nat
  it_node :: "hnode list"

text \<open>The search through the buckets below \<open>n\<close>.\<close>

fun iter_search :: "nat \<Rightarrow> htable \<Rightarrow> (htable \<times> hiter \<times> nat) option" where
  "iter_search 0 ht = Some (ht, \<lparr>it_bucket = 0, it_node = []\<rparr>, 0)"
| "iter_search (Suc i) ht =
     do {
       ht1 \<leftarrow> ready ht (of_nat i);
       chain \<leftarrow> ht_buckets ht1 ! i;
       (case chain of
          [] \<Rightarrow> iter_search i ht1
        | node # rest \<Rightarrow> Some (ht1, \<lparr>it_bucket = i, it_node = rest\<rparr>, he_data node))
     }"

definition fr_hash_table_iter_next :: "htable \<Rightarrow> hiter \<Rightarrow> (htable \<times> hiter \<times> nat) option" where
  "fr_hash_table_iter_next ht iter =
     (case it_node iter of
        node # rest \<Rightarrow> Some (ht, iter\<lparr>it_node := rest\<rparr>, he_data node)
      | [] \<Rightarrow> if it_bucket iter = 0 then Some (ht, iter, 0) else iter_search (it_bucket iter) ht)"

definition fr_hash_table_iter_init :: "htable \<Rightarrow> (htable \<times> hiter \<times> nat) option" where
  "fr_hash_table_iter_init ht = fr_hash_table_iter_next ht \<lparr>it_bucket = ht_num_buckets ht, it_node = []\<rparr>"

section \<open>Hash functions\<close>

definition FNV_MAGIC_INIT :: u32 where "FNV_MAGIC_INIT = 0x811c9dc5"
definition FNV_PRIME :: u32 where "FNV_PRIME = 0x01000193"

fun hash_loop :: "byte list \<Rightarrow> u32 \<Rightarrow> u32" where
  "hash_loop [] hash = hash"
| "hash_loop (p # ps) hash = hash_loop ps ((hash XOR ucast p) * FNV_PRIME)"

definition fr_hash :: "byte list \<Rightarrow> u32" where
  "fr_hash data = hash_loop data FNV_MAGIC_INIT"

fun fr_hash_update :: "byte list \<Rightarrow> u32 \<Rightarrow> u32" where
  "fr_hash_update [] hash = hash"
| "fr_hash_update (p # ps) hash = fr_hash_update ps ((hash * FNV_PRIME) XOR ucast p)"

text \<open>The string without its final NUL; its \<^verbatim>\<open>char\<close>s are signed and are extended with their sign.\<close>

fun hash_string_loop :: "byte list \<Rightarrow> u32 \<Rightarrow> u32" where
  "hash_string_loop [] hash = hash"
| "hash_string_loop (p # ps) hash = hash_string_loop ps ((hash * FNV_PRIME) XOR scast p)"

definition fr_hash_string :: "byte list \<Rightarrow> u32" where
  "fr_hash_string p = hash_string_loop p FNV_MAGIC_INIT"

end
