(* ===== verification/HashBits.thy ===== *)
theory HashBits
  imports Hash
begin

text \<open>
  The two tables of \<^verbatim>\<open>lib/hash.c\<close> in terms of bits: \<open>reverse\<close> mirrors a hash, \<open>parent_of\<close> clears the
  highest bit that is set. The low bits of a hash choose its bucket, so the mirrored hashes of one
  bucket are neighbours in the order of the chains.
\<close>

lemma table_all:
  assumes "length xs = 256" "list_all (\<lambda>(n, r). P (of_nat n) r) (zip [0..<256] xs)"
  shows "P (b :: byte) (xs ! unat b)"
proof -
  have u: "unat b < 256" using unsigned_less [of b] by simp
  then have "(unat b, xs ! unat b) \<in> set (zip [0..<256] xs)" using assms(1) by (auto simp: in_set_zip intro!: exI [of _ "unat b"])
  then show ?thesis using assms(2) u by (auto simp: list_all_iff)
qed

lemma reversed_byte_table:
  "list_all (\<lambda>(n, r). list_all (\<lambda>i. bit r i = bit (of_nat n :: byte) (7 - i)) [0..<8]) (zip [0..<256] reversed_byte)"
  by code_simp

text \<open>A bit stays if one of the seven shifts brings a higher one to its place.\<close>

lemma parent_byte_table:
  "list_all (\<lambda>(n, r). r = (of_nat n :: byte) AND (drop_bit 1 (of_nat n) OR drop_bit 2 (of_nat n) OR drop_bit 3 (of_nat n) OR
     drop_bit 4 (of_nat n) OR drop_bit 5 (of_nat n) OR drop_bit 6 (of_nat n) OR drop_bit 7 (of_nat n))) (zip [0..<256] parent_byte)"
  by code_simp

lemma reversed_byte_bit:
  fixes b :: byte
  shows "i < 8 \<Longrightarrow> bit (reversed_byte ! unat b) i = bit b (7 - i)"
  using table_all [OF _ reversed_byte_table, of b] by (simp add: list_all_iff reversed_byte_def)

lemma parent_byte_bit:
  fixes b :: byte
  shows "bit (parent_byte ! unat b) i = (bit b i \<and> (\<exists>j > i. bit b j))"
proof -
  have "parent_byte ! unat b = b AND (drop_bit 1 b OR drop_bit 2 b OR drop_bit 3 b OR drop_bit 4 b OR
     drop_bit 5 b OR drop_bit 6 b OR drop_bit 7 b)"
    by (rule table_all [OF _ parent_byte_table]) (simp add: parent_byte_def)
  then have "bit (parent_byte ! unat b) i = (bit b i \<and> (\<exists>d \<in> {1, 2, 3, 4, 5, 6, 7}. bit b (i + d)))"
    by (simp add: bit_and_iff bit_or_iff bit_drop_bit_eq add.commute)
  moreover have "(\<exists>j > i. bit b j) \<longleftrightarrow> (\<exists>d \<in> {1, 2, 3, 4, 5, 6, 7}. bit b (i + d))"
  proof
    assume "\<exists>j > i. bit b j"
    then obtain j where j: "i < j" "bit b j" by blast
    from bit_imp_le_length [OF j(2)] have "j < 8" by simp
    with j(1) have "j - i \<in> {1, 2, 3, 4, 5, 6, 7}" by auto
    moreover have "bit b (i + (j - i))" using j by simp
    ultimately show "\<exists>d \<in> {1, 2, 3, 4, 5, 6, 7}. bit b (i + d)" by (rule bexI [rotated])
  next
    assume "\<exists>d \<in> {1, 2, 3, 4, 5, 6, 7}. bit b (i + d)"
    then obtain d where "d \<in> {1, 2, 3, 4, 5, 6, 7}" "bit b (i + d)" by (rule bexE)
    then show "\<exists>j > i. bit b j" by (intro exI [of _ "i + d"]) auto
  qed
  ultimately show ?thesis by (simp only:)
qed

lemma masks: "0xff = (mask 8 :: u32)" "0xffff = (mask 16 :: u32)" "0xffffff = (mask 24 :: u32)"
  by (simp_all add: mask_eq_exp_minus_1)

lemma unat_byte: "unat w < 256 \<Longrightarrow> unat (ucast (w :: u32) :: byte) = unat w"
  by (simp add: unsigned_ucast_eq take_bit_eq_mod)

lemma byte_of_cast: "byte_of n key = unat (ucast (drop_bit n key) :: byte)"
  by (simp add: byte_of_def masks unsigned_ucast_eq flip: take_bit_eq_mask unsigned_take_bit_eq)

lemma bit_byte_cast: "bit (ucast (drop_bit n key) :: byte) i = (i < 8 \<and> bit (key :: u32) (n + i))"
  by (auto simp: bit_simps dest: bit_imp_le_length)

lemma bit_reversed: "bit (ucast (reversed_byte ! byte_of k key) :: u32) i = (i < 8 \<and> bit key (k + (7 - i)))"
proof (cases "i < 8")
  case True
  moreover from this have "7 - i < 8" by simp
  ultimately show ?thesis by (simp add: bit_ucast_iff byte_of_cast reversed_byte_bit bit_drop_bit_eq)
qed (auto simp: bit_ucast_iff dest: bit_imp_le_length)

lemma bit_reverse: "bit (reverse key) n = (n < 32 \<and> bit key (31 - n))"
proof (cases "n < 32")
  case True
  let ?R = "8 \<le> n - 16 \<and> n - 24 < 8 \<and> bit key (7 - (n - 24)) \<or> 16 \<le> n \<and> n - 16 < 8 \<and> bit key (8 + (7 - (n - 16))) \<or>
     8 \<le> n \<and> n - 8 < 8 \<and> bit key (16 + (7 - (n - 8))) \<or> n < 8 \<and> bit key (24 + (7 - n))"
  have R: "bit (reverse key) n \<longleftrightarrow> ?R"
    using True by (auto simp: reverse_def bit_or_iff bit_push_bit_iff bit_reversed)
  consider "n < 8" | "8 \<le> n" "n < 16" | "16 \<le> n" "n < 24" | "24 \<le> n" "n < 32" using True by linarith
  then have "?R \<longleftrightarrow> bit key (31 - n)"
  proof cases
    case 1
    then have "24 + (7 - n) = 31 - n" by simp
    with 1 show ?thesis by simp
  next
    case 2
    then have "16 + (7 - (n - 8)) = 31 - n" "n - 8 < 8" by simp_all
    with 2 show ?thesis by simp
  next
    case 3
    then have "8 + (7 - (n - 16)) = 31 - n" "n - 16 < 8" "\<not> n - 8 < 8" by simp_all
    with 3 show ?thesis by simp
  next
    case 4
    then have "7 - (n - 24) = 31 - n" "n - 24 < 8" "\<not> n - 8 < 8" "\<not> n - 16 < 8" by simp_all
    with 4 show ?thesis by simp
  qed
  then show ?thesis using R True by simp
qed (auto dest: bit_imp_le_length)

section \<open>Parents\<close>

lemma le_mask_bits: "w \<le> mask k \<longleftrightarrow> (\<forall>m \<ge> k. \<not> bit w m)" for w :: u32
proof
  assume "w \<le> mask k"
  then have "uint w \<le> mask (min 32 k)" by (simp add: word_le_def uint_mask_eq)
  also have "(mask (min 32 k) :: int) < 2 ^ min 32 k" by (simp add: mask_eq_exp_minus_1)
  also have "(2 :: int) ^ min 32 k \<le> 2 ^ k" by (rule power_increasing) simp_all
  finally have "w AND mask k = w" by (simp add: mask_eq_iff)
  then have "take_bit k w = w" by (simp add: take_bit_eq_mask)
  then show "\<forall>m \<ge> k. \<not> bit w m" by (metis bit_take_bit_iff not_less)
next
  assume "\<forall>m \<ge> k. \<not> bit w m"
  then have "w AND mask k = w" by (intro bit_word_eqI) (auto simp: bit_simps not_le)
  then show "w \<le> mask k" by (metis word_and_le1)
qed

lemma parent_part:
  fixes w :: u32
  assumes "w > mask t" "w \<le> mask (t + 8)"
  shows "bit ((w AND mask t) OR push_bit t (ucast (parent_byte ! unat (drop_bit t w)))) n \<longleftrightarrow> bit w n \<and> (\<exists>m > n. bit w m)"
proof -
  let ?b = "ucast (drop_bit t w) :: byte"
  have hi: "m < t + 8" if "bit w m" for m using assms(2) that by (meson le_mask_bits not_le)
  obtain h where h: "t \<le> h" "bit w h" using assms(1) by (metis le_mask_bits not_le)
  have "drop_bit t w \<le> mask 8" unfolding le_mask_bits bit_drop_bit_eq by (auto dest!: hi)
  then have "unat (drop_bit t w) < 256" by (simp add: word_le_nat_alt mask_eq_exp_minus_1)
  then have b: "unat (drop_bit t w) = unat ?b" by (rule unat_byte [symmetric])
  have bb: "bit ?b i \<longleftrightarrow> bit w (t + i)" for i using hi [of "t + i"] by (auto simp: bit_byte_cast)
  have len: "t \<le> n \<Longrightarrow> bit w n \<Longrightarrow> n < 32" by (auto dest: bit_imp_le_length)
  show ?thesis
  proof (cases "n < t")
    case True
    have "n < h" using True h(1) by simp
    then have "\<exists>m > n. bit w m" using h(2) by blast
    moreover have "bit w n \<Longrightarrow> n < 32" using bit_imp_le_length [of w n] by simp
    ultimately show ?thesis using True by (auto simp: bit_or_iff bit_and_iff bit_push_bit_iff bit_mask_iff)
  next
    case False
    then obtain i where i: "n = t + i" by (metis le_add_diff_inverse not_less)
    have e: "(\<exists>m > n. bit w m) \<longleftrightarrow> (\<exists>j > i. bit w (t + j))"
    proof
      assume "\<exists>m > n. bit w m"
      then obtain m where "n < m" "bit w m" by blast
      then have "i < m - t" "bit w (t + (m - t))" using i by simp_all
      then show "\<exists>j > i. bit w (t + j)" by blast
    next
      assume "\<exists>j > i. bit w (t + j)"
      then obtain j where "i < j" "bit w (t + j)" by blast
      then show "\<exists>m > n. bit w m" using i by (intro exI [of _ "t + j"]) simp
    qed
    have "bit (push_bit t (ucast (parent_byte ! unat ?b)) :: u32) n \<longleftrightarrow> n < 32 \<and> bit (parent_byte ! unat ?b) i"
      using i by (auto simp: bit_push_bit_iff bit_ucast_iff dest: bit_imp_le_length)
    moreover have "\<not> bit (w AND mask t) n" using False by (simp add: bit_and_iff bit_mask_iff)
    moreover have "t \<le> n" using False by simp
    ultimately show ?thesis unfolding b bit_or_iff e using len i by (simp only: parent_byte_bit bb) blast
  qed
qed

lemma bit_parent_of: "bit (parent_of w) n \<longleftrightarrow> bit w n \<and> (\<exists>m > n. bit w m)"
proof -
  have top: "w \<le> mask (24 + 8)" unfolding le_mask_bits by (auto dest: bit_imp_le_length)
  consider "w > mask 24" | "w > mask 16" "w \<le> mask (16 + 8)" | "w > mask 8" "w \<le> mask (8 + 8)" | "w \<le> mask 8" by fastforce
  then show ?thesis
  proof cases
    case 1
    then show ?thesis using parent_part [OF 1 top] by (simp add: parent_of_def masks)
  next
    case 2
    then have "\<not> w > mask 24" by simp
    then show ?thesis using parent_part [OF 2] 2(1) by (simp add: parent_of_def masks)
  next
    case 3
    have "mask 16 \<le> (mask 24 :: u32)" by (simp add: mask_eq_exp_minus_1)
    with 3 have "\<not> w > mask 24" "\<not> w > mask 16" by auto
    then show ?thesis using parent_part [OF 3] 3(1) by (simp add: parent_of_def masks)
  next
    case 4
    have "mask 16 \<le> (mask 24 :: u32)" "mask 8 \<le> (mask 16 :: u32)" by (simp_all add: mask_eq_exp_minus_1)
    with 4 have n: "\<not> w > mask 24" "\<not> w > mask 16" "\<not> w > mask 8" by auto
    have "unat w < 256" using 4 by (simp add: word_le_nat_alt mask_eq_exp_minus_1)
    then have b: "unat w = unat (ucast w :: byte)" by (rule unat_byte [symmetric])
    have lt: "bit w i \<Longrightarrow> i < 8" for i using 4 unfolding le_mask_bits by (meson not_le)
    have bb: "bit (ucast w :: byte) i \<longleftrightarrow> bit w i" for i by (auto simp: bit_ucast_iff dest: lt)
    have "parent_of w = ucast (parent_byte ! unat (ucast w :: byte))" using n b by (simp add: parent_of_def masks)
    then have "bit (parent_of w) n \<longleftrightarrow> n < 32 \<and> bit w n \<and> (\<exists>m > n. bit w m)" by (auto simp: bit_ucast_iff parent_byte_bit dest: lt)
    then show ?thesis by (auto dest: bit_imp_le_length)
  qed
qed

section \<open>Buckets\<close>

text \<open>\<open>low k h\<close> is the bucket of the hash \<open>h\<close> in a table of \<open>2 ^ k\<close> buckets.\<close>

definition low :: "nat \<Rightarrow> u32 \<Rightarrow> u32" where
  "low k h = h AND mask k"

lemma bit_low: "bit (low k h) n \<longleftrightarrow> n < k \<and> bit h n"
  by (auto simp: low_def bit_simps dest: bit_imp_le_length)

lemma low_low: "low j (low k h) = low (min j k) h"
  by (rule bit_word_eqI) (auto simp: bit_low)

lemma unat_low: "unat (low k h) < 2 ^ k"
proof -
  have "uint (low k h) < 2 ^ k" unfolding low_def by (rule and_mask_lt_2p)
  then show ?thesis unfolding uint_nat by (metis of_nat_less_iff of_nat_numeral of_nat_power)
qed

lemma low_id: "unat h < 2 ^ k \<Longrightarrow> low k h = h"
proof -
  assume "unat h < 2 ^ k"
  then have "uint h < 2 ^ k" unfolding uint_nat by (metis of_nat_less_iff of_nat_numeral of_nat_power)
  then show ?thesis by (simp add: low_def mask_eq_iff)
qed

lemma parent_of_less: "w \<noteq> 0 \<Longrightarrow> unat (parent_of w) < unat w"
proof -
  assume "w \<noteq> 0"
  then obtain i where "bit w i" by (metis bit_eqI bit_0_eq bot_apply bot_bool_def)
  then have fin: "finite {i. bit w i}" "{i. bit w i} \<noteq> {}" by (auto dest: bit_imp_le_length intro: finite_subset [of _ "{..<32}"])
  let ?h = "Max {i. bit w i}"
  have h: "bit w ?h" using Max_in [OF fin] by simp
  have "\<not> bit (parent_of w) ?h" unfolding bit_parent_of using Max_ge [OF fin(1)] by (auto simp: not_less)
  then have "parent_of w \<noteq> w" using h by auto
  moreover have "w AND parent_of w = parent_of w" by (rule bit_word_eqI) (auto simp: bit_and_iff bit_parent_of)
  then have "parent_of w \<le> w" by (metis word_and_le2)
  ultimately have "parent_of w < w" by simp
  then show ?thesis by (simp add: word_less_nat_alt)
qed

lemma parent_0 [simp]: "parent_of 0 = 0"
  by (rule bit_word_eqI) (simp add: bit_parent_of)

text \<open>The parent of a bucket that needs its highest bit: the bucket without it.\<close>

lemma parent_low: "bit h i \<Longrightarrow> parent_of (low (Suc i) h) = low i h"
  by (rule bit_word_eqI) (auto simp: bit_parent_of bit_low less_Suc_eq intro: exI [of _ i])

lemma low_Suc: "\<not> bit h i \<Longrightarrow> low (Suc i) h = low i h"
  by (rule bit_word_eqI) (auto simp: bit_low less_Suc_eq)

text \<open>The bucket in the order of the chains: the first \<open>k\<close> bits of the mirrored hash.\<close>

definition rank :: "nat \<Rightarrow> u32 \<Rightarrow> u32" where
  "rank k h = drop_bit (32 - k) (reverse h)"

lemma bit_rank: "k \<le> 32 \<Longrightarrow> bit (rank k h) n \<longleftrightarrow> n < k \<and> bit h (k - 1 - n)"
  by (auto simp: rank_def bit_drop_bit_eq bit_reverse)

lemma rank_low: "k \<le> 32 \<Longrightarrow> rank k (low k h) = rank k h"
  by (rule bit_word_eqI) (auto simp: bit_rank bit_low)

lemma rank_inj: "k \<le> 32 \<Longrightarrow> rank k g = rank k h \<longleftrightarrow> low k g = low k h"
proof
  assume k: "k \<le> 32" and r: "rank k g = rank k h"
  show "low k g = low k h"
  proof (rule bit_word_eqI)
    fix n
    have "n < k \<Longrightarrow> bit (rank k g) (k - 1 - n) = bit (rank k h) (k - 1 - n)" by (simp add: r)
    then show "bit (low k g) n = bit (low k h) n" using k by (cases "n < k") (simp_all add: bit_rank bit_low)
  qed
next
  assume "k \<le> 32" "low k g = low k h"
  then show "rank k g = rank k h" using rank_low by metis
qed

lemma rank_mono: "reverse g \<le> reverse h \<Longrightarrow> rank k g \<le> rank k h"
  unfolding rank_def word_le_nat_alt unat_drop_bit_eq by (simp add: drop_bit_eq_div div_le_mono)

text \<open>A bucket comes before all others whose low bits are its own.\<close>

lemma rank_parent: "k \<le> 32 \<Longrightarrow> low j h = p \<Longrightarrow> rank k p \<le> rank k h"
proof -
  assume k: "k \<le> 32" and p: "low j h = p"
  have "rank k h AND rank k p = rank k p" using k p by (intro bit_word_eqI) (auto simp: bit_and_iff bit_rank bit_low)
  then show ?thesis by (metis word_and_le2)
qed

lemma reverse_inj: "reverse g = reverse h \<longleftrightarrow> g = h"
proof
  assume r: "reverse g = reverse h"
  show "g = h"
  proof (rule bit_word_eqI)
    fix n assume "n < LENGTH(32)"
    moreover have "bit (reverse g) (31 - n) = bit (reverse h) (31 - n)" by (simp add: r)
    moreover from \<open>n < LENGTH(32)\<close> have "31 - (31 - n) = n" "31 - n < 32" by simp_all
    ultimately show "bit g n = bit h n" unfolding bit_reverse by simp
  qed
qed simp

end
