(* ===== verification/HashTable.thy ===== *)
theory HashTable
  imports HashBits
begin

text \<open>
  The hash table of \<^verbatim>\<open>lib/hash.c\<close> as a finite map from hashes to data, for data whose comparison
  agrees with their hashes. \<open>home\<close> is the bucket in whose chain the elements of a hash are: the
  nearest ancestor of its bucket that has been set up.
\<close>

section \<open>Where the elements are\<close>

fun home :: "buckets \<Rightarrow> nat \<Rightarrow> u32 \<Rightarrow> u32" where
  "home B 0 h = 0"
| "home B (Suc i) h = (if B ! unat (low (Suc i) h) \<noteq> None then low (Suc i) h else home B i h)"

definition chain_ok :: "(nat \<Rightarrow> u32) \<Rightarrow> nat set \<Rightarrow> nat \<Rightarrow> buckets \<Rightarrow> nat \<Rightarrow> hnode list \<Rightarrow> bool" where
  "chain_ok hash K k B e chain \<longleftrightarrow> sorted_wrt (<) (map he_reversed chain) \<and>
     (\<forall>n \<in> set chain. he_reversed n = reverse (he_key n) \<and> he_key n = hash (he_data n) \<and> he_data n \<noteq> 0 \<and>
        he_data n \<in> K \<and> unat (home B k (he_key n)) = e)"

definition buckets_ok :: "(nat \<Rightarrow> u32) \<Rightarrow> nat set \<Rightarrow> nat \<Rightarrow> buckets \<Rightarrow> bool" where
  "buckets_ok hash K k B \<longleftrightarrow> k \<le> 32 \<and> length B = 2 ^ k \<and> B ! 0 \<noteq> None \<and>
     (\<forall>e < 2 ^ k. \<forall>chain. B ! e = Some chain \<longrightarrow> chain_ok hash K k B e chain)"

definition nodes :: "buckets \<Rightarrow> hnode set" where
  "nodes B = {n. \<exists>chain. Some chain \<in> set B \<and> n \<in> set chain}"

lemma low_0 [simp]: "low 0 h = 0"
  by (rule bit_word_eqI) (simp add: bit_low)

lemma home_level: "\<exists>j \<le> i. home B i h = low j h"
proof (induction i)
  case (Suc i)
  then show ?case by (metis home.simps(2) le_Suc_eq)
qed simp

lemma home_bound: "unat (home B k h) < 2 ^ k"
proof -
  obtain j where j: "j \<le> k" "home B k h = low j h" using home_level by blast
  have "(2 :: nat) ^ j \<le> 2 ^ k" using j(1) by simp
  from less_le_trans [OF unat_low this] show ?thesis unfolding j(2) .
qed

lemma home_set_up: "B ! 0 \<noteq> None \<Longrightarrow> B ! unat (home B k h) \<noteq> None"
  by (induction k) simp_all

lemma home_top: "B ! unat (low k h) \<noteq> None \<Longrightarrow> home B k h = low k h"
  by (cases k) simp_all

lemma home_cong: "low i g = low i h \<Longrightarrow> home B i g = home B i h"
proof (induction i)
  case (Suc i)
  have "low i g = low i (low (Suc i) g)" "low i h = low i (low (Suc i) h)" by (simp_all add: low_low)
  with Suc show ?case by simp
qed simp

lemma home_skip: "i \<le> k \<Longrightarrow> low i b = b \<Longrightarrow> B ! unat b = None \<Longrightarrow> home B k b = home B i b"
proof (induction k)
  case (Suc k)
  show ?case
  proof (cases "i = Suc k")
    case False
    then have "low (Suc k) b = b" using Suc.prems(1,2) low_low [of "Suc k" i b] by (simp add: min_def)
    then show ?thesis using Suc False by simp
  qed simp
qed simp

text \<open>Setting up buckets whose elements were in the chain of \<open>p\<close> does not touch the other chains.\<close>

lemma home_new:
  assumes mono: "\<And>e. e < 2 ^ k \<Longrightarrow> B ! e \<noteq> None \<Longrightarrow> B' ! e \<noteq> None"
    and new: "\<And>r. unat r < 2 ^ k \<Longrightarrow> B ! unat r = None \<Longrightarrow> B' ! unat r \<noteq> None \<Longrightarrow> home B k r = p"
  shows "i \<le> k \<Longrightarrow> home B i h \<noteq> p \<Longrightarrow> home B' i h = home B i h"
proof (induction i)
  case (Suc i)
  let ?b = "low (Suc i) h"
  have b: "unat ?b < 2 ^ k" using unat_low [of "Suc i" h] power_increasing [OF Suc.prems(1), of "2 :: nat"] by linarith
  show ?case
  proof (cases "B ! unat ?b = None")
    case True
    then have i: "home B i h \<noteq> p" using Suc.prems(2) by simp
    have "B' ! unat ?b = None"
    proof (rule ccontr)
      assume "B' ! unat ?b \<noteq> None"
      then have "home B k ?b = p" using new b True by blast
      moreover have "home B k ?b = home B (Suc i) ?b"
        using home_skip [OF Suc.prems(1) _ True] by (simp add: low_low)
      moreover have "home B (Suc i) ?b = home B i ?b" using True by (simp add: low_low)
      moreover have "home B i ?b = home B i h" by (rule home_cong) (simp add: low_low)
      ultimately show False using i by simp
    qed
    then show ?thesis using Suc i True by simp
  qed (use mono b in simp)
qed simp

section \<open>Splitting a chain\<close>

lemma fixup_loop_nth:
  assumes k: "k \<le> 32" and e: "e < 2 ^ k"
  shows "length B = 2 ^ k \<Longrightarrow> low k this = this \<Longrightarrow> sorted (map (\<lambda>n. rank k (he_key n)) ns) \<Longrightarrow>
    \<forall>n \<in> set ns. rank k this \<le> rank k (he_key n) \<Longrightarrow>
    fixup_loop (mask k) this part ns B ! e =
      (if e = unat this then Some (part @ filter (\<lambda>n. low k (he_key n) = this) ns)
       else if \<exists>n \<in> set ns. unat (low k (he_key n)) = e then Some (filter (\<lambda>n. unat (low k (he_key n)) = e) ns)
       else B ! e)"
proof (induction ns arbitrary: this part B)
  case Nil
  have "unat this < 2 ^ k" using Nil.prems(2) unat_low [of k this] by simp
  with Nil show ?case by simp
next
  case (Cons n ns)
  let ?r = "low k (he_key n)"
  have r: "he_key n AND mask k = ?r" by (simp add: low_def)
  have u: "unat this < 2 ^ k" using Cons.prems(2) unat_low [of k this] by simp
  show ?case
  proof (cases "?r = this")
    case True
    then show ?thesis using Cons.IH [OF Cons.prems(1,2)] Cons.prems(3,4) by (auto simp: r)
  next
    case False
    have lt: "rank k this < rank k (he_key n)"
      using Cons.prems(2,4) False rank_inj [OF k, of this "he_key n"] by (auto simp: order.order_iff_strict)
    have later: "low k (he_key x) \<noteq> this" if "x \<in> set ns" for x
    proof
      assume "low k (he_key x) = this"
      then have "rank k (he_key x) = rank k this" using rank_low [OF k] by metis
      moreover have "rank k (he_key n) \<le> rank k (he_key x)" using Cons.prems(3) that by simp
      ultimately show False using lt by simp
    qed
    have s: "low k ?r = ?r" "\<forall>x \<in> set ns. rank k ?r \<le> rank k (he_key x)"
      using Cons.prems(3) by (simp_all add: low_low rank_low [OF k])
    have sns: "sorted (map (\<lambda>n. rank k (he_key n)) ns)" using Cons.prems(3) by simp
    have ne: "unat ?r \<noteq> unat this" using False by (simp add: word_unat_eq_iff)
    have "fixup_loop (mask k) this part (n # ns) B ! e = fixup_loop (mask k) ?r [n] ns (B[unat this := Some part]) ! e"
      using False by (simp add: r)
    also have "\<dots> = (if e = unat ?r then Some (n # filter (\<lambda>n. low k (he_key n) = ?r) ns)
       else if \<exists>n \<in> set ns. unat (low k (he_key n)) = e then Some (filter (\<lambda>n. unat (low k (he_key n)) = e) ns)
       else B[unat this := Some part] ! e)"
      using Cons.IH [OF _ s(1) sns s(2)] Cons.prems(1) by simp
    finally show ?thesis using ne later False u Cons.prems(1)
      by (auto simp: word_unat_eq_iff nth_list_update)
  qed
qed

lemma fixup_loop_length [simp]: "length (fixup_loop m this part ns B) = length B"
  by (induction m this part ns B rule: fixup_loop.induct) (simp_all add: Let_def)

lemma buckets_okD:
  assumes "buckets_ok hash K k B"
  shows "k \<le> 32" "length B = 2 ^ k" "B ! 0 \<noteq> None"
    "\<And>e chain. e < 2 ^ k \<Longrightarrow> B ! e = Some chain \<Longrightarrow> chain_ok hash K k B e chain"
  using assms by (auto simp: buckets_ok_def)

lemma chain_okD:
  assumes "chain_ok hash K k B e chain" "n \<in> set chain"
  shows "he_reversed n = reverse (he_key n)" "he_key n = hash (he_data n)" "he_data n \<noteq> 0" "he_data n \<in> K"
    "unat (home B k (he_key n)) = e"
  using assms by (auto simp: chain_ok_def)

lemma in_nodes: "n \<in> nodes B \<longleftrightarrow> (\<exists>e < length B. \<exists>chain. B ! e = Some chain \<and> n \<in> set chain)"
  unfolding nodes_def mem_Collect_eq in_set_conv_nth by auto

lemma chain_ranks:
  assumes "chain_ok hash K k B e chain" "k \<le> 32"
  shows "sorted (map (\<lambda>n. rank k (he_key n)) chain)"
proof -
  have "sorted_wrt (\<lambda>x y. he_reversed x < he_reversed y) chain" using assms(1) by (simp add: chain_ok_def sorted_wrt_map)
  then have "sorted_wrt (\<lambda>x y. rank k (he_key x) \<le> rank k (he_key y)) chain"
  proof (rule sorted_wrt_mono_rel [rotated])
    fix x y assume "x \<in> set chain" "y \<in> set chain" "he_reversed x < he_reversed y"
    then show "rank k (he_key x) \<le> rank k (he_key y)" using chain_okD(1) [OF assms(1)] by (simp add: rank_mono)
  qed
  then show ?thesis by (simp add: sorted_wrt_map)
qed

lemma split_chain:
  assumes ok: "buckets_ok hash K k B" and p: "unat p < 2 ^ k" "B ! unat p = Some chain"
  defines "B' \<equiv> fixup_loop (mask k) p [] chain B"
  shows "buckets_ok hash K k B'" "nodes B' = nodes B" "\<And>e. e < 2 ^ k \<Longrightarrow> B ! e \<noteq> None \<Longrightarrow> B' ! e \<noteq> None"
    "\<And>e. e < 2 ^ k \<Longrightarrow> e \<noteq> unat p \<Longrightarrow> B ! e \<noteq> None \<Longrightarrow> B' ! e = B ! e"
    "B' ! unat p = Some (filter (\<lambda>n. low k (he_key n) = p) chain)"
proof -
  note K = buckets_okD [OF ok]
  have c: "chain_ok hash K k B (unat p) chain" by (rule K(4) [OF p])
  have hp: "home B k (he_key n) = p" if "n \<in> set chain" for n
    using chain_okD(5) [OF c that] by (simp add: word_unat_eq_iff)
  have lp: "low k p = p" using p(1) by (rule low_id)
  have first: "\<forall>n \<in> set chain. rank k p \<le> rank k (he_key n)"
    using hp home_level rank_parent [OF K(1)] by metis
  have B': "B' ! e = (if e = unat p then Some (filter (\<lambda>n. low k (he_key n) = p) chain)
       else if \<exists>n \<in> set chain. unat (low k (he_key n)) = e then Some (filter (\<lambda>n. unat (low k (he_key n)) = e) chain)
       else B ! e)" if "e < 2 ^ k" for e
    unfolding B'_def using fixup_loop_nth [OF K(1) that K(2) lp chain_ranks [OF c K(1)] first, of "[]"] by simp
  then show pp: "B' ! unat p = Some (filter (\<lambda>n. low k (he_key n) = p) chain)" using p(1) by simp
  show mono: "B' ! e \<noteq> None" if "e < 2 ^ k" "B ! e \<noteq> None" for e using that B' by simp
  have fresh: "B ! unat (low k (he_key n)) = None" if "n \<in> set chain" "low k (he_key n) \<noteq> p" for n
    using home_top [of B k "he_key n"] hp [OF that(1)] that(2) by metis
  show same: "B' ! e = B ! e" if "e < 2 ^ k" "e \<noteq> unat p" "B ! e \<noteq> None" for e
    using B' [OF that(1)] that fresh by (auto simp: word_unat_eq_iff)
  have new: "home B k r = p" if r: "unat r < 2 ^ k" "B ! unat r = None" "B' ! unat r \<noteq> None" for r
  proof -
    have "unat r \<noteq> unat p" using r(2) p(2) by auto
    then obtain n where n: "n \<in> set chain" "low k (he_key n) = r"
      using B' [OF r(1)] r by (auto simp: word_unat_eq_iff split: if_splits)
    have "home B k r = home B k (he_key n)" by (rule home_cong) (use n(2) in \<open>simp add: low_low flip: n(2)\<close>)
    then show ?thesis using hp [OF n(1)] by simp
  qed
  have moved: "home B' k (he_key n) = low k (he_key n)" if "n \<in> set chain" for n
  proof (rule home_top)
    show "B' ! unat (low k (he_key n)) \<noteq> None" using B' [OF unat_low] that by auto
  qed
  have chains: "chain_ok hash K k B' e ch" if e: "e < 2 ^ k" "B' ! e = Some ch" for e ch
  proof (cases "e = unat p \<or> (\<exists>n \<in> set chain. unat (low k (he_key n)) = e)")
    case True
    then have ch: "ch = filter (\<lambda>n. unat (low k (he_key n)) = e) chain"
      using B' [OF e(1)] e(2) by (auto simp: word_unat_eq_iff split: if_splits)
    have "sorted_wrt (<) (map he_reversed ch)" using c by (simp add: ch chain_ok_def sorted_wrt_map sorted_wrt_filter)
    then show ?thesis using chain_okD [OF c] moved by (auto simp: chain_ok_def ch)
  next
    case False
    then have B: "B ! e = Some ch" using B' [OF e(1)] e(2) by auto
    have cc: "chain_ok hash K k B e ch" by (rule K(4) [OF e(1) B])
    have "home B' k (he_key n) = home B k (he_key n)" if "n \<in> set ch" for n
    proof (rule home_new [OF mono new order.refl])
      show "home B k (he_key n) \<noteq> p" using chain_okD(5) [OF cc that] False by auto
    qed
    then have "\<forall>n \<in> set ch. unat (home B' k (he_key n)) = e" using chain_okD(5) [OF cc] by simp
    then show ?thesis using cc unfolding chain_ok_def by blast
  qed
  show "buckets_ok hash K k B'"
    unfolding buckets_ok_def using K(1,2) chains mono [of 0] K(3) by (auto simp: B'_def)
  have len: "length B' = 2 ^ k" using K(2) by (simp add: B'_def)
  show "nodes B' = nodes B"
  proof (intro set_eqI iffI)
    fix n assume "n \<in> nodes B'"
    then obtain e ch where e: "e < 2 ^ k" "B' ! e = Some ch" "n \<in> set ch" using len by (auto simp: in_nodes)
    then have "n \<in> set chain \<or> B ! e = Some ch" using B' [OF e(1)] by (auto split: if_splits)
    then show "n \<in> nodes B" using e p K(2) unfolding in_nodes by metis
  next
    fix n assume "n \<in> nodes B"
    then obtain e ch where e: "e < 2 ^ k" "B ! e = Some ch" "n \<in> set ch" using K(2) by (auto simp: in_nodes)
    show "n \<in> nodes B'"
    proof (cases "e = unat p")
      case True
      then have n: "n \<in> set chain" using e p(2) by simp
      have "\<exists>ch'. B' ! unat (low k (he_key n)) = Some ch' \<and> n \<in> set ch'"
        using B' [OF unat_low, of "he_key n"] n by (auto simp: word_unat_eq_iff)
      then show ?thesis unfolding in_nodes len using unat_low [of k "he_key n"] by metis
    next
      case False
      then show ?thesis using same [of e] e len unfolding in_nodes by fastforce
    qed
  qed
qed

lemma highest_bit:
  assumes "w \<noteq> 0" "unat w < 2 ^ k"
  obtains i where "i < k" "low (Suc i) w = w" "parent_of w = low i w"
proof -
  from assms(1) obtain j where "bit w j" by (metis bit_eqI bit_0_eq bot_apply bot_bool_def)
  then have fin: "finite {i. bit w i}" "{i. bit w i} \<noteq> {}" by (auto dest: bit_imp_le_length intro: finite_subset [of _ "{..<32}"])
  let ?h = "Max {i. bit w i}"
  have h: "bit w ?h" using Max_in [OF fin] by simp
  have up: "i \<le> ?h" if "bit w i" for i using Max_ge [OF fin(1)] that by simp
  have "low (Suc ?h) w = w" by (rule bit_word_eqI) (auto simp: bit_low less_Suc_eq_le up)
  moreover from this have "parent_of w = low ?h w" using parent_low [OF h] by simp
  moreover have "?h < k" using h low_id [OF assms(2)] bit_low by metis
  ultimately show ?thesis by (rule that [rotated])
qed

lemma open_bucket:
  assumes ok: "buckets_ok hash K k B" and entry: "entry \<noteq> 0" "unat entry < 2 ^ k" "B ! unat entry = None"
    and p: "B ! unat (parent_of entry) = Some chain" "\<forall>n \<in> set chain. low k (he_key n) = parent_of entry"
  shows "buckets_ok hash K k (B[unat entry := Some []]) \<and> nodes (B[unat entry := Some []]) = nodes B"
proof -
  note K = buckets_okD [OF ok]
  let ?B = "B[unat entry := Some []]"
  obtain i where i: "i < k" "low (Suc i) entry = entry" "parent_of entry = low i entry"
    by (rule highest_bit [OF entry(1,2)])
  have nth: "?B ! e = (if e = unat entry then Some [] else B ! e)" if "e < 2 ^ k" for e
    using that K(2) by (simp add: nth_list_update)
  have mono: "?B ! e \<noteq> None" if "e < 2 ^ k" "B ! e \<noteq> None" for e using that nth by simp
  have hp: "home B k entry = parent_of entry"
  proof -
    have "home B k entry = home B (Suc i) entry" using home_skip [of "Suc i" k entry B] i entry(3) by simp
    also have "\<dots> = home B i entry" using i(2) entry(3) by simp
    also have "\<dots> = low i entry" by (rule home_top) (use p(1) i(3) in simp)
    finally show ?thesis using i(3) by simp
  qed
  have new: "home B k r = parent_of entry" if r: "unat r < 2 ^ k" "B ! unat r = None" "?B ! unat r \<noteq> None" for r
  proof -
    have "unat r = unat entry" using r nth [OF r(1)] by (auto split: if_splits)
    then have "r = entry" by (simp add: word_unat_eq_iff)
    then show ?thesis using hp by simp
  qed
  have pb: "unat (parent_of entry) < 2 ^ k" using parent_of_less [OF entry(1)] entry(2) by simp
  have chains: "chain_ok hash K k ?B e ch" if e: "e < 2 ^ k" "?B ! e = Some ch" for e ch
  proof (cases "e = unat entry")
    case True
    then show ?thesis using e nth [OF e(1)] by (simp add: chain_ok_def)
  next
    case False
    then have B: "B ! e = Some ch" using e nth by simp
    have cc: "chain_ok hash K k B e ch" by (rule K(4) [OF e(1) B])
    have "unat (home ?B k (he_key n)) = e" if n: "n \<in> set ch" for n
    proof (cases "home B k (he_key n) = parent_of entry")
      case True
      then have e': "e = unat (parent_of entry)" using chain_okD(5) [OF cc n] by simp
      then have l: "low k (he_key n) = parent_of entry" using B p n by simp
      have "home ?B k (he_key n) = low k (he_key n)" by (rule home_top) (use l mono [OF pb] p(1) in simp)
      then show ?thesis using l e' by simp
    next
      case False
      have "home ?B k (he_key n) = home B k (he_key n)" by (rule home_new [OF mono new order.refl False])
      then show ?thesis by (simp only: chain_okD(5) [OF cc n])
    qed
    then show ?thesis using cc unfolding chain_ok_def by blast
  qed
  have "buckets_ok hash K k ?B" unfolding buckets_ok_def using K(1,2) chains mono [of 0] K(3) by auto
  moreover have "nodes ?B = nodes B"
  proof (intro set_eqI iffI)
    fix n assume "n \<in> nodes ?B"
    then obtain e ch where e: "e < 2 ^ k" "?B ! e = Some ch" "n \<in> set ch" using K(2) by (auto simp: in_nodes)
    then have "B ! e = Some ch" using nth [OF e(1)] by (cases "e = unat entry") auto
    then show "n \<in> nodes B" using e K(2) unfolding in_nodes by metis
  next
    fix n assume "n \<in> nodes B"
    then obtain e ch where e: "e < 2 ^ k" "B ! e = Some ch" "n \<in> set ch" using K(2) by (auto simp: in_nodes)
    then have "?B ! e = Some ch" using nth [OF e(1)] entry(3) by (cases "e = unat entry") auto
    then show "n \<in> nodes ?B" using e K(2) unfolding in_nodes by (intro exI [of _ e]) simp
  qed
  ultimately show ?thesis ..
qed

lemma fixup_ok:
  assumes "buckets_ok hash K k B" "unat entry < 2 ^ k" "B ! unat entry = None"
  shows "\<exists>B'. fr_hash_table_fixup (mask k) entry B = Some B' \<and> buckets_ok hash K k B' \<and> nodes B' = nodes B \<and>
    B' ! unat entry \<noteq> None \<and> (\<forall>e < 2 ^ k. B ! e \<noteq> None \<longrightarrow> B' ! e \<noteq> None) \<and>
    (\<forall>e < 2 ^ k. unat entry \<le> e \<and> B ! e \<noteq> None \<longrightarrow> B' ! e = B ! e)"
  using assms
proof (induction "unat entry" arbitrary: entry B rule: less_induct)
  case less
  note K = buckets_okD [OF less.prems(1)]
  let ?p = "parent_of entry"
  have e0: "entry \<noteq> 0" using less.prems(3) K(3) by auto
  have p: "unat ?p < unat entry" by (rule parent_of_less [OF e0])
  then have pk: "unat ?p < 2 ^ k" using less.prems(2) by simp
  obtain B1 where B1: "(if B ! unat ?p = None then fr_hash_table_fixup (mask k) ?p B else Some B) = Some B1"
    "buckets_ok hash K k B1" "nodes B1 = nodes B" "B1 ! unat ?p \<noteq> None"
    "\<forall>e < 2 ^ k. B ! e \<noteq> None \<longrightarrow> B1 ! e \<noteq> None" "\<forall>e < 2 ^ k. unat ?p \<le> e \<and> B ! e \<noteq> None \<longrightarrow> B1 ! e = B ! e"
  proof (cases "B ! unat ?p = None")
    case True
    from less.hyps [OF p less.prems(1) pk True] that True show ?thesis by auto
  next
    case False
    with less.prems(1) that [of B] show ?thesis by simp
  qed
  obtain chain where ch: "B1 ! unat ?p = Some chain" using B1(4) by blast
  define B2 where "B2 = fixup_loop (mask k) ?p [] chain B1"
  note S = split_chain [OF B1(2) pk ch, folded B2_def]
  let ?B3 = "if B2 ! unat entry = None then B2[unat entry := Some []] else B2"
  have len: "length B2 = 2 ^ k" using buckets_okD(2) [OF S(1)] .
  have ok3: "buckets_ok hash K k ?B3 \<and> nodes ?B3 = nodes B2"
    using open_bucket [OF S(1) e0 less.prems(2) _ S(5)] S(1) by auto
  have f: "fr_hash_table_fixup (mask k) entry B = Some ?B3"
    unfolding fr_hash_table_fixup.simps [of _ entry B] Let_def B1(1) by (simp add: ch B2_def)
  have "?B3 ! e = B ! e" if "e < 2 ^ k" "unat entry \<le> e" "B ! e \<noteq> None" for e
  proof -
    have "B1 ! e = B ! e" using B1(6) that p by simp
    moreover have "B2 ! e = B1 ! e" using S(4) [OF that(1)] that B1(5) p by auto
    ultimately show ?thesis using that(3) by (cases "e = unat entry") auto
  qed
  moreover have "?B3 ! e \<noteq> None" if "e < 2 ^ k" "B ! e \<noteq> None" for e
    using S(3) [OF that(1)] B1(5) that len by (cases "e = unat entry") auto
  moreover have "?B3 ! unat entry \<noteq> None" using len less.prems(2) by simp
  ultimately show ?case using f ok3 S(2) B1(3) by (intro exI [of _ ?B3]) simp
qed

section \<open>The table as a map\<close>

definition represents :: "buckets \<Rightarrow> (u32 \<rightharpoonup> nat) \<Rightarrow> bool" where
  "represents B M \<longleftrightarrow> (\<forall>h d. M h = Some d \<longleftrightarrow> (\<exists>n \<in> nodes B. he_key n = h \<and> he_data n = d))"

definition ht_ok :: "(nat \<Rightarrow> u32) \<Rightarrow> nat set \<Rightarrow> nat \<Rightarrow> htable \<Rightarrow> (u32 \<rightharpoonup> nat) \<Rightarrow> bool" where
  "ht_ok hash K k ht M \<longleftrightarrow> 6 \<le> k \<and> k < 32 \<and> ht_num_buckets ht = 2 ^ k \<and> ht_mask ht = mask k \<and>
     ht_next_grow ht = 5 * 2 ^ (k - 1) \<and> (k = 6 \<or> 5 * 2 ^ (k - 2) \<le> card (hash ` K)) \<and>
     buckets_ok hash K k (ht_buckets ht) \<and> represents (ht_buckets ht) M \<and> ht_num_elements ht = int (card (dom M))"

definition ht_rep :: "(nat \<Rightarrow> u32) \<Rightarrow> nat set \<Rightarrow> htable \<Rightarrow> (u32 \<rightharpoonup> nat) \<Rightarrow> bool" where
  "ht_rep hash K ht M \<longleftrightarrow> (\<exists>k. ht_ok hash K k ht M)"

text \<open>Data of the same hash are equal for the comparison: no collisions.\<close>

definition agrees_with :: "(nat \<Rightarrow> u32) \<Rightarrow> nat cmp option \<Rightarrow> nat set \<Rightarrow> bool" where
  "agrees_with hash cmp K \<longleftrightarrow> (\<forall>c. cmp = Some c \<longrightarrow> (\<forall>x \<in> K. \<forall>y \<in> K. hash x = hash y \<longrightarrow> c x y = 0))"

lemma finite_hashes: "finite (A :: u32 set)"
  by (rule finite_subset [OF subset_UNIV]) simp

lemma ready_ok:
  assumes k: "ht_mask ht = mask k" and ok: "buckets_ok hash K k (ht_buckets ht)" and e: "unat entry < 2 ^ k"
  shows "\<exists>B chain. ready ht entry = Some (ht\<lparr>ht_buckets := B\<rparr>) \<and> buckets_ok hash K k B \<and> nodes B = nodes (ht_buckets ht) \<and>
    B ! unat entry = Some chain \<and> chain_ok hash K k B (unat entry) chain \<and>
    (\<forall>j < 2 ^ k. unat entry \<le> j \<and> ht_buckets ht ! j \<noteq> None \<longrightarrow> B ! j = ht_buckets ht ! j)"
proof (cases "ht_buckets ht ! unat entry = None")
  case True
  from fixup_ok [OF ok e True] obtain B where "fr_hash_table_fixup (mask k) entry (ht_buckets ht) = Some B"
    "buckets_ok hash K k B" "nodes B = nodes (ht_buckets ht)" "B ! unat entry \<noteq> None"
    "\<forall>j < 2 ^ k. unat entry \<le> j \<and> ht_buckets ht ! j \<noteq> None \<longrightarrow> B ! j = ht_buckets ht ! j" by blast
  then show ?thesis using True k buckets_okD(4) [OF _ e] by (auto simp: ready_def)
next
  case False
  then show ?thesis using ok buckets_okD(4) [OF ok e] by (intro exI [of _ "ht_buckets ht"]) (auto simp: ready_def)
qed

text \<open>With its own bucket set up, the elements of a hash are in the chain of that bucket.\<close>

lemma chain_has_key:
  assumes ok: "buckets_ok hash K k B" and c: "B ! unat (low k h) = Some chain" and n: "n \<in> nodes B" "he_key n = h"
  shows "n \<in> set chain"
proof -
  obtain e ch where e: "e < 2 ^ k" "B ! e = Some ch" "n \<in> set ch"
    using n(1) buckets_okD(2) [OF ok] by (auto simp: in_nodes)
  have "unat (home B k h) = e" using chain_okD(5) [OF buckets_okD(4) [OF ok e(1,2)] e(3)] n(2) by simp
  moreover have "home B k h = low k h" by (rule home_top) (simp add: c)
  ultimately show ?thesis using c e by simp
qed

lemma list_find_exact:
  assumes "agrees_with hash cmp K" "x \<in> K"
  shows "sorted_wrt (<) (map he_reversed chain) \<Longrightarrow>
    \<forall>n \<in> set chain. he_reversed n = reverse (he_key n) \<and> he_key n = hash (he_data n) \<and> he_data n \<in> K \<Longrightarrow>
    (case list_find cmp i chain (reverse (hash x)) x of
       None \<Rightarrow> \<forall>n \<in> set chain. he_key n \<noteq> hash x
     | Some j \<Rightarrow> i \<le> j \<and> j < i + length chain \<and> he_key (chain ! (j - i)) = hash x)"
proof (induction chain arbitrary: i)
  case (Cons n chain)
  show ?case
  proof (cases "he_reversed n = reverse (hash x)")
    case True
    then have "hash x = hash (he_data n)" using Cons.prems(2) reverse_inj by simp
    then have "\<And>c. cmp = Some c \<Longrightarrow> c x (he_data n) = 0" using assms Cons.prems(2) by (auto simp: agrees_with_def)
    then show ?thesis using True Cons.prems(2) \<open>hash x = hash (he_data n)\<close> by (auto split: option.split)
  next
    case False
    then have ne: "he_key n \<noteq> hash x" using Cons.prems(2) by auto
    show ?thesis
    proof (cases "he_reversed n > reverse (hash x)")
      case True
      have "he_key m \<noteq> hash x" if m: "m \<in> set chain" for m
      proof -
        have "he_reversed n < he_reversed m" using Cons.prems(1) m by simp
        moreover have "he_reversed m = reverse (he_key m)" using Cons.prems(2) m by simp
        ultimately show ?thesis using True by auto
      qed
      moreover have "list_find cmp i (n # chain) (reverse (hash x)) x = None" using False True by simp
      ultimately show ?thesis using ne by simp
    next
      case no: False
      have s: "sorted_wrt (<) (map he_reversed chain)" using Cons.prems(1) by simp
      have d: "\<forall>n \<in> set chain. he_reversed n = reverse (he_key n) \<and> he_key n = hash (he_data n) \<and> he_data n \<in> K"
        using Cons.prems(2) by simp
      note IH = Cons.IH [OF s d, of "i + 1"]
      have f: "list_find cmp i (n # chain) (reverse (hash x)) x = list_find cmp (i + 1) chain (reverse (hash x)) x"
        using no False by simp
      show ?thesis
      proof (cases "list_find cmp (i + 1) chain (reverse (hash x)) x")
        case None
        then show ?thesis using IH ne unfolding f by simp
      next
        case (Some j)
        then have "i < j" using IH by auto
        then have "j - i = Suc (j - (i + 1))" by simp
        then show ?thesis using IH Some unfolding f by simp
      qed
    qed
  qed
qed simp

lemma list_insert_exact:
  assumes "agrees_with hash cmp K" "x \<in> K" and node: "node = \<lparr>he_reversed = reverse (hash x), he_key = hash x, he_data = x\<rparr>"
  shows "sorted_wrt (<) (map he_reversed chain) \<Longrightarrow>
    \<forall>n \<in> set chain. he_reversed n = reverse (he_key n) \<and> he_key n = hash (he_data n) \<and> he_data n \<in> K \<Longrightarrow>
    (case list_insert cmp chain node of
       None \<Rightarrow> \<exists>n \<in> set chain. he_key n = hash x
     | Some chain' \<Rightarrow> (\<forall>n \<in> set chain. he_key n \<noteq> hash x) \<and> set chain' = insert node (set chain) \<and>
         sorted_wrt (<) (map he_reversed chain'))"
proof (induction chain)
  case (Cons n chain)
  show ?case
  proof (cases "he_reversed n = reverse (hash x)")
    case True
    then have "hash x = hash (he_data n)" using Cons.prems(2) reverse_inj by simp
    then have "\<And>c. cmp = Some c \<Longrightarrow> c x (he_data n) = 0" using assms Cons.prems(2) by (auto simp: agrees_with_def)
    then show ?thesis using True Cons.prems(2) node \<open>hash x = hash (he_data n)\<close> by (auto split: option.split)
  next
    case False
    then have ne: "he_key n \<noteq> hash x" using Cons.prems(2) by auto
    show ?thesis
    proof (cases "he_reversed n > reverse (hash x)")
      case True
      then have after: "\<forall>m \<in> set chain. he_reversed m > reverse (hash x)" using Cons.prems(1) by fastforce
      then have "\<forall>m \<in> set chain. he_key m \<noteq> hash x" using Cons.prems(2) by fastforce
      moreover have "list_insert cmp (n # chain) node = Some (node # n # chain)" using True node by simp
      moreover have "sorted_wrt (<) (map he_reversed (node # n # chain))"
        using Cons.prems(1) True after node by simp
      ultimately show ?thesis using ne by simp
    next
      case no: False
      then have lt: "he_reversed n < reverse (hash x)" using False by simp
      have s: "sorted_wrt (<) (map he_reversed chain)" using Cons.prems(1) by simp
      have d: "\<forall>n \<in> set chain. he_reversed n = reverse (he_key n) \<and> he_key n = hash (he_data n) \<and> he_data n \<in> K"
        using Cons.prems(2) by simp
      note IH = Cons.IH [OF s d]
      have f: "list_insert cmp (n # chain) node = map_option ((#) n) (list_insert cmp chain node)"
        using no False node by simp
      show ?thesis
      proof (cases "list_insert cmp chain node")
        case None
        then show ?thesis using IH unfolding f by simp
      next
        case (Some chain')
        then have "\<forall>m \<in> set chain'. he_reversed n < he_reversed m" using IH lt Cons.prems(1) node by auto
        then show ?thesis using IH Some ne unfolding f by auto
      qed
    qed
  qed
qed (simp add: node)

section \<open>Changing one chain\<close>

text \<open>A bucket gets a new chain, of the same hashes or with one more or less.\<close>

lemma set_chain:
  assumes ok: "buckets_ok hash K k B" and c: "B ! unat (low k h) = Some chain"
    and new: "sorted_wrt (<) (map he_reversed chain')"
      "\<And>n. n \<in> set chain' \<Longrightarrow> n \<in> set chain \<or> (he_reversed n = reverse (he_key n) \<and> he_key n = hash (he_data n) \<and>
         he_data n \<noteq> 0 \<and> he_data n \<in> K \<and> he_key n = h)"
  shows "buckets_ok hash K k (B[unat (low k h) := Some chain'])" (is "buckets_ok hash K k ?B")
    "n \<in> nodes (B[unat (low k h) := Some chain']) \<longleftrightarrow> n \<in> nodes B \<and> n \<notin> set chain \<or> n \<in> set chain'"
proof -
  note K = buckets_okD [OF ok]
  let ?e = "unat (low k h)"
  have cc: "chain_ok hash K k B ?e chain" by (rule K(4) [OF unat_low c])
  have nth: "?B ! e = (if e = ?e then Some chain' else B ! e)" if "e < 2 ^ k" for e
    using that K(2) by (simp add: nth_list_update)
  have same: "(?B ! e = None) = (B ! e = None)" if "e < 2 ^ k" for e using nth [OF that] c by simp
  have home: "home ?B i g = home B i g" if "i \<le> k" for i g
    using that
  proof (induction i)
    case (Suc i)
    have "unat (low (Suc i) g) < 2 ^ k"
      using less_le_trans [OF unat_low power_increasing [OF Suc.prems]] by simp
    from same [OF this] show ?case using Suc by simp
  qed simp
  have hh: "home B k h = low k h" by (rule home_top) (simp add: c)
  have chains: "chain_ok hash K k ?B e ch" if e: "e < 2 ^ k" "?B ! e = Some ch" for e ch
  proof (cases "e = ?e")
    case True
    then have ch: "ch = chain'" using e nth [OF e(1)] by simp
    show ?thesis unfolding chain_ok_def ch home [OF order.refl]
      using new chain_okD [OF cc] hh True by metis
  next
    case False
    then have "B ! e = Some ch" using e nth [OF e(1)] by simp
    from K(4) [OF e(1) this] show ?thesis unfolding chain_ok_def home [OF order.refl] .
  qed
  show "buckets_ok hash K k ?B" unfolding buckets_ok_def using K(1,2,3) chains same [of 0] by auto
  have disj: "n \<notin> set ch" if "n \<in> set chain" "e < 2 ^ k" "e \<noteq> ?e" "B ! e = Some ch" for e ch
    using chain_okD(5) [OF cc that(1)] chain_okD(5) [OF K(4) [OF that(2,4)]] that(3) by metis
  show "n \<in> nodes ?B \<longleftrightarrow> n \<in> nodes B \<and> n \<notin> set chain \<or> n \<in> set chain'"
  proof
    assume "n \<in> nodes ?B"
    then obtain e ch where e: "e < 2 ^ k" "?B ! e = Some ch" "n \<in> set ch" using K(2) by (auto simp: in_nodes)
    show "n \<in> nodes B \<and> n \<notin> set chain \<or> n \<in> set chain'"
    proof (cases "e = ?e")
      case True
      then show ?thesis using e nth [OF e(1)] by simp
    next
      case False
      then have "B ! e = Some ch" using e nth [OF e(1)] by simp
      then show ?thesis using disj [OF _ e(1) False] e K(2) unfolding in_nodes by metis
    qed
  next
    assume "n \<in> nodes B \<and> n \<notin> set chain \<or> n \<in> set chain'"
    then show "n \<in> nodes ?B"
    proof
      assume "n \<in> set chain'"
      moreover have "?B ! ?e = Some chain'" using nth [OF unat_low] by simp
      ultimately show ?thesis using K(2) unat_low [of k h] unfolding in_nodes by (intro exI [of _ ?e]) simp
    next
      assume n: "n \<in> nodes B \<and> n \<notin> set chain"
      then obtain e ch where e: "e < 2 ^ k" "B ! e = Some ch" "n \<in> set ch" using K(2) by (auto simp: in_nodes)
      then have "e \<noteq> ?e" using n c by auto
      then have "?B ! e = Some ch" using e nth [OF e(1)] by simp
      then show ?thesis using e K(2) unfolding in_nodes by (intro exI [of _ e]) simp
    qed
  qed
qed

lemma sorted_distinct_keys:
  assumes "chain_ok hash K k B e chain" "m \<in> set chain" "n \<in> set chain" "he_key m = he_key n"
  shows "m = n"
proof -
  have "distinct (map he_reversed chain)" using assms(1) strict_sorted_iff unfolding chain_ok_def by blast
  moreover have "he_reversed m = he_reversed n" using assms chain_okD(1) [OF assms(1)] by simp
  ultimately show ?thesis using assms(2,3) by (auto simp: distinct_map inj_on_def)
qed

section \<open>Operations\<close>

lemma representsD:
  assumes "represents B M"
  shows "n \<in> nodes B \<Longrightarrow> M (he_key n) = Some (he_data n)"
    "M h = Some d \<Longrightarrow> \<exists>n \<in> nodes B. he_key n = h \<and> he_data n = d"
    "M h = None \<Longrightarrow> n \<in> nodes B \<Longrightarrow> he_key n \<noteq> h"
proof -
  show one: "n \<in> nodes B \<Longrightarrow> M (he_key n) = Some (he_data n)" for n using assms unfolding represents_def by blast
  show "M h = Some d \<Longrightarrow> \<exists>n \<in> nodes B. he_key n = h \<and> he_data n = d" using assms unfolding represents_def by blast
  show "M h = None \<Longrightarrow> n \<in> nodes B \<Longrightarrow> he_key n \<noteq> h" using one by force
qed

text \<open>Every operation begins with this: the bucket, and what is in its chain.\<close>

lemma ready_rep:
  assumes ht: "ht_ok hash K k ht M"
  shows "\<exists>B chain. ready ht (hash x AND ht_mask ht) = Some (ht\<lparr>ht_buckets := B\<rparr>) \<and> ht_ok hash K k (ht\<lparr>ht_buckets := B\<rparr>) M \<and>
    hash x AND ht_mask ht = low k (hash x) \<and> B ! unat (low k (hash x)) = Some chain \<and>
    chain_ok hash K k B (unat (low k (hash x))) chain \<and>
    (\<forall>n. n \<in> nodes B \<and> he_key n = hash x \<longrightarrow> n \<in> set chain) \<and> set chain \<subseteq> nodes B"
proof -
  have m: "ht_mask ht = mask k" and ok: "buckets_ok hash K k (ht_buckets ht)" using ht by (simp_all add: ht_ok_def)
  have e: "hash x AND ht_mask ht = low k (hash x)" by (simp add: m low_def)
  obtain B chain where B: "ready ht (low k (hash x)) = Some (ht\<lparr>ht_buckets := B\<rparr>)" "buckets_ok hash K k B"
    "nodes B = nodes (ht_buckets ht)" "B ! unat (low k (hash x)) = Some chain"
    "chain_ok hash K k B (unat (low k (hash x))) chain"
    using ready_ok [OF m ok unat_low] by blast
  have "ht_ok hash K k (ht\<lparr>ht_buckets := B\<rparr>) M" using ht B(2,3) by (simp add: ht_ok_def represents_def)
  moreover have "set chain \<subseteq> nodes B"
    using B(4) unat_low [of k "hash x"] buckets_okD(2) [OF B(2)] unfolding in_nodes subset_iff by metis
  ultimately show ?thesis using B e chain_has_key [OF B(2,4)] by (intro exI [of _ B] exI [of _ chain]) auto
qed

lemma find_ok:
  assumes ht: "ht_ok hash K k ht M" and x: "agrees_with hash cmp K" "x \<in> K"
  shows "\<exists>B chain. let ht1 = ht\<lparr>ht_buckets := B\<rparr>; e = unat (low k (hash x)) in
    ht_ok hash K k ht1 M \<and> ready ht (hash x AND ht_mask ht) = Some ht1 \<and> hash x AND ht_mask ht = low k (hash x) \<and>
    B ! e = Some chain \<and> chain_ok hash K k B e chain \<and>
    (\<forall>n. n \<in> nodes B \<and> he_key n = hash x \<longrightarrow> n \<in> set chain) \<and> set chain \<subseteq> nodes B \<and>
    (case list_find cmp 0 chain (reverse (hash x)) x of
       None \<Rightarrow> M (hash x) = None
     | Some i \<Rightarrow> i < length chain \<and> he_key (chain ! i) = hash x \<and> M (hash x) = Some (he_data (chain ! i)))"
proof -
  obtain B chain where B: "ready ht (hash x AND ht_mask ht) = Some (ht\<lparr>ht_buckets := B\<rparr>)"
    "ht_ok hash K k (ht\<lparr>ht_buckets := B\<rparr>) M" "hash x AND ht_mask ht = low k (hash x)"
    "B ! unat (low k (hash x)) = Some chain" "chain_ok hash K k B (unat (low k (hash x))) chain"
    "\<forall>n. n \<in> nodes B \<and> he_key n = hash x \<longrightarrow> n \<in> set chain" "set chain \<subseteq> nodes B"
    using ready_rep [OF ht, of x] by blast
  have rep: "represents B M" using B(2) by (simp add: ht_ok_def)
  have s: "sorted_wrt (<) (map he_reversed chain)"
    "\<forall>n \<in> set chain. he_reversed n = reverse (he_key n) \<and> he_key n = hash (he_data n) \<and> he_data n \<in> K"
    using B(5) unfolding chain_ok_def by blast+
  note F = list_find_exact [OF x s, of 0]
  have "case list_find cmp 0 chain (reverse (hash x)) x of
       None \<Rightarrow> M (hash x) = None
     | Some i \<Rightarrow> i < length chain \<and> he_key (chain ! i) = hash x \<and> M (hash x) = Some (he_data (chain ! i))"
  proof (cases "list_find cmp 0 chain (reverse (hash x)) x")
    case None
    then have no: "\<forall>n \<in> set chain. he_key n \<noteq> hash x" using F by simp
    have "M (hash x) = None"
    proof (rule ccontr)
      assume "M (hash x) \<noteq> None"
      then obtain n where "n \<in> nodes B" "he_key n = hash x" using representsD(2) [OF rep] by blast
      then show False using B(6) no by blast
    qed
    then show ?thesis using None by simp
  next
    case (Some i)
    then have i: "i < length chain" "he_key (chain ! i) = hash x" using F by simp_all
    then have "chain ! i \<in> nodes B" using B(7) nth_mem by blast
    then show ?thesis using representsD(1) [OF rep, of "chain ! i"] i Some by simp
  qed
  then show ?thesis using B unfolding Let_def by blast
qed

lemma find_returns:
  assumes ht: "ht_ok hash K k ht M" and x: "agrees_with hash cmp K" "x \<in> K"
  obtains B f where "fr_hash_table_find hash cmp ht x = Some (ht\<lparr>ht_buckets := B\<rparr>, f)" "ht_ok hash K k (ht\<lparr>ht_buckets := B\<rparr>) M"
    "f = None \<longleftrightarrow> M (hash x) = None"
    "\<forall>e i chain. f = Some (e, i, chain) \<longrightarrow> e = unat (low k (hash x)) \<and> B ! e = Some chain \<and> i < length chain \<and>
       he_key (chain ! i) = hash x \<and> M (hash x) = Some (he_data (chain ! i))"
proof -
  obtain B chain where B: "ht_ok hash K k (ht\<lparr>ht_buckets := B\<rparr>) M" "ready ht (hash x AND ht_mask ht) = Some (ht\<lparr>ht_buckets := B\<rparr>)"
    "hash x AND ht_mask ht = low k (hash x)" "B ! unat (low k (hash x)) = Some chain"
    "case list_find cmp 0 chain (reverse (hash x)) x of
       None \<Rightarrow> M (hash x) = None
     | Some i \<Rightarrow> i < length chain \<and> he_key (chain ! i) = hash x \<and> M (hash x) = Some (he_data (chain ! i))"
    using find_ok [OF assms] unfolding Let_def by blast
  define f where "f = map_option (\<lambda>i. (unat (low k (hash x)), i, chain)) (list_find cmp 0 chain (reverse (hash x)) x)"
  have F: "fr_hash_table_find hash cmp ht x = Some (ht\<lparr>ht_buckets := B\<rparr>, f)"
    using B(2,3,4) by (simp add: fr_hash_table_find_def f_def Let_def)
  have N: "f = None \<longleftrightarrow> M (hash x) = None" using B(5) by (auto simp: f_def split: option.splits)
  have "e = unat (low k (hash x)) \<and> B ! e = Some ch \<and> i < length ch \<and> he_key (ch ! i) = hash x \<and> M (hash x) = Some (he_data (ch ! i))"
    if "f = Some (e, i, ch)" for e i ch
    using B(4,5) that by (auto simp: f_def split: option.splits)
  then show ?thesis using that [OF F B(1) N] by simp
qed

lemma list_delete_set:
  assumes "distinct chain" "i < length chain"
  shows "set (list_delete chain i) = set chain - {chain ! i}"
proof -
  define xs zs where "xs = take i chain" and "zs = drop (Suc i) chain"
  have c: "chain = xs @ chain ! i # zs" unfolding xs_def zs_def using id_take_nth_drop [OF assms(2)] by simp
  then have "distinct (xs @ chain ! i # zs)" using assms(1) by metis
  moreover from c have "set chain = set (xs @ chain ! i # zs)" by metis
  ultimately show ?thesis by (auto simp: list_delete_def simp flip: xs_def zs_def)
qed

lemma ht_okD:
  assumes "ht_ok hash K k ht M"
  shows "6 \<le> k" "k < 32" "ht_mask ht = mask k" "buckets_ok hash K k (ht_buckets ht)" "represents (ht_buckets ht) M"
    "ht_num_elements ht = int (card (dom M))" "ht_num_buckets ht = 2 ^ k" "ht_next_grow ht = 5 * 2 ^ (k - 1)"
  using assms by (simp_all add: ht_ok_def)

text \<open>The table grows when it has reached \<open>next_grow\<close>; it has at most as many elements as there are hashes.\<close>

lemma home_grown:
  assumes "length B = 2 ^ k"
  shows "i \<le> k \<Longrightarrow> home (B @ C) i h = home B i h"
    "C = replicate (2 ^ k) None \<Longrightarrow> home (B @ C) (Suc k) h = home B k h"
proof -
  show same: "i \<le> k \<Longrightarrow> home (B @ C) i h = home B i h" for i
  proof (induction i)
    case (Suc i)
    have "unat (low (Suc i) h) < 2 ^ k" using less_le_trans [OF unat_low power_increasing [OF Suc.prems]] by simp
    then show ?case using Suc assms by (simp add: nth_append)
  qed simp
  assume C: "C = replicate (2 ^ k) None"
  show "home (B @ C) (Suc k) h = home B k h"
  proof (cases "bit h k")
    case True
    have "bit (low (Suc k) h) k" using True by (simp add: bit_low)
    then have "\<not> unat (low (Suc k) h) < 2 ^ k" using low_id [of "low (Suc k) h" k] bit_low [of k "low (Suc k) h" k] by auto
    moreover have "unat (low (Suc k) h) < 2 ^ k + 2 ^ k" using unat_low [of "Suc k" h] by simp
    ultimately have "(B @ C) ! unat (low (Suc k) h) = None" using assms C by (simp add: nth_append)
    then show ?thesis using same [OF order.refl] by simp
  next
    case False
    then have l: "low (Suc k) h = low k h" by (rule low_Suc)
    have "(B @ C) ! unat (low k h) = B ! unat (low k h)" using assms unat_low [of k h] by (simp add: nth_append)
    then show ?thesis using same [OF order.refl] home_top [of B k h] l by auto
  qed
qed

lemma grow_ok:
  assumes ht: "ht_ok hash K k ht M" and full: "ht_next_grow ht \<le> ht_num_elements ht" and dom: "dom M \<subseteq> hash ` K"
  shows "ht_rep hash K (fr_hash_table_grow ok ht) M"
proof (cases ok)
  case True
  note H = ht_okD [OF ht] and K = buckets_okD [OF ht_okD(4) [OF ht]]
  let ?C = "replicate (2 ^ k) None" and ?B = "ht_buckets ht"
  have card: "card (dom M) \<le> card (hash ` K)" by (rule card_mono [OF finite_hashes dom])
  have le: "(5 :: int) * 2 ^ (k - 1) \<le> int (card (hash ` K))" using full H(6,8) card by simp
  have "card (hash ` K) \<le> card (UNIV :: u32 set)" by (rule card_mono [OF finite_hashes subset_UNIV])
  then have "card (hash ` K) \<le> 2 ^ 32" by (simp add: card_word)
  then have "int (card (hash ` K)) \<le> 2 ^ 32" by (metis of_nat_le_iff of_nat_numeral of_nat_power)
  with le have "(5 :: int) * 2 ^ (k - 1) \<le> 2 ^ 32" by simp
  then have "(2 :: int) ^ (k - 1) < 2 ^ 30" by simp
  then have k30: "k - 1 < 30" by (rule power_less_imp_less_exp [rotated]) simp
  have nodes: "nodes (?B @ ?C) = nodes ?B" by (auto simp: nodes_def)
  have chains: "chain_ok hash K (Suc k) (?B @ ?C) e ch" if e: "e < 2 ^ Suc k" "(?B @ ?C) ! e = Some ch" for e ch
  proof -
    have "e < 2 ^ k" using e K(2) by (auto simp: nth_append split: if_splits)
    then have "?B ! e = Some ch" using e K(2) by (simp add: nth_append)
    from K(4) [OF \<open>e < 2 ^ k\<close> this] show ?thesis unfolding chain_ok_def home_grown(2) [OF K(2) refl] .
  qed
  have "buckets_ok hash K (Suc k) (?B @ ?C)"
    unfolding buckets_ok_def using K(2,3) k30 chains by (auto simp: nth_append)
  moreover have "mask (Suc k) = (of_nat (2 ^ k * 2 - 1) :: u32)" by (simp add: mask_eq_exp_minus_1 of_nat_diff)
  moreover have "(5 :: int) * 2 ^ (k - 1) * 2 = 5 * 2 ^ k" using H(1) by (cases k) simp_all
  moreover have "5 * 2 ^ (k - 1) \<le> card (hash ` K)" using le by (metis (mono_tags, lifting) of_nat_le_iff of_nat_mult of_nat_numeral of_nat_power)
  ultimately have "ht_ok hash K (Suc k) (fr_hash_table_grow ok ht) M"
    using True H k30 nodes by (simp add: ht_ok_def fr_hash_table_grow_def GROW_FACTOR_def represents_def)
  then show ?thesis by (auto simp: ht_rep_def)
qed (use ht in \<open>auto simp: ht_rep_def fr_hash_table_grow_def\<close>)

lemma chain_facts:
  assumes "chain_ok hash K k B e chain"
  shows "sorted_wrt (<) (map he_reversed chain)" "distinct chain"
    "\<forall>n \<in> set chain. he_reversed n = reverse (he_key n) \<and> he_key n = hash (he_data n) \<and> he_data n \<in> K"
proof -
  show s: "sorted_wrt (<) (map he_reversed chain)" using assms by (simp add: chain_ok_def)
  show "distinct chain" using s strict_sorted_iff distinct_map by blast
  show "\<forall>n \<in> set chain. he_reversed n = reverse (he_key n) \<and> he_key n = hash (he_data n) \<and> he_data n \<in> K"
    using assms unfolding chain_ok_def by blast
qed

lemma insert_ok:
  assumes ht: "ht_rep hash K ht M" and x: "agrees_with hash cmp K" "x \<in> K" "x \<noteq> 0" and dom: "dom M \<subseteq> hash ` K"
  shows "\<exists>ht'. fr_hash_table_insert hash cmp node_ok grow_ok ht x =
      Some (ht', if node_ok \<and> M (hash x) = None then 1 else 0) \<and> ht_free ht' = ht_free ht \<and>
    ht_rep hash K ht' (if node_ok \<and> M (hash x) = None then M(hash x \<mapsto> x) else M)"
proof -
  obtain k where k: "ht_ok hash K k ht M" using ht by (auto simp: ht_rep_def)
  obtain B chain where B: "ready ht (hash x AND ht_mask ht) = Some (ht\<lparr>ht_buckets := B\<rparr>)"
    "ht_ok hash K k (ht\<lparr>ht_buckets := B\<rparr>) M" "hash x AND ht_mask ht = low k (hash x)"
    "B ! unat (low k (hash x)) = Some chain" "chain_ok hash K k B (unat (low k (hash x))) chain"
    "\<forall>n. n \<in> nodes B \<and> he_key n = hash x \<longrightarrow> n \<in> set chain" "set chain \<subseteq> nodes B"
    using ready_rep [OF k, of x] by blast
  define ht1 where "ht1 = ht\<lparr>ht_buckets := B\<rparr>"
  define node where "node = \<lparr>he_reversed = reverse (hash x), he_key = hash x, he_data = x\<rparr>"
  have ok: "buckets_ok hash K k B" and rep: "represents B M" using ht_okD [OF B(2)] by simp_all
  have same: "ht_rep hash K ht1 M" "ht_free ht1 = ht_free ht" using B(2) by (auto simp: ht_rep_def ht1_def)
  note C = chain_facts [OF B(5)]
  note I = list_insert_exact [OF x(1,2) node_def C(1,3)]
  show ?thesis
  proof (cases node_ok)
    case False
    then have "fr_hash_table_insert hash cmp node_ok grow_ok ht x = Some (ht1, 0)"
      using x(3) B(1) by (simp add: fr_hash_table_insert_def ht1_def Let_def)
    then show ?thesis using same False by simp
  next
    case node: True
    show ?thesis
    proof (cases "list_insert cmp chain node")
      case None
      then obtain n where n: "n \<in> set chain" "he_key n = hash x" using I by auto
      then have "M (hash x) = Some (he_data n)" using representsD(1) [OF rep] B(7) by force
      moreover have "fr_hash_table_insert hash cmp node_ok grow_ok ht x = Some (ht1, 0)"
        using node x(3) B(1,3,4) None by (simp add: fr_hash_table_insert_def ht1_def node_def Let_def)
      ultimately show ?thesis using same by simp
    next
      case (Some chain')
      have no: "\<forall>n \<in> set chain. he_key n \<noteq> hash x" and set': "set chain' = insert node (set chain)"
        and sorted: "sorted_wrt (<) (map he_reversed chain')" using I Some by simp_all
      have none: "M (hash x) = None"
      proof (rule ccontr)
        assume "M (hash x) \<noteq> None"
        then obtain n where "n \<in> nodes B" "he_key n = hash x" using representsD(2) [OF rep] by blast
        then show False using B(6) no by blast
      qed
      define ht2 where "ht2 = ht1\<lparr>ht_buckets := B[unat (low k (hash x)) := Some chain'], ht_num_elements := ht_num_elements ht1 + 1\<rparr>"
      note S = set_chain [OF ok B(4) sorted]
      have new: "n \<in> set chain' \<Longrightarrow> n \<in> set chain \<or> (he_reversed n = reverse (he_key n) \<and> he_key n = hash (he_data n) \<and>
         he_data n \<noteq> 0 \<and> he_data n \<in> K \<and> he_key n = hash x)" for n
        using set' x(2,3) by (auto simp: node_def)
      have nodes: "n \<in> nodes (B[unat (low k (hash x)) := Some chain']) \<longleftrightarrow> n = node \<or> n \<in> nodes B" for n
        using S(2) [OF new, of n] set' B(7) by blast
      have "represents (B[unat (low k (hash x)) := Some chain']) (M(hash x \<mapsto> x))"
      proof -
        have "(M(hash x \<mapsto> x)) h = Some d \<longleftrightarrow> (\<exists>n. (n = node \<or> n \<in> nodes B) \<and> he_key n = h \<and> he_data n = d)" for h d
        proof (cases "h = hash x")
          case True
          then show ?thesis using representsD(3) [OF rep none] by (auto simp: node_def)
        next
          case False
          then show ?thesis using rep by (auto simp: represents_def node_def)
        qed
        then show ?thesis unfolding represents_def Bex_def nodes by blast
      qed
      moreover have "card (dom (M(hash x \<mapsto> x))) = card (dom M) + 1" using none by (simp add: finite_hashes domIff)
      ultimately have ok2: "ht_ok hash K k ht2 (M(hash x \<mapsto> x))"
        using B(2) S(1) [OF new] unfolding ht_ok_def ht2_def ht1_def by simp
      have "dom (M(hash x \<mapsto> x)) \<subseteq> hash ` K" using dom x(2) by auto
      then have "ht_rep hash K (if ht_next_grow ht2 \<le> ht_num_elements ht2 then fr_hash_table_grow grow_ok ht2 else ht2) (M(hash x \<mapsto> x))"
        using grow_ok [OF ok2] ok2 by (auto simp: ht_rep_def)
      moreover have "fr_hash_table_insert hash cmp node_ok grow_ok ht x =
          Some (if ht_next_grow ht2 \<le> ht_num_elements ht2 then fr_hash_table_grow grow_ok ht2 else ht2, 1)"
        using node x(3) B(1,3,4) Some by (simp add: fr_hash_table_insert_def ht1_def ht2_def node_def Let_def)
      moreover have "ht_free (if ht_next_grow ht2 \<le> ht_num_elements ht2 then fr_hash_table_grow grow_ok ht2 else ht2) = ht_free ht"
        by (simp add: ht2_def ht1_def fr_hash_table_grow_def)
      ultimately show ?thesis using none node by auto
    qed
  qed
qed

lemma finddata_ok:
  assumes ht: "ht_rep hash K ht M" and x: "agrees_with hash cmp K" "x \<in> K"
  shows "\<exists>ht'. fr_hash_table_finddata hash cmp ht x = Some (ht', case M (hash x) of None \<Rightarrow> 0 | Some d \<Rightarrow> d) \<and>
    ht_free ht' = ht_free ht \<and> ht_rep hash K ht' M"
proof -
  obtain k where k: "ht_ok hash K k ht M" using ht by (auto simp: ht_rep_def)
  obtain B f where f: "fr_hash_table_find hash cmp ht x = Some (ht\<lparr>ht_buckets := B\<rparr>, f)" "ht_ok hash K k (ht\<lparr>ht_buckets := B\<rparr>) M"
    "f = None \<longleftrightarrow> M (hash x) = None"
    "\<forall>e i chain. f = Some (e, i, chain) \<longrightarrow> e = unat (low k (hash x)) \<and> B ! e = Some chain \<and> i < length chain \<and>
       he_key (chain ! i) = hash x \<and> M (hash x) = Some (he_data (chain ! i))"
    by (rule find_returns [OF k x])
  have "(case f of None \<Rightarrow> 0 | Some (e, i, chain) \<Rightarrow> he_data (chain ! i)) = (case M (hash x) of None \<Rightarrow> 0 | Some d \<Rightarrow> d)"
    using f(3,4) by (auto split: option.split)
  then show ?thesis using f(1,2) by (auto simp: fr_hash_table_finddata_def ht_rep_def)
qed

lemma yank_ok:
  assumes ht: "ht_rep hash K ht M" and x: "agrees_with hash cmp K" "x \<in> K"
  shows "\<exists>ht'. fr_hash_table_yank hash cmp ht x = Some (ht', case M (hash x) of None \<Rightarrow> 0 | Some d \<Rightarrow> d) \<and>
    ht_free ht' = ht_free ht \<and> ht_rep hash K ht' (M(hash x := None))"
proof -
  obtain k where k: "ht_ok hash K k ht M" using ht by (auto simp: ht_rep_def)
  obtain B chain where B: "ht_ok hash K k (ht\<lparr>ht_buckets := B\<rparr>) M" "ready ht (hash x AND ht_mask ht) = Some (ht\<lparr>ht_buckets := B\<rparr>)"
    "hash x AND ht_mask ht = low k (hash x)" "B ! unat (low k (hash x)) = Some chain"
    "chain_ok hash K k B (unat (low k (hash x))) chain"
    "\<forall>n. n \<in> nodes B \<and> he_key n = hash x \<longrightarrow> n \<in> set chain" "set chain \<subseteq> nodes B"
    "case list_find cmp 0 chain (reverse (hash x)) x of
       None \<Rightarrow> M (hash x) = None
     | Some i \<Rightarrow> i < length chain \<and> he_key (chain ! i) = hash x \<and> M (hash x) = Some (he_data (chain ! i))"
    using find_ok [OF k x] unfolding Let_def by blast
  have ok: "buckets_ok hash K k B" and rep: "represents B M" using ht_okD [OF B(1)] by simp_all
  show ?thesis
  proof (cases "list_find cmp 0 chain (reverse (hash x)) x")
    case None
    then have "M (hash x) = None" using B(8) by simp
    moreover from this have "M(hash x := None) = M" by auto
    moreover have "fr_hash_table_yank hash cmp ht x = Some (ht\<lparr>ht_buckets := B\<rparr>, 0)"
      using B(2,3,4) None by (simp add: fr_hash_table_yank_def Let_def)
    ultimately show ?thesis using B(1) by (auto simp: ht_rep_def)
  next
    case (Some i)
    then have i: "i < length chain" "he_key (chain ! i) = hash x" "M (hash x) = Some (he_data (chain ! i))" using B(8) by simp_all
    define chain' where "chain' = list_delete chain i"
    note C = chain_facts [OF B(5)]
    have set': "set chain' = set chain - {chain ! i}" unfolding chain'_def by (rule list_delete_set [OF C(2) i(1)])
    have "sorted_wrt (<) (map he_reversed chain')"
    proof -
      define ys zs where "ys = take i chain" and "zs = drop (Suc i) chain"
      have "chain = ys @ chain ! i # zs" unfolding ys_def zs_def by (rule id_take_nth_drop [OF i(1)])
      then have "sorted_wrt (<) (map he_reversed (ys @ chain ! i # zs))" using C(1) by metis
      then show ?thesis by (simp add: chain'_def list_delete_def sorted_wrt_append flip: ys_def zs_def)
    qed
    note S = set_chain [OF ok B(4) this]
    have sub: "n \<in> set chain' \<Longrightarrow> n \<in> set chain \<or> (he_reversed n = reverse (he_key n) \<and> he_key n = hash (he_data n) \<and>
         he_data n \<noteq> 0 \<and> he_data n \<in> K \<and> he_key n = hash x)" for n using set' by blast
    have nodes: "n \<in> nodes (B[unat (low k (hash x)) := Some chain']) \<longleftrightarrow> n \<in> nodes B \<and> he_key n \<noteq> hash x" for n
    proof -
      have "n \<in> set chain \<and> he_key n = hash x \<longleftrightarrow> n = chain ! i"
        using sorted_distinct_keys [OF B(5) _ nth_mem [OF i(1)]] i(1,2) by auto
      then show ?thesis using S(2) [OF sub, of n] set' B(6,7) by blast
    qed
    have "(M(hash x := None)) h = Some d \<longleftrightarrow> (\<exists>n. (n \<in> nodes B \<and> he_key n \<noteq> hash x) \<and> he_key n = h \<and> he_data n = d)" for h d
      using rep by (cases "h = hash x") (auto simp: represents_def)
    then have "represents (B[unat (low k (hash x)) := Some chain']) (M(hash x := None))"
      unfolding represents_def Bex_def nodes by blast
    moreover have "card (dom M) = card (dom (M(hash x := None))) + 1"
      using i(3) card.remove [OF finite_hashes, of "hash x" "dom M"] by (simp add: domIff)
    ultimately have "ht_ok hash K k (ht\<lparr>ht_buckets := B[unat (low k (hash x)) := Some chain'], ht_num_elements := ht_num_elements ht - 1\<rparr>)
        (M(hash x := None))"
      using B(1) S(1) [OF sub] unfolding ht_ok_def by simp
    moreover have "fr_hash_table_yank hash cmp ht x = Some (ht\<lparr>ht_buckets := B[unat (low k (hash x)) := Some chain'],
        ht_num_elements := ht_num_elements ht - 1\<rparr>, he_data (chain ! i))"
      using B(2,3,4) Some by (simp add: fr_hash_table_yank_def chain'_def Let_def)
    ultimately show ?thesis using i(3) by (auto simp: ht_rep_def)
  qed
qed

lemma replace_ok:
  assumes ht: "ht_rep hash K ht M" and x: "agrees_with hash cmp K" "x \<in> K" "x \<noteq> 0" and dom: "dom M \<subseteq> hash ` K"
  shows "\<exists>ht'. fr_hash_table_replace hash cmp node_ok grow_ok ht x =
      Some (ht', case M (hash x) of None \<Rightarrow> [] | Some d \<Rightarrow> if ht_free ht then [d] else [],
        if node_ok \<or> M (hash x) \<noteq> None then 1 else 0) \<and> ht_free ht' = ht_free ht \<and>
    ht_rep hash K ht' (if node_ok \<or> M (hash x) \<noteq> None then M(hash x \<mapsto> x) else M)"
proof -
  obtain k where k: "ht_ok hash K k ht M" using ht by (auto simp: ht_rep_def)
  obtain B f where f: "fr_hash_table_find hash cmp ht x = Some (ht\<lparr>ht_buckets := B\<rparr>, f)" "ht_ok hash K k (ht\<lparr>ht_buckets := B\<rparr>) M"
    "f = None \<longleftrightarrow> M (hash x) = None"
    "\<forall>e i chain. f = Some (e, i, chain) \<longrightarrow> e = unat (low k (hash x)) \<and> B ! e = Some chain \<and> i < length chain \<and>
       he_key (chain ! i) = hash x \<and> M (hash x) = Some (he_data (chain ! i))"
    by (rule find_returns [OF k x(1,2)])
  define ht1 where "ht1 = ht\<lparr>ht_buckets := B\<rparr>"
  have rep1: "ht_rep hash K ht1 M" "ht_free ht1 = ht_free ht" using f(2) by (auto simp: ht1_def ht_rep_def)
  show ?thesis
  proof (cases f)
    case None
    then have none: "M (hash x) = None" using f(3) by simp
    obtain ht' where "fr_hash_table_insert hash cmp node_ok grow_ok ht1 x = Some (ht', if node_ok \<and> M (hash x) = None then 1 else 0)"
      "ht_free ht' = ht_free ht1" "ht_rep hash K ht' (if node_ok \<and> M (hash x) = None then M(hash x \<mapsto> x) else M)"
      using insert_ok [OF rep1(1) x dom] by blast
    then show ?thesis using None f(1) none x(3) rep1(2) by (auto simp: fr_hash_table_replace_def ht1_def)
  next
    case (Some r)
    then obtain e i chain where r: "f = Some (e, i, chain)" by (cases r) auto
    then have e: "e = unat (low k (hash x))" "B ! unat (low k (hash x)) = Some chain" and i: "i < length chain"
      and key: "he_key (chain ! i) = hash x" and M: "M (hash x) = Some (he_data (chain ! i))" using f(4) by auto
    have ok: "buckets_ok hash K k B" and rep: "represents B M" using ht_okD [OF f(2)] by simp_all
    have cc: "chain_ok hash K k B (unat (low k (hash x))) chain" by (rule buckets_okD(4) [OF ok unat_low e(2)])
    note C = chain_facts [OF cc]
    define node where "node = (chain ! i)\<lparr>he_data := x\<rparr>"
    have revs: "he_reversed (chain ! i) = reverse (hash x)" using C(3) i key by (metis nth_mem)
    have "map he_reversed (chain[i := node]) = map he_reversed chain"
      using i by (simp add: map_update node_def list_update_same_conv)
    then have s: "sorted_wrt (<) (map he_reversed (chain[i := node]))" using C(1) by simp
    note S = set_chain [OF ok e(2) s]
    have set': "set (chain[i := node]) = insert node (set chain - {chain ! i})" using C(2) i by (simp add: set_update_distinct)
    have sub: "n \<in> set (chain[i := node]) \<Longrightarrow> n \<in> set chain \<or> (he_reversed n = reverse (he_key n) \<and> he_key n = hash (he_data n) \<and>
         he_data n \<noteq> 0 \<and> he_data n \<in> K \<and> he_key n = hash x)" for n
      using set' x(2,3) key revs by (auto simp: node_def)
    have nodes: "n \<in> nodes (B[unat (low k (hash x)) := Some (chain[i := node])]) \<longleftrightarrow> n = node \<or> n \<in> nodes B \<and> he_key n \<noteq> hash x" for n
    proof -
      have "n \<in> set chain \<and> he_key n = hash x \<longleftrightarrow> n = chain ! i"
        using sorted_distinct_keys [OF cc _ nth_mem [OF i]] i key by auto
      moreover have "n \<in> nodes B \<and> he_key n = hash x \<Longrightarrow> n \<in> set chain" using chain_has_key [OF ok e(2)] by blast
      moreover have "n \<in> set chain \<Longrightarrow> n \<in> nodes B"
        using e(2) unat_low [of k "hash x"] buckets_okD(2) [OF ok] unfolding in_nodes by metis
      ultimately show ?thesis using S(2) [OF sub, of n] set' by blast
    qed
    have "(M(hash x \<mapsto> x)) h = Some d \<longleftrightarrow> (\<exists>n. (n = node \<or> n \<in> nodes B \<and> he_key n \<noteq> hash x) \<and> he_key n = h \<and> he_data n = d)" for h d
      using rep key by (cases "h = hash x") (auto simp: represents_def node_def)
    then have "represents (B[unat (low k (hash x)) := Some (chain[i := node])]) (M(hash x \<mapsto> x))"
      unfolding represents_def Bex_def nodes by blast
    moreover have "dom (M(hash x \<mapsto> x)) = dom M" using M by auto
    ultimately have "ht_ok hash K k (ht1\<lparr>ht_buckets := B[unat (low k (hash x)) := Some (chain[i := node])]\<rparr>) (M(hash x \<mapsto> x))"
      using f(2) S(1) [OF sub] unfolding ht_ok_def ht1_def by simp
    moreover have "fr_hash_table_replace hash cmp node_ok grow_ok ht x =
      Some (ht1\<lparr>ht_buckets := B[unat (low k (hash x)) := Some (chain[i := node])]\<rparr>,
        if ht_free ht then [he_data (chain ! i)] else [], 1)"
      using f(1) r x(3) e(1) by (simp add: fr_hash_table_replace_def ht1_def node_def)
    ultimately show ?thesis using M rep1(2) by (auto simp: ht_rep_def)
  qed
qed

lemma delete_ok:
  assumes ht: "ht_rep hash K ht M" and x: "agrees_with hash cmp K" "x \<in> K"
  shows "\<exists>ht'. fr_hash_table_delete hash cmp ht x =
      Some (ht', case M (hash x) of None \<Rightarrow> [] | Some d \<Rightarrow> if ht_free ht then [d] else [],
        if M (hash x) \<noteq> None then 1 else 0) \<and> ht_free ht' = ht_free ht \<and> ht_rep hash K ht' (M(hash x := None))"
proof -
  obtain ht' where y: "fr_hash_table_yank hash cmp ht x = Some (ht', case M (hash x) of None \<Rightarrow> 0 | Some d \<Rightarrow> d)"
    "ht_free ht' = ht_free ht" "ht_rep hash K ht' (M(hash x := None))" using yank_ok [OF assms] by blast
  have "d \<noteq> 0" if d: "M (hash x) = Some d" for d
  proof -
    obtain k where k: "ht_ok hash K k ht M" using ht by (auto simp: ht_rep_def)
    obtain n where n: "n \<in> nodes (ht_buckets ht)" "he_data n = d" using representsD(2) [OF ht_okD(5) [OF k] d] by blast
    then obtain e ch where "e < 2 ^ k" "ht_buckets ht ! e = Some ch" "n \<in> set ch"
      using buckets_okD(2) [OF ht_okD(4) [OF k]] by (auto simp: in_nodes)
    then show ?thesis using chain_okD(3) [OF buckets_okD(4) [OF ht_okD(4) [OF k]]] n(2) by blast
  qed
  then show ?thesis using y by (auto simp: fr_hash_table_delete_def split: option.split)
qed

end
