(* ===== verification/HashMap.thy ===== *)
theory HashMap
  imports HashTable
begin

text \<open>
  The properties of \<^verbatim>\<open>lib/hash.c\<close>: any sequence of operations on a created table behaves like a map,
  walks and iterators visit every element once, and freeing the table frees every element once. At
  the end, what happens to data whose hashes collide.
\<close>

section \<open>Sequences of operations\<close>

datatype hash_op =
  Insert nat bool bool
| Replace nat bool bool
| Find nat
| Yank nat
| Delete nat
| Num

text \<open>A step gives the table, the result, and the data handed to the \<open>free\<close> callback.\<close>

fun hash_step :: "(nat \<Rightarrow> u32) \<Rightarrow> nat cmp option \<Rightarrow> hash_op \<Rightarrow> htable \<Rightarrow> (htable \<times> int \<times> nat list) option" where
  "hash_step hash cmp (Insert x m g) ht = map_option (\<lambda>(ht', r). (ht', r, [])) (fr_hash_table_insert hash cmp m g ht x)"
| "hash_step hash cmp (Replace x m g) ht = map_option (\<lambda>(ht', freed, r). (ht', r, freed)) (fr_hash_table_replace hash cmp m g ht x)"
| "hash_step hash cmp (Find x) ht = map_option (\<lambda>(ht', d). (ht', int d, [])) (fr_hash_table_finddata hash cmp ht x)"
| "hash_step hash cmp (Yank x) ht = map_option (\<lambda>(ht', d). (ht', int d, [])) (fr_hash_table_yank hash cmp ht x)"
| "hash_step hash cmp (Delete x) ht = map_option (\<lambda>(ht', freed, r). (ht', r, freed)) (fr_hash_table_delete hash cmp ht x)"
| "hash_step hash cmp Num ht = Some (ht, fr_hash_table_num_elements ht, [])"

fun hash_exec :: "(nat \<Rightarrow> u32) \<Rightarrow> nat cmp option \<Rightarrow> hash_op list \<Rightarrow> htable \<Rightarrow> (htable \<times> (int \<times> nat list) list) option" where
  "hash_exec hash cmp [] ht = Some (ht, [])"
| "hash_exec hash cmp (oper # ops) ht =
     do { (ht1, r) \<leftarrow> hash_step hash cmp oper ht; (ht2, rs) \<leftarrow> hash_exec hash cmp ops ht1; Some (ht2, r # rs) }"

text \<open>The same on a map from hashes to data. \<open>fr\<close> tells whether there is a \<open>free\<close> callback.\<close>

fun map_step :: "(nat \<Rightarrow> u32) \<Rightarrow> bool \<Rightarrow> hash_op \<Rightarrow> (u32 \<rightharpoonup> nat) \<Rightarrow> (u32 \<rightharpoonup> nat) \<times> int \<times> nat list" where
  "map_step hash fr (Insert x m g) M =
     (if x \<noteq> 0 \<and> m \<and> M (hash x) = None then (M(hash x \<mapsto> x), 1, []) else (M, 0, []))"
| "map_step hash fr (Replace x m g) M =
     (if x \<noteq> 0 \<and> (m \<or> M (hash x) \<noteq> None)
      then (M(hash x \<mapsto> x), 1, case M (hash x) of None \<Rightarrow> [] | Some d \<Rightarrow> if fr then [d] else []) else (M, 0, []))"
| "map_step hash fr (Find x) M = (M, case M (hash x) of None \<Rightarrow> 0 | Some d \<Rightarrow> int d, [])"
| "map_step hash fr (Yank x) M = (M(hash x := None), case M (hash x) of None \<Rightarrow> 0 | Some d \<Rightarrow> int d, [])"
| "map_step hash fr (Delete x) M =
     (M(hash x := None), if M (hash x) = None then 0 else 1, case M (hash x) of None \<Rightarrow> [] | Some d \<Rightarrow> if fr then [d] else [])"
| "map_step hash fr Num M = (M, int (card (dom M)), [])"

fun map_exec :: "(nat \<Rightarrow> u32) \<Rightarrow> bool \<Rightarrow> hash_op list \<Rightarrow> (u32 \<rightharpoonup> nat) \<Rightarrow> (u32 \<rightharpoonup> nat) \<times> (int \<times> nat list) list" where
  "map_exec hash fr [] M = (M, [])"
| "map_exec hash fr (oper # ops) M =
     (let (M1, r) = map_step hash fr oper M; (M2, rs) = map_exec hash fr ops M1 in (M2, r # rs))"

fun op_data :: "hash_op \<Rightarrow> nat set" where
  "op_data (Insert x m g) = {x}" | "op_data (Replace x m g) = {x}" | "op_data (Find x) = {x}"
| "op_data (Yank x) = {x}" | "op_data (Delete x) = {x}" | "op_data Num = {}"

lemma hash_step_refines:
  assumes ht: "ht_rep hash K ht M" and x: "agrees_with hash cmp K" "op_data oper \<subseteq> K" and dom: "dom M \<subseteq> hash ` K"
  shows "\<exists>ht'. hash_step hash cmp oper ht = Some (ht', snd (map_step hash (ht_free ht) oper M)) \<and> ht_free ht' = ht_free ht \<and>
    ht_rep hash K ht' (fst (map_step hash (ht_free ht) oper M)) \<and> dom (fst (map_step hash (ht_free ht) oper M)) \<subseteq> hash ` K"
proof (cases oper)
  case (Insert x m g)
  show ?thesis
  proof (cases "x = 0")
    case True
    then show ?thesis using Insert ht dom by (simp add: fr_hash_table_insert_def)
  next
    case False
    then show ?thesis using insert_ok [OF ht x(1) _ False dom, of m g] x(2) Insert dom by (auto split: if_splits)
  qed
next
  case (Replace x m g)
  show ?thesis
  proof (cases "x = 0")
    case True
    then show ?thesis using Replace ht dom by (simp add: fr_hash_table_replace_def)
  next
    case False
    then show ?thesis using replace_ok [OF ht x(1) _ False dom, of m g] x(2) Replace dom by (fastforce split: if_splits option.splits)
  qed
next
  case (Find x)
  then show ?thesis using finddata_ok [OF ht x(1), of x] x(2) dom by (auto split: option.splits)
next
  case (Yank x)
  then show ?thesis using yank_ok [OF ht x(1), of x] x(2) dom by (auto split: option.splits)
next
  case (Delete x)
  then show ?thesis using delete_ok [OF ht x(1), of x] x(2) dom by (fastforce split: option.splits)
next
  case Num
  then show ?thesis using ht dom by (auto simp: fr_hash_table_num_elements_def ht_rep_def ht_ok_def)
qed

lemma hash_exec_refines:
  "ht_rep hash K ht M \<Longrightarrow> agrees_with hash cmp K \<Longrightarrow> \<Union> (op_data ` set ops) \<subseteq> K \<Longrightarrow> dom M \<subseteq> hash ` K \<Longrightarrow>
   \<exists>ht'. hash_exec hash cmp ops ht = Some (ht', snd (map_exec hash (ht_free ht) ops M)) \<and>
     ht_rep hash K ht' (fst (map_exec hash (ht_free ht) ops M)) \<and> ht_free ht' = ht_free ht"
proof (induction ops arbitrary: ht M)
  case (Cons oper ops)
  obtain M1 r where s: "map_step hash (ht_free ht) oper M = (M1, r)" by (rule prod.exhaust)
  obtain ht1 where h: "hash_step hash cmp oper ht = Some (ht1, r)" "ht_free ht1 = ht_free ht" "ht_rep hash K ht1 M1" "dom M1 \<subseteq> hash ` K"
    using hash_step_refines [OF Cons.prems(1,2) _ Cons.prems(4), of oper] Cons.prems(3) s by auto
  from Cons.IH [OF h(3) Cons.prems(2) _ h(4)] Cons.prems(3) h(1,2) s show ?case
    by (auto simp: Let_def split: prod.split)
qed simp

lemma hash_create_rep:
  assumes "fr_hash_table_create has_free m1 m2 = Some ht"
  shows "ht_rep hash K ht Map.empty" "ht_free ht = has_free"
proof -
  have ht: "ht = \<lparr>ht_num_elements = 0, ht_num_buckets = 64, ht_next_grow = 160, ht_mask = 63, ht_free = has_free,
      ht_buckets = (replicate 64 None)[0 := Some []]\<rparr>"
    using assms by (simp add: fr_hash_table_create_def FR_HASH_NUM_BUCKETS_def split: if_splits)
  have e: "(replicate 64 None)[0 := Some []] ! e = (if e = 0 then Some [] else (None :: hnode list option))" if "e < 64" for e
    using that by (simp add: nth_list_update)
  have "buckets_ok hash K 6 ((replicate 64 None)[0 := Some []])"
    unfolding buckets_ok_def by (auto simp: e chain_ok_def split: if_splits)
  moreover have "nodes ((replicate 64 None)[0 := Some []]) = {}"
    by (auto simp: in_nodes e split: if_splits)
  ultimately show "ht_rep hash K ht Map.empty"
    unfolding ht_rep_def ht_ok_def ht
    by (intro exI [of _ 6]) (simp add: represents_def mask_eq_exp_minus_1)
  show "ht_free ht = has_free" by (simp add: ht)
qed

section \<open>Walks and iterators\<close>

lemma walk_chain_append:
  "walk_chain call (xs @ ys) ctx =
     (let (rcode, ctx1) = walk_chain call xs ctx in if rcode \<noteq> 0 then (rcode, ctx1) else walk_chain call ys ctx1)"
  by (induction call xs ctx rule: walk_chain.induct) (auto simp: Let_def split: prod.split)

text \<open>What a client gets that calls the iterator until it returns NULL, at most \<open>fuel\<close> times.\<close>

fun iterate :: "nat \<Rightarrow> (htable \<times> hiter \<times> nat) option \<Rightarrow> nat list" where
  "iterate 0 state = []"
| "iterate (Suc fuel) None = []"
| "iterate (Suc fuel) (Some (ht, iter, d)) = (if d = 0 then [] else d # iterate fuel (fr_hash_table_iter_next ht iter))"

lemma search_next: "iter_search i ht = fr_hash_table_iter_next ht \<lparr>it_bucket = i, it_node = []\<rparr>"
  by (cases i) (simp_all add: fr_hash_table_iter_next_def)

lemma iterate_chain:
  assumes "\<forall>n \<in> set rest. he_data n \<noteq> 0" "length rest + f \<le> fuel"
    "\<And>fuel'. f \<le> fuel' \<Longrightarrow> iterate fuel' (fr_hash_table_iter_next ht \<lparr>it_bucket = i, it_node = []\<rparr>) = ds"
  shows "iterate fuel (fr_hash_table_iter_next ht \<lparr>it_bucket = i, it_node = rest\<rparr>) = map he_data rest @ ds"
  using assms(1,2)
proof (induction rest arbitrary: fuel)
  case Nil
  then show ?case using assms(3) by simp
next
  case (Cons n rest)
  then obtain fuel' where f: "fuel = Suc fuel'" "length rest + f \<le> fuel'" by (cases fuel) auto
  have "fr_hash_table_iter_next ht \<lparr>it_bucket = i, it_node = n # rest\<rparr> = Some (ht, \<lparr>it_bucket = i, it_node = rest\<rparr>, he_data n)"
    by (simp add: fr_hash_table_iter_next_def)
  then show ?case using Cons.IH [OF _ f(2)] Cons.prems(1) f(1) by simp
qed

lemma prefix_le: "j \<le> k \<Longrightarrow> unat (low j h) \<le> unat (low k h)"
proof -
  assume "j \<le> k"
  then have "low k h AND low j h = low j h" by (intro bit_word_eqI) (auto simp: bit_and_iff bit_low)
  then have "low j h \<le> low k h" by (metis word_and_le2)
  then show ?thesis by (simp add: word_le_nat_alt)
qed

text \<open>The buckets below \<open>n\<close>, when those from \<open>n\<close> on are set up: their elements, as walks and iterators give them.\<close>

lemma visits:
  "n \<le> 2 ^ k \<Longrightarrow> ht_ok hash K k ht M \<Longrightarrow> \<forall>e. n \<le> e \<and> e < 2 ^ k \<longrightarrow> ht_buckets ht ! e \<noteq> None \<Longrightarrow>
   \<exists>ns. set ns = {m \<in> nodes (ht_buckets ht). unat (low k (he_key m)) < n} \<and> distinct (map he_key ns) \<and>
     (\<forall>(call :: 'c \<Rightarrow> nat \<Rightarrow> int \<times> 'c) ctx. \<exists>ht'. walk_buckets call n ht ctx = Some (ht', walk_chain call ns ctx) \<and>
        ht_ok hash K k ht' M \<and> ht_free ht' = ht_free ht) \<and>
     (\<forall>fuel. length ns + 1 \<le> fuel \<longrightarrow> iterate fuel (fr_hash_table_iter_next ht \<lparr>it_bucket = n, it_node = []\<rparr>) = map he_data ns)"
proof (induction n arbitrary: ht)
  case 0
  have "iterate fuel (fr_hash_table_iter_next ht \<lparr>it_bucket = 0, it_node = []\<rparr>) = []" for fuel
    by (cases fuel) (simp_all add: fr_hash_table_iter_next_def)
  then show ?case using 0(2) by (intro exI [of _ "[]"]) auto
next
  case (Suc i)
  let ?i = "of_nat i :: u32"
  note H = ht_okD [OF Suc.prems(2)]
  have "i < 2 ^ k" using Suc.prems(1) by simp
  moreover have "(2 :: nat) ^ k \<le> 2 ^ 31" using H(2) by (intro power_increasing) simp_all
  ultimately have i: "i < 2 ^ k" "unat ?i = i" by (simp_all add: unsigned_of_nat take_bit_nat_eq_self)
  obtain B chain where B: "ready ht ?i = Some (ht\<lparr>ht_buckets := B\<rparr>)" "buckets_ok hash K k B" "nodes B = nodes (ht_buckets ht)"
    "B ! i = Some chain" "chain_ok hash K k B i chain"
    "\<forall>j < 2 ^ k. i \<le> j \<and> ht_buckets ht ! j \<noteq> None \<longrightarrow> B ! j = ht_buckets ht ! j"
    using ready_ok [OF H(3,4), of ?i] i by auto
  define ht1 where "ht1 = ht\<lparr>ht_buckets := B\<rparr>"
  have ok1: "ht_ok hash K k ht1 M" using Suc.prems(2) B(2,3) by (simp add: ht1_def ht_ok_def represents_def)
  have up: "B ! e \<noteq> None" if "i \<le> e" "e < 2 ^ k" for e
    using B(4,6) Suc.prems(3) that by (cases "e = i") auto
  have chain: "set chain = {m \<in> nodes B. unat (low k (he_key m)) = i}"
  proof (intro set_eqI iffI)
    fix m assume m: "m \<in> set chain"
    have h: "unat (home B k (he_key m)) = i" by (rule chain_okD(5) [OF B(5) m])
    obtain j where j: "j \<le> k" "home B k (he_key m) = low j (he_key m)" using home_level by blast
    have "i \<le> unat (low k (he_key m))" using prefix_le [OF j(1)] h j(2) by metis
    then have "B ! unat (low k (he_key m)) \<noteq> None" using up unat_low by blast
    then have "unat (low k (he_key m)) = i" using home_top [of B k "he_key m"] h by metis
    moreover have "m \<in> nodes B" using m B(4) i(1) buckets_okD(2) [OF B(2)] unfolding in_nodes by metis
    ultimately show "m \<in> {m \<in> nodes B. unat (low k (he_key m)) = i}" by simp
  next
    fix m assume "m \<in> {m \<in> nodes B. unat (low k (he_key m)) = i}"
    then show "m \<in> set chain" using chain_has_key [OF B(2), of "he_key m" chain m] B(4) by simp
  qed
  obtain ns where ns: "set ns = {m \<in> nodes B. unat (low k (he_key m)) < i}" "distinct (map he_key ns)"
    "\<forall>(call :: 'c \<Rightarrow> nat \<Rightarrow> int \<times> 'c) ctx. \<exists>ht'. walk_buckets call i ht1 ctx = Some (ht', walk_chain call ns ctx) \<and>
        ht_ok hash K k ht' M \<and> ht_free ht' = ht_free ht1"
    "\<forall>fuel. length ns + 1 \<le> fuel \<longrightarrow> iterate fuel (fr_hash_table_iter_next ht1 \<lparr>it_bucket = i, it_node = []\<rparr>) = map he_data ns"
    using Suc.IH [OF _ ok1] i(1) up by (auto simp: ht1_def)
  have A1: "set (chain @ ns) = {m \<in> nodes (ht_buckets ht). unat (low k (he_key m)) < Suc i}"
    using chain ns(1) B(3) by auto
  have A2: "distinct (map he_key (chain @ ns))"
  proof -
    have "inj_on he_key (set chain)" using sorted_distinct_keys [OF B(5)] by (auto simp: inj_on_def)
    moreover have "he_key a \<noteq> he_key b" if "a \<in> set chain" "b \<in> set ns" for a b
      using that chain ns(1) by force
    ultimately show ?thesis using chain_facts(2) [OF B(5)] ns(2) by (auto simp: distinct_map)
  qed
  have A3: "\<exists>ht'. walk_buckets call (Suc i) ht ctx = Some (ht', walk_chain call (chain @ ns) ctx) \<and>
      ht_ok hash K k ht' M \<and> ht_free ht' = ht_free ht" for call :: "'c \<Rightarrow> nat \<Rightarrow> int \<times> 'c" and ctx
  proof -
    obtain r ctx1 where w: "walk_chain call chain ctx = (r, ctx1)" by (rule prod.exhaust)
    obtain ht' where "walk_buckets call i ht1 ctx1 = Some (ht', walk_chain call ns ctx1)" "ht_ok hash K k ht' M" "ht_free ht' = ht_free ht1"
      using ns(3) by blast
    then show ?thesis using B(1,4) w ok1 by (auto simp: walk_chain_append ht1_def)
  qed
  have A4: "iterate fuel (fr_hash_table_iter_next ht \<lparr>it_bucket = Suc i, it_node = []\<rparr>) = map he_data (chain @ ns)"
    if f: "length (chain @ ns) + 1 \<le> fuel" for fuel
  proof -
    have start: "fr_hash_table_iter_next ht \<lparr>it_bucket = Suc i, it_node = []\<rparr> =
        fr_hash_table_iter_next ht1 \<lparr>it_bucket = i, it_node = chain\<rparr>"
    proof (cases chain)
      case Nil
      then show ?thesis using B(1,4) by (simp add: fr_hash_table_iter_next_def [of ht] search_next [of i] ht1_def)
    next
      case (Cons n rest)
      then show ?thesis using B(1,4) by (simp add: fr_hash_table_iter_next_def ht1_def)
    qed
    have "\<forall>n \<in> set chain. he_data n \<noteq> 0" using chain_okD(3) [OF B(5)] by blast
    then show ?thesis unfolding start map_append
      by (rule iterate_chain [where f = "length ns + 1"]) (use f ns(4) in auto)
  qed
  show ?case by (intro exI [of _ "chain @ ns"] conjI allI impI A1 A2 A3 A4)
qed

lemma distinct_concat_nth:
  "(\<And>i. i < length xss \<Longrightarrow> distinct (xss ! i)) \<Longrightarrow>
   (\<And>i j. i < j \<Longrightarrow> j < length xss \<Longrightarrow> set (xss ! i) \<inter> set (xss ! j) = {}) \<Longrightarrow> distinct (concat xss)"
proof (induction xss)
  case (Cons xs xss)
  have "set xs \<inter> set ys = {}" if "ys \<in> set xss" for ys
    using Cons.prems(2) [of 0] that by (fastforce simp: in_set_conv_nth)
  moreover have "distinct (concat xss)"
    using Cons.prems(1) [of "Suc i" for i] Cons.prems(2) [of "Suc i" "Suc j" for i j] by (intro Cons.IH) auto
  ultimately show ?case using Cons.prems(1) [of 0] by auto
qed simp

fun visit :: "('c \<Rightarrow> nat \<Rightarrow> int \<times> 'c) \<Rightarrow> nat list \<Rightarrow> 'c \<Rightarrow> int \<times> 'c" where
  "visit call [] ctx = (0, ctx)"
| "visit call (d # ds) ctx = (let (rcode, ctx1) = call ctx d in if rcode \<noteq> 0 then (rcode, ctx1) else visit call ds ctx1)"

lemma walk_chain_visit: "walk_chain call ns ctx = visit call (map he_data ns) ctx"
  by (induction ns arbitrary: ctx) (simp_all add: Let_def split: prod.split)

lemma nodes_data_inj: "ht_ok hash K k ht M \<Longrightarrow> inj_on he_data (nodes (ht_buckets ht)) \<and> he_data ` nodes (ht_buckets ht) = ran M"
proof
  assume ht: "ht_ok hash K k ht M"
  note H = ht_okD [OF ht] and K = buckets_okD [OF ht_okD(4) [OF ht]]
  have ok: "\<exists>e < 2 ^ k. \<exists>ch. ht_buckets ht ! e = Some ch \<and> n \<in> set ch \<and> chain_ok hash K k (ht_buckets ht) e ch"
    if "n \<in> nodes (ht_buckets ht)" for n using that K(2,4) unfolding in_nodes by metis
  show "inj_on he_data (nodes (ht_buckets ht))"
  proof (rule inj_onI)
    fix a b assume a: "a \<in> nodes (ht_buckets ht)" and b: "b \<in> nodes (ht_buckets ht)" and d: "he_data a = he_data b"
    obtain e ch where e: "ht_buckets ht ! e = Some ch" "a \<in> set ch" "chain_ok hash K k (ht_buckets ht) e ch" using ok [OF a] by blast
    obtain e' ch' where e': "ht_buckets ht ! e' = Some ch'" "b \<in> set ch'" "chain_ok hash K k (ht_buckets ht) e' ch'" using ok [OF b] by blast
    have key: "he_key a = he_key b" using chain_okD(2) [OF e(3,2)] chain_okD(2) [OF e'(3,2)] d by simp
    then have "e = e'" using chain_okD(5) [OF e(3,2)] chain_okD(5) [OF e'(3,2)] by simp
    then show "a = b" using sorted_distinct_keys [OF e(3,2) _ key] e e' by simp
  qed
  show "he_data ` nodes (ht_buckets ht) = ran M"
    using H(5) unfolding represents_def ran_def by auto
qed

lemma free_all:
  assumes ht: "ht_ok hash K k ht M"
  shows "distinct (fr_hash_table_free ht)" "set (fr_hash_table_free ht) = (if ht_free ht then ran M else {})"
proof -
  note H = ht_okD [OF ht] and K = buckets_okD [OF ht_okD(4) [OF ht]]
  define ds :: "hnode list option \<Rightarrow> nat list"
    where "ds = (\<lambda>b. case b of None \<Rightarrow> [] | Some chain \<Rightarrow> if ht_free ht then filter (\<lambda>d. d \<noteq> 0) (map he_data chain) else [])"
  have free: "fr_hash_table_free ht = concat (map ds (ht_buckets ht))" by (simp add: fr_hash_table_free_def ds_def)
  have ds: "ds (Some ch) = (if ht_free ht then map he_data ch else [])" if "e < 2 ^ k" "ht_buckets ht ! e = Some ch" for e ch
    using chain_okD(3) [OF K(4) [OF that]] by (auto simp: ds_def filter_id_conv)
  have ch_ok: "set ch \<subseteq> nodes (ht_buckets ht)" if "e < 2 ^ k" "ht_buckets ht ! e = Some ch" for e ch
    using that K(2) unfolding in_nodes subset_iff by metis
  note inj = nodes_data_inj [OF ht]
  show "distinct (fr_hash_table_free ht)"
    unfolding free
  proof (rule distinct_concat_nth)
    fix e assume "e < length (map ds (ht_buckets ht))"
    then have e: "e < 2 ^ k" using K(2) by simp
    show "distinct (map ds (ht_buckets ht) ! e)"
    proof (cases "ht_buckets ht ! e")
      case None
      then show ?thesis using e K(2) by (simp add: ds_def)
    next
      case (Some ch)
      have "distinct (map he_data ch)"
        using chain_facts(2) [OF K(4) [OF e Some]] inj ch_ok [OF e Some] by (auto simp: distinct_map intro: inj_on_subset)
      then show ?thesis using ds [OF e Some] Some e K(2) by simp
    qed
  next
    fix e e' assume "e < e'" "e' < length (map ds (ht_buckets ht))"
    then have e: "e < 2 ^ k" "e' < 2 ^ k" "e \<noteq> e'" using K(2) by simp_all
    show "set (map ds (ht_buckets ht) ! e) \<inter> set (map ds (ht_buckets ht) ! e') = {}"
    proof (cases "ht_buckets ht ! e = None \<or> ht_buckets ht ! e' = None")
      case True
      then show ?thesis using e K(2) by (auto simp: ds_def)
    next
      case False
      then obtain ch ch' where c: "ht_buckets ht ! e = Some ch" "ht_buckets ht ! e' = Some ch'" by auto
      have "he_data a \<noteq> he_data b" if "a \<in> set ch" "b \<in> set ch'" for a b
        using chain_okD(2,5) [OF K(4) [OF e(1) c(1)] that(1)] chain_okD(2,5) [OF K(4) [OF e(2) c(2)] that(2)] e(3) by metis
      then show ?thesis using ds [OF e(1) c(1)] ds [OF e(2) c(2)] c e K(2) by (auto split: if_splits)
    qed
  qed
  show "set (fr_hash_table_free ht) = (if ht_free ht then ran M else {})"
  proof (intro set_eqI iffI)
    fix d assume "d \<in> set (fr_hash_table_free ht)"
    then obtain b where "b \<in> set (ht_buckets ht)" "d \<in> set (ds b)" by (auto simp: free)
    then obtain e where e: "e < 2 ^ k" "d \<in> set (ds (ht_buckets ht ! e))" using K(2) by (metis in_set_conv_nth)
    then obtain ch where c: "ht_buckets ht ! e = Some ch" by (cases "ht_buckets ht ! e") (auto simp: ds_def)
    then show "d \<in> (if ht_free ht then ran M else {})"
      using e ds [OF e(1) c] ch_ok [OF e(1) c] inj by (auto split: if_splits)
  next
    fix d assume d: "d \<in> (if ht_free ht then ran M else {})"
    then obtain n where n: "n \<in> nodes (ht_buckets ht)" "d = he_data n" "ht_free ht" using inj by (auto split: if_splits)
    then obtain e ch where e: "e < 2 ^ k" "ht_buckets ht ! e = Some ch" "n \<in> set ch" using K(2) by (auto simp: in_nodes)
    then have "d \<in> set (ds (ht_buckets ht ! e))" using ds [OF e(1,2)] n by simp
    then show "d \<in> set (fr_hash_table_free ht)" using e(1) K(2) nth_mem [of e "ht_buckets ht"] by (auto simp: free)
  qed
qed

section \<open>Properties\<close>

text \<open>
  C12: From creation on, and whatever allocations fail, every sequence of insertions, replacements,
  searches, removals and counts runs to its end and gives the results and freed data of a map from
  hashes to data, for data whose comparison is 0 when their hashes are equal. The table grows with the number of
  hashes: \<open>next_grow\<close>, its largest counter, stays below twice that number.
\<close>

theorem hash_table_refines_map:
  assumes "agrees_with hash cmp K" "\<Union> (op_data ` set ops) \<subseteq> K" "fr_hash_table_create has_free m1 m2 = Some ht"
  shows "\<exists>ht'. hash_exec hash cmp ops ht = Some (ht', snd (map_exec hash has_free ops Map.empty)) \<and>
    ht_rep hash K ht' (fst (map_exec hash has_free ops Map.empty)) \<and>
    ht_next_grow ht' \<le> max 160 (2 * int (card (hash ` K)))"
proof -
  obtain ht' where ht': "hash_exec hash cmp ops ht = Some (ht', snd (map_exec hash has_free ops Map.empty))"
    "ht_rep hash K ht' (fst (map_exec hash has_free ops Map.empty))"
    using hash_exec_refines [OF hash_create_rep(1) [OF assms(3)] assms(1,2)] hash_create_rep(2) [OF assms(3)] by auto
  obtain k where k: "ht_next_grow ht' = 5 * 2 ^ (k - 1)" "k = 6 \<or> 5 * 2 ^ (k - 2) \<le> card (hash ` K)" "6 \<le> k"
    using ht'(2) unfolding ht_rep_def ht_ok_def by blast
  have "ht_next_grow ht' \<le> max 160 (2 * int (card (hash ` K)))"
  proof (cases "k = 6")
    case False
    then have "5 * 2 ^ (k - 2) \<le> card (hash ` K)" using k(2) by simp
    then have "int (5 * 2 ^ (k - 2)) \<le> int (card (hash ` K))" by (simp only: of_nat_le_iff)
    moreover have "k - 1 = Suc (k - 2)" using k(3) by simp
    ultimately show ?thesis using k(1) by simp
  qed (simp add: k(1))
  with ht' show ?thesis by blast
qed

theorem hash_table_refines_map_witness:
  "map_option snd (Option.bind (fr_hash_table_create True True True)
     (hash_exec of_nat None [Insert 3 True True, Insert 67 True True, Insert 3 True True, Find 67, Delete 3])) =
   Some [(1, []), (1, []), (0, []), (67, []), (1, [3])]"
proof -
  let ?ops = "[Insert 3 True True, Insert 67 True True, Insert 3 True True, Find 67, Delete 3]"
  obtain ht where ht: "fr_hash_table_create True True True = Some ht" by (simp add: fr_hash_table_create_def)
  have "agrees_with of_nat None {3, 67}" by (simp add: agrees_with_def)
  then obtain ht' where "hash_exec of_nat None ?ops ht = Some (ht', snd (map_exec of_nat True ?ops Map.empty))"
    using hash_table_refines_map [OF _ _ ht, of of_nat None "{3, 67}" ?ops] by auto
  then show ?thesis using ht by simp
qed

text \<open>
  C40: In a table that holds the map \<open>M\<close>, a walk and an iterator give the data of the map in the same
  order, each once, whichever buckets were set up before; the iterator then returns NULL. Freeing the
  table hands each of them to the \<open>free\<close> callback once.
\<close>

theorem hash_table_visits_all:
  assumes "ht_rep hash K ht M"
  shows "\<exists>ds. distinct ds \<and> set ds = ran M \<and>
    (\<forall>(call :: 'c \<Rightarrow> nat \<Rightarrow> int \<times> 'c) ctx. \<exists>ht'. fr_hash_table_walk call ht ctx = Some (ht', visit call ds ctx) \<and> ht_rep hash K ht' M) \<and>
    (\<forall>fuel > length ds. iterate fuel (fr_hash_table_iter_init ht) = ds) \<and>
    distinct (fr_hash_table_free ht) \<and> set (fr_hash_table_free ht) = (if ht_free ht then ran M else {})"
proof -
  obtain k where k: "ht_ok hash K k ht M" using assms by (auto simp: ht_rep_def)
  note inj = nodes_data_inj [OF k]
  obtain ns where ns: "set ns = nodes (ht_buckets ht)" "distinct (map he_key ns)"
    "\<forall>(call :: 'c \<Rightarrow> nat \<Rightarrow> int \<times> 'c) ctx. \<exists>ht'. walk_buckets call (2 ^ k) ht ctx = Some (ht', walk_chain call ns ctx) \<and>
        ht_ok hash K k ht' M \<and> ht_free ht' = ht_free ht"
    "\<forall>fuel. length ns + 1 \<le> fuel \<longrightarrow> iterate fuel (fr_hash_table_iter_next ht \<lparr>it_bucket = 2 ^ k, it_node = []\<rparr>) = map he_data ns"
    using visits [OF order.refl k] unat_low by fastforce
  have "distinct (map he_data ns)" using ns(1,2) inj by (auto simp: distinct_map)
  moreover have "set (map he_data ns) = ran M" using ns(1) inj by simp
  moreover have "\<exists>ht'. fr_hash_table_walk call ht ctx = Some (ht', visit call (map he_data ns) ctx) \<and> ht_rep hash K ht' M"
    for call :: "'c \<Rightarrow> nat \<Rightarrow> int \<times> 'c" and ctx
    using ns(3) ht_okD(7) [OF k] unfolding fr_hash_table_walk_def walk_chain_visit ht_rep_def by metis
  moreover have "iterate fuel (fr_hash_table_iter_init ht) = map he_data ns" if "length (map he_data ns) < fuel" for fuel
    using ns(4) that ht_okD(7) [OF k] by (simp add: fr_hash_table_iter_init_def)
  ultimately show ?thesis using free_all [OF k] by (intro exI [of _ "map he_data ns"]) simp
qed

theorem hash_table_visits_all_witness:
  "\<exists>ht ds. map_option fst (Option.bind (fr_hash_table_create True True True)
       (hash_exec of_nat None [Insert 3 True True, Insert 67 True True])) = Some ht \<and>
     distinct ds \<and> set ds = {3, 67} \<and> iterate (Suc (length ds)) (fr_hash_table_iter_init ht) = ds"
proof -
  let ?ops = "[Insert 3 True True, Insert 67 True True]"
  obtain ht where ht: "fr_hash_table_create True True True = Some ht" by (simp add: fr_hash_table_create_def)
  have "agrees_with of_nat None {3, 67}" by (simp add: agrees_with_def)
  then obtain ht' where h: "hash_exec of_nat None ?ops ht = Some (ht', snd (map_exec of_nat True ?ops Map.empty))"
    "ht_rep of_nat {3, 67} ht' (fst (map_exec of_nat True ?ops Map.empty))"
    using hash_exec_refines [OF hash_create_rep(1) [OF ht], where hash = of_nat and cmp = None and K = "{3, 67}" and ops = ?ops] hash_create_rep(2) [OF ht] by auto
  from hash_table_visits_all [OF h(2)]
  obtain ds where "distinct ds" "set ds = ran (fst (map_exec of_nat True ?ops Map.empty))"
    "\<forall>fuel > length ds. iterate fuel (fr_hash_table_iter_init ht') = ds" by (elim exE conjE) (rule that)
  then have "distinct ds" "set ds = ran (fst (map_exec of_nat True ?ops Map.empty))"
    "iterate (Suc (length ds)) (fr_hash_table_iter_init ht') = ds" by simp_all
  moreover have "ran (fst (map_exec of_nat True ?ops Map.empty)) = {3, 67}" by auto
  moreover have "map_option fst (Option.bind (fr_hash_table_create True True True) (hash_exec of_nat None ?ops)) = Some ht'"
    using ht h(1) by simp
  ultimately show ?thesis by (intro exI [of _ ht'] exI [of _ ds]) simp
qed

section \<open>Collisions and the hash functions\<close>

text \<open>
  Of two data with the same hash, the greater one must be inserted first: otherwise it is put behind
  the other one, where a search does not look for it, and it can be inserted a second time.
\<close>

lemma collision_lost:
  "map_option snd (Option.bind (fr_hash_table_create True True True)
     (hash_exec (\<lambda>_. 0) (Some (\<lambda>x y. int x - int y)) [Insert 1 True True, Insert 2 True True, Find 2, Insert 2 True True, Find 1])) =
   Some [(1, []), (1, []), (0, []), (1, []), (1, [])]"
  by code_simp

text \<open>\<open>fr_hash_update\<close> goes on from what it returned itself, and not from what \<open>fr_hash\<close> returns.\<close>

lemma hash_update_append: "fr_hash_update (a @ b) h = fr_hash_update b (fr_hash_update a h)"
  by (induction a arbitrary: h) simp_all

lemma hash_not_continued: "fr_hash_update [2] (fr_hash [1]) \<noteq> fr_hash [1, 2]"
  by code_simp

end
