(* ===== verification/RbTree.thy ===== *)
theory RbTree
  imports Prelude "HOL-Library.Monad_Syntax"
begin

text \<open>
  The red-black tree of \<^verbatim>\<open>lib/rbtree.c\<close>. A node of the source has links to its children and to
  its parent. Here a subtree is a \<open>tree\<close>, and a pointer to a node of a tree is a location: the
  subtree that hangs at the node and the path of parents above it, the nearest parent first,
  each a \<open>frame\<close> that says on which side the path left it. \<open>NIL\<close> is the one shared sentinel;
  it is black and its children are NIL. A step that would write into the sentinel, or follow a
  parent that is not there, makes the operation \<open>None\<close>.

  The comparison callback, which may read mutable memory behind the element pointers, and the
  success of the allocation are arguments. The elements handed to the tree's \<open>free\<close> callback are
  returned as a list. The mutex of a tree created with \<^verbatim>\<open>RBTREE_FLAG_LOCK\<close> is not modelled.
\<close>

section \<open>Nodes, locations and the tree\<close>

datatype colour = BLACK | RED

datatype 'a tree = NIL | Node colour "'a tree" 'a "'a tree"

datatype 'a frame = FL colour 'a "'a tree" | FR colour "'a tree" 'a

type_synonym 'a location = "'a tree \<times> 'a frame list"

record 'a rbtree =
  rb_root :: "'a tree"
  rb_num_elements :: int
  rb_free :: bool
  rb_replace :: bool

definition rbtree_create :: "bool \<Rightarrow> bool \<Rightarrow> bool \<Rightarrow> bool \<Rightarrow> 'a rbtree option" where
  "rbtree_create compare talloc_ok node_free replace_flag =
     (if \<not> compare then None
      else if \<not> talloc_ok then None
      else Some \<lparr>rb_root = NIL, rb_num_elements = 0, rb_free = node_free, rb_replace = replace_flag\<rparr>)"

fun node_colour :: "'a tree \<Rightarrow> colour" where
  "node_colour NIL = BLACK"
| "node_colour (Node c l d r) = c"

fun node_left :: "'a tree \<Rightarrow> 'a tree" where
  "node_left NIL = NIL"
| "node_left (Node c l d r) = l"

fun node_right :: "'a tree \<Rightarrow> 'a tree" where
  "node_right NIL = NIL"
| "node_right (Node c l d r) = r"

text \<open>The guarded assignment \<open>if (x != NIL) x->colour = c\<close>.\<close>

fun set_colour :: "colour \<Rightarrow> 'a tree \<Rightarrow> 'a tree" where
  "set_colour c NIL = NIL"
| "set_colour c (Node _ l d r) = Node c l d r"

fun set_left_colour :: "colour \<Rightarrow> 'a tree \<Rightarrow> 'a tree" where
  "set_left_colour c NIL = NIL"
| "set_left_colour c (Node k l d r) = Node k (set_colour c l) d r"

fun set_right_colour :: "colour \<Rightarrow> 'a tree \<Rightarrow> 'a tree" where
  "set_right_colour c NIL = NIL"
| "set_right_colour c (Node k l d r) = Node k l d (set_colour c r)"

fun frame_colour :: "'a frame \<Rightarrow> colour" where
  "frame_colour (FL c d r) = c"
| "frame_colour (FR c l d) = c"

fun frame_data :: "'a frame \<Rightarrow> 'a" where
  "frame_data (FL c d r) = d"
| "frame_data (FR c l d) = d"

fun close_frame :: "colour \<Rightarrow> 'a tree \<Rightarrow> 'a frame \<Rightarrow> 'a tree" where
  "close_frame c t (FL _ d r) = Node c t d r"
| "close_frame c t (FR _ l d) = Node c l d t"

text \<open>The whole tree around a location.\<close>

fun zip_up :: "'a tree \<Rightarrow> 'a frame list \<Rightarrow> 'a tree" where
  "zip_up t [] = t"
| "zip_up t (f # fs) = zip_up (close_frame (frame_colour f) t f) fs"

section \<open>Rotations\<close>

text \<open>The subtree at \<open>x\<close> after \<open>rotate_left(tree, x)\<close>; the links to the parent are the path's.\<close>

fun rotate_left :: "'a tree \<Rightarrow> 'a tree option" where
  "rotate_left (Node cx lx dx (Node cy ly dy ry)) = Some (Node cy (Node cx lx dx ly) dy ry)"
| "rotate_left _ = None"

fun rotate_right :: "'a tree \<Rightarrow> 'a tree option" where
  "rotate_right (Node cx (Node cy ly dy ry) dx rx) = Some (Node cy ly dy (Node cx ry dx rx))"
| "rotate_right _ = None"

section \<open>Insertion\<close>

text \<open>
  \<open>x\<close> a right child of the left child \<open>p\<close>: the source makes \<open>p\<close> the new \<open>x\<close> and rotates it left.
  The result is the new \<open>x\<close> with its parent's data and right subtree.
\<close>

definition make_left_child :: "'a tree \<Rightarrow> 'a frame \<Rightarrow> ('a tree \<times> 'a \<times> 'a tree) option" where
  "make_left_child x p =
     (case p of
        FL c d r \<Rightarrow> Some (x, d, r)
      | FR c l d \<Rightarrow>
          (case rotate_left (Node c l d x) of
             Some (Node c' x' d' r') \<Rightarrow> Some (x', d', r')
           | _ \<Rightarrow> None))"

definition make_right_child :: "'a tree \<Rightarrow> 'a frame \<Rightarrow> ('a tree \<times> 'a \<times> 'a tree) option" where
  "make_right_child x p =
     (case p of
        FR c l d \<Rightarrow> Some (x, d, l)
      | FL c d r \<Rightarrow>
          (case rotate_right (Node c x d r) of
             Some (Node c' l' d' x') \<Rightarrow> Some (x', d', l')
           | _ \<Rightarrow> None))"

text \<open>
  \<open>x\<close> with parent frame \<open>p\<close> and grandparent frame \<open>g\<close>. A red parent without a grandparent would
  have the sentinel for its parent, whose colour the source would then overwrite.
\<close>

function insert_fixup :: "'a tree \<Rightarrow> 'a frame list \<Rightarrow> 'a tree option" where
  "insert_fixup x [] = Some (set_colour BLACK x)"
| "insert_fixup x [p] =
     (if frame_colour p = RED then None else Some (set_colour BLACK (zip_up x [p])))"
| "insert_fixup x (p # g # ps) =
     (if frame_colour p = RED
      then case g of
        FL cg dg y \<Rightarrow>
          if node_colour y = RED
          then insert_fixup (Node RED (close_frame BLACK x p) dg (set_colour BLACK y)) ps
          else (case make_left_child x p of
                  None \<Rightarrow> None
                | Some (x', dp, rp) \<Rightarrow>
                    (case rotate_right (Node RED (Node BLACK x' dp rp) dg y) of
                       Some (Node c x'' d r) \<Rightarrow> insert_fixup x'' (FL c d r # ps)
                     | _ \<Rightarrow> None))
      | FR cg y dg \<Rightarrow>
          if node_colour y = RED
          then insert_fixup (Node RED (set_colour BLACK y) dg (close_frame BLACK x p)) ps
          else (case make_right_child x p of
                  None \<Rightarrow> None
                | Some (x', dp, lp) \<Rightarrow>
                    (case rotate_left (Node RED y dg (Node BLACK lp dp x')) of
                       Some (Node c l d x'') \<Rightarrow> insert_fixup x'' (FR c l d # ps)
                     | _ \<Rightarrow> None))
      else Some (set_colour BLACK (zip_up x (p # g # ps))))"
  by pat_completeness auto
termination by (relation "measure (\<lambda>(x, ps). length ps)") auto

text \<open>
  The search loop shared by \<^verbatim>\<open>rbtree_insert_node\<close> and \<^verbatim>\<open>rbtree_find\<close>: down from a location to a
  node that compares equal, or to the NIL where such a node would hang.
\<close>

fun descend :: "'a cmp \<Rightarrow> 'a \<Rightarrow> 'a tree \<Rightarrow> 'a frame list \<Rightarrow> 'a location" where
  "descend cmp data NIL ps = (NIL, ps)"
| "descend cmp data (Node c l d r) ps =
     (let result = cmp data d
      in if result = 0 then (Node c l d r, ps)
         else if result < 0 then descend cmp data l (FL c d r # ps)
         else descend cmp data r (FR c l d # ps))"

text \<open>Linking the new node \<open>x\<close> below its parent, whose data is compared once more.\<close>

definition link_child :: "'a cmp \<Rightarrow> 'a \<Rightarrow> 'a frame list \<Rightarrow> 'a frame list" where
  "link_child cmp data path =
     (case path of
        [] \<Rightarrow> []
      | FL c d r # ps \<Rightarrow> (if cmp data d \<le> 0 then FL c d r else FR c NIL d) # ps
      | FR c l d # ps \<Rightarrow> (if cmp data d \<le> 0 then FL c d NIL else FR c l d) # ps)"

text \<open>
  The results: the tree, the elements handed to \<open>free\<close>, and whether a node was returned.
\<close>

definition rbtree_insert_node ::
  "'a cmp \<Rightarrow> bool \<Rightarrow> 'a rbtree \<Rightarrow> 'a \<Rightarrow> ('a rbtree \<times> 'a list \<times> bool) option" where
  "rbtree_insert_node cmp talloc_ok t data =
     (case descend cmp data (rb_root t) [] of
        (Node c l d r, ps) \<Rightarrow>
          if \<not> rb_replace t then Some (t, [], False)
          else Some (t\<lparr>rb_root := zip_up (Node c l data r) ps\<rparr>, if rb_free t then [d] else [], True)
      | (NIL, ps) \<Rightarrow>
          if \<not> talloc_ok then Some (t, [], False)
          else do { root \<leftarrow> insert_fixup (Node RED NIL data NIL) (link_child cmp data ps);
                    Some (t\<lparr>rb_root := root, rb_num_elements := rb_num_elements t + 1\<rparr>, [], True) })"

definition rbtree_insert ::
  "'a cmp \<Rightarrow> bool \<Rightarrow> 'a rbtree \<Rightarrow> 'a \<Rightarrow> ('a rbtree \<times> 'a list \<times> bool) option" where
  "rbtree_insert cmp talloc_ok t data =
     map_option (\<lambda>(t', freed, node). (t', freed, if node then True else False))
       (rbtree_insert_node cmp talloc_ok t data)"

section \<open>Deletion\<close>

text \<open>
  One side of the loop body of \<^verbatim>\<open>delete_fixup\<close> once the sibling \<open>w\<close> is black: \<open>x\<close> is the left
  (right) child of a parent of colour \<open>cp\<close>. \<open>Inl\<close> is the location with which the loop goes on,
  \<open>Inr\<close> the tree when the source leaves the loop by \<open>x = tree->root\<close> and blackens the root.
\<close>

definition fixup_left ::
  "'a tree \<Rightarrow> colour \<Rightarrow> 'a \<Rightarrow> 'a tree \<Rightarrow> 'a frame list \<Rightarrow> ('a location + 'a tree) option" where
  "fixup_left x cp dp w ps =
     (if node_colour (node_left w) = BLACK \<and> node_colour (node_right w) = BLACK
      then Some (Inl (Node cp x dp (set_colour RED w), ps))
      else do { w' \<leftarrow> (if node_colour (node_right w) = BLACK
                       then rotate_right (set_colour RED (set_left_colour BLACK w)) else Some w);
                t \<leftarrow> rotate_left (Node BLACK x dp (set_right_colour BLACK (set_colour cp w')));
                Some (Inr (set_colour BLACK (zip_up t ps))) })"

definition fixup_right ::
  "'a tree \<Rightarrow> colour \<Rightarrow> 'a \<Rightarrow> 'a tree \<Rightarrow> 'a frame list \<Rightarrow> ('a location + 'a tree) option" where
  "fixup_right x cp dp w ps =
     (if node_colour (node_right w) = BLACK \<and> node_colour (node_left w) = BLACK
      then Some (Inl (Node cp (set_colour RED w) dp x, ps))
      else do { w' \<leftarrow> (if node_colour (node_left w) = BLACK
                       then rotate_left (set_colour RED (set_right_colour BLACK w)) else Some w);
                t \<leftarrow> rotate_right (Node BLACK (set_left_colour BLACK (set_colour cp w')) dp x);
                Some (Inr (set_colour BLACK (zip_up t ps))) })"

definition fixup_step :: "'a tree \<Rightarrow> 'a frame \<Rightarrow> 'a frame list \<Rightarrow> ('a location + 'a tree) option" where
  "fixup_step x p ps =
     (case p of
        FL cp dp w \<Rightarrow>
          if node_colour w = RED
          then (case rotate_left (Node RED x dp (set_colour BLACK w)) of
                  Some (Node c (Node cp' x' dp' w') d r) \<Rightarrow> fixup_left x' cp' dp' w' (FL c d r # ps)
                | _ \<Rightarrow> None)
          else fixup_left x cp dp w ps
      | FR cp w dp \<Rightarrow>
          if node_colour w = RED
          then (case rotate_right (Node RED (set_colour BLACK w) dp x) of
                  Some (Node c l d (Node cp' w' dp' x')) \<Rightarrow> fixup_right x' cp' dp' w' (FR c l d # ps)
                | _ \<Rightarrow> None)
          else fixup_right x cp dp w ps)"

lemma fixup_step_smaller:
  assumes "fixup_step x p ps = Some (Inl (x', ps'))" "node_colour x = BLACK"
  shows "2 * length ps' + (if node_colour x' = BLACK then 1 else 0) < 2 * length (p # ps) + 1"
  using assms
  by (auto simp: fixup_step_def fixup_left_def fixup_right_def bind_eq_Some_conv
      split: frame.splits if_splits option.splits tree.splits elim!: rotate_left.elims rotate_right.elims)

function delete_fixup :: "'a tree \<Rightarrow> 'a frame list \<Rightarrow> 'a tree option" where
  "delete_fixup x [] = Some (set_colour BLACK x)"
| "delete_fixup x (p # ps) =
     (if node_colour x = BLACK
      then case fixup_step x p ps of
             None \<Rightarrow> None
           | Some (Inl (x', ps')) \<Rightarrow> delete_fixup x' ps'
           | Some (Inr root) \<Rightarrow> Some root
      else Some (zip_up (set_colour BLACK x) (p # ps)))"
  by pat_completeness auto
termination
  by (relation "measure (\<lambda>(x, ps). 2 * length ps + (if node_colour x = BLACK then 1 else 0))")
     (auto dest: fixup_step_smaller)

declare delete_fixup.simps [simp del] insert_fixup.simps [simp del]

text \<open>\<open>while (y->left != NIL) y = y->left\<close>\<close>

fun go_left :: "'a tree \<Rightarrow> 'a frame list \<Rightarrow> 'a location" where
  "go_left (Node c (Node cl ll dl rl) d r) ps = go_left (Node cl ll dl rl) (FL c d r # ps)"
| "go_left t ps = (t, ps)"

text \<open>
  \<open>z\<close> is the location of the node to delete. With two children its successor \<open>y\<close> is unlinked, and
  the node at \<open>z\<close>'s place is then \<open>y\<close> itself, with \<open>z\<close>'s links and colour and its own data.
\<close>

definition rbtree_delete_internal :: "'a rbtree \<Rightarrow> 'a location \<Rightarrow> ('a rbtree \<times> 'a list) option" where
  "rbtree_delete_internal t z =
     (case z of
        (NIL, ps) \<Rightarrow> Some (t, [])
      | (Node c l d r, ps) \<Rightarrow>
          do { root \<leftarrow>
                 (if l = NIL \<or> r = NIL
                  then let x = (if l \<noteq> NIL then l else r)
                       in if c = BLACK then delete_fixup x ps else Some (zip_up x ps)
                  else case go_left r [] of
                         (Node cy ly dy ry, fs) \<Rightarrow>
                           let x = (if ly \<noteq> NIL then ly else ry);
                               path = fs @ FR c l dy # ps
                           in if cy = BLACK \<and> path \<noteq> [] then delete_fixup x path else Some (zip_up x path)
                       | (NIL, fs) \<Rightarrow> None);
               Some (t\<lparr>rb_root := root, rb_num_elements := rb_num_elements t - 1\<rparr>,
                     if rb_free t then [d] else []) })"

definition rbtree_find :: "'a cmp \<Rightarrow> 'a rbtree \<Rightarrow> 'a \<Rightarrow> 'a location option" where
  "rbtree_find cmp t data =
     (case descend cmp data (rb_root t) [] of (NIL, ps) \<Rightarrow> None | loc \<Rightarrow> Some loc)"

definition rbtree_node2data :: "'a location option \<Rightarrow> 'a option" where
  "rbtree_node2data node =
     (case node of Some (Node c l d r, ps) \<Rightarrow> Some d | _ \<Rightarrow> None)"

definition rbtree_finddata :: "'a cmp \<Rightarrow> 'a rbtree \<Rightarrow> 'a \<Rightarrow> 'a option" where
  "rbtree_finddata cmp t data = rbtree_node2data (rbtree_find cmp t data)"

definition rbtree_deletebydata :: "'a cmp \<Rightarrow> 'a rbtree \<Rightarrow> 'a \<Rightarrow> ('a rbtree \<times> 'a list \<times> bool) option" where
  "rbtree_deletebydata cmp t data =
     (case rbtree_find cmp t data of
        None \<Rightarrow> Some (t, [], False)
      | Some node \<Rightarrow> map_option (\<lambda>(t', freed). (t', freed, True)) (rbtree_delete_internal t node))"

fun free_walker :: "'a tree \<Rightarrow> 'a list" where
  "free_walker NIL = []"
| "free_walker (Node c l d r) = free_walker l @ free_walker r @ [d]"

definition rbtree_free :: "'a rbtree option \<Rightarrow> 'a list" where
  "rbtree_free t =
     (case t of None \<Rightarrow> [] | Some t \<Rightarrow> if rb_free t then free_walker (rb_root t) else [])"

definition rbtree_num_elements :: "'a rbtree option \<Rightarrow> u32" where
  "rbtree_num_elements t = (case t of None \<Rightarrow> 0 | Some t \<Rightarrow> word_of_int (rb_num_elements t))"

section \<open>Contents and balance\<close>

fun inorder :: "'a tree \<Rightarrow> 'a list" where
  "inorder NIL = []"
| "inorder (Node c l d r) = inorder l @ d # inorder r"

fun before :: "'a frame list \<Rightarrow> 'a list" where
  "before [] = []"
| "before (FL c d r # ps) = before ps"
| "before (FR c l d # ps) = before ps @ inorder l @ [d]"

fun after :: "'a frame list \<Rightarrow> 'a list" where
  "after [] = []"
| "after (FL c d r # ps) = d # inorder r @ after ps"
| "after (FR c l d # ps) = after ps"

fun bh :: "'a tree \<Rightarrow> nat" where
  "bh NIL = 0"
| "bh (Node c l d r) = (if c = BLACK then Suc (bh l) else bh l)"

text \<open>No red node has a red child, and both subtrees of a node have the same black height.\<close>

fun balanced :: "'a tree \<Rightarrow> bool" where
  "balanced NIL \<longleftrightarrow> True"
| "balanced (Node c l d r) \<longleftrightarrow> balanced l \<and> balanced r \<and> bh l = bh r \<and>
     (c = RED \<longrightarrow> node_colour l = BLACK \<and> node_colour r = BLACK)"

definition rb_tree :: "'a tree \<Rightarrow> bool" where
  "rb_tree t \<longleftrightarrow> balanced t \<and> node_colour t = BLACK"

text \<open>
  A path that expects a subtree of black height \<open>n\<close>, red frames being below a black parent.
\<close>

fun path_ok :: "nat \<Rightarrow> 'a frame list \<Rightarrow> bool" where
  "path_ok n [] \<longleftrightarrow> True"
| "path_ok n (FL c d r # ps) \<longleftrightarrow> balanced r \<and> bh r = n \<and>
     (c = RED \<longrightarrow> node_colour r = BLACK \<and> ps \<noteq> [] \<and> frame_colour (hd ps) = BLACK) \<and>
     path_ok (if c = BLACK then Suc n else n) ps"
| "path_ok n (FR c l d # ps) \<longleftrightarrow> balanced l \<and> bh l = n \<and>
     (c = RED \<longrightarrow> node_colour l = BLACK \<and> ps \<noteq> [] \<and> frame_colour (hd ps) = BLACK) \<and>
     path_ok (if c = BLACK then Suc n else n) ps"

lemma colour_cases [simp]: "c \<noteq> BLACK \<longleftrightarrow> c = RED" "c \<noteq> RED \<longleftrightarrow> c = BLACK"
  by (cases c; simp)+

lemma inorder_set_colour [simp]: "inorder (set_colour c t) = inorder t"
  by (cases t) auto

lemma inorder_set_child [simp]:
  "inorder (set_left_colour c t) = inorder t" "inorder (set_right_colour c t) = inorder t"
  by (cases t; simp)+

lemma inorder_close [simp]:
  "inorder (close_frame c t f) = (case f of FL _ d r \<Rightarrow> inorder t @ d # inorder r | FR _ l d \<Rightarrow> inorder l @ d # inorder t)"
  by (cases f) auto

lemma inorder_zip [simp]: "inorder (zip_up t ps) = before ps @ inorder t @ after ps"
  by (induction t ps rule: zip_up.induct) (auto split: frame.split)

lemma before_append [simp]: "before (ps @ qs) = before qs @ before ps"
  by (induction ps rule: before.induct) auto

lemma after_append [simp]: "after (ps @ qs) = after ps @ after qs"
  by (induction ps rule: after.induct) auto

lemma inorder_Nil [simp]: "inorder t = [] \<longleftrightarrow> t = NIL"
  by (cases t) auto

lemma balanced_set_BLACK [simp]: "balanced t \<Longrightarrow> balanced (set_colour BLACK t)"
  by (cases t) auto

lemma colour_set_BLACK [simp]: "node_colour (set_colour BLACK t) = BLACK"
  by (cases t) auto

lemma set_colour_id: "node_colour t = c \<Longrightarrow> set_colour c t = t"
  by (cases t) auto

lemma bh_set_BLACK: "bh (set_colour BLACK t) = (if node_colour t = RED then Suc (bh t) else bh t)"
  by (cases t) auto

lemma rb_tree_set_BLACK: "balanced t \<Longrightarrow> rb_tree (set_colour BLACK t)"
  by (simp add: rb_tree_def)

lemma zip_balanced:
  assumes "balanced t" "path_ok (bh t) ps"
    and "ps \<noteq> [] \<Longrightarrow> frame_colour (hd ps) = RED \<Longrightarrow> node_colour t = BLACK"
  shows "balanced (zip_up t ps) \<and> (ps \<noteq> [] \<longrightarrow> node_colour (zip_up t ps) = BLACK)"
  using assms
proof (induction t ps rule: zip_up.induct)
  case (2 t f fs)
  have "balanced (close_frame (frame_colour f) t f)" "node_colour (close_frame (frame_colour f) t f) = frame_colour f"
    "path_ok (bh (close_frame (frame_colour f) t f)) fs"
    "frame_colour f = RED \<longrightarrow> fs \<noteq> [] \<and> frame_colour (hd fs) = BLACK"
    using 2(2-4) by (cases f; auto)+
  with 2(1) show ?case by (cases "fs = []") auto
qed simp

lemma zip_rb_tree:
  assumes "balanced t" "path_ok (bh t) ps" "ps \<noteq> [] \<Longrightarrow> frame_colour (hd ps) = RED \<Longrightarrow> node_colour t = BLACK"
  shows "rb_tree (set_colour BLACK (zip_up t ps))"
  using zip_balanced [OF assms] by (simp add: rb_tree_def)

section \<open>The fixups restore the balance\<close>

lemma insert_fixup_done:
  assumes "ps = [] \<or> frame_colour (hd ps) = BLACK"
  shows "insert_fixup x ps = Some (set_colour BLACK (zip_up x ps))"
  using assms by (cases "(x, ps)" rule: insert_fixup.cases) (auto simp: insert_fixup.simps)

lemma insert_fixup_correct:
  assumes "balanced x" "node_colour x = RED" "path_ok (bh x) ps"
  shows "\<exists>t. insert_fixup x ps = Some t \<and> rb_tree t \<and> inorder t = before ps @ inorder x @ after ps"
  using assms
proof (induction x ps rule: insert_fixup.induct)
  case (1 x)
  then show ?case by (simp add: insert_fixup_done rb_tree_def)
next
  case (2 x p)
  then have "frame_colour p = BLACK" by (cases p; cases "frame_colour p") auto
  with 2 show ?case using zip_rb_tree [of x "[p]"] by (simp add: insert_fixup_done split: frame.split)
next
  case (3 x p g ps)
  obtain cx lx dx rx where x: "x = Node cx lx dx rx" using 3(6) by (cases x) auto
  show ?case
  proof (cases "frame_colour p")
    case BLACK
    with 3 show ?thesis using zip_rb_tree [of x "p # g # ps"] by (simp add: insert_fixup_done split: frame.split)
  next
    case red: RED
    have g: "frame_colour g = BLACK" using 3(7) red by (cases p) auto
    show ?thesis
    proof (cases g)
      case (FL cg dg y)
      show ?thesis
      proof (cases "node_colour y")
        case RED
        with 3(5-7) red g FL
        have "\<exists>t. insert_fixup (Node RED (close_frame BLACK x p) dg (set_colour BLACK y)) ps = Some t \<and> rb_tree t \<and>
          inorder t = before ps @ inorder (Node RED (close_frame BLACK x p) dg (set_colour BLACK y)) @ after ps"
          by (intro 3(1)) (cases p; auto simp: bh_set_BLACK)+
        then show ?thesis using RED red FL by (cases p) (auto simp: insert_fixup.simps)
      next
        case BLACK
        with 3(5-7) red g FL x show ?thesis
          by (cases p) (auto simp: insert_fixup.simps make_left_child_def insert_fixup_done intro!: zip_rb_tree)
      qed
    next
      case (FR cg y dg)
      show ?thesis
      proof (cases "node_colour y")
        case RED
        with 3(5-7) red g FR
        have "\<exists>t. insert_fixup (Node RED (set_colour BLACK y) dg (close_frame BLACK x p)) ps = Some t \<and> rb_tree t \<and>
          inorder t = before ps @ inorder (Node RED (set_colour BLACK y) dg (close_frame BLACK x p)) @ after ps"
          by (intro 3(3)) (cases p; auto simp: bh_set_BLACK)+
        then show ?thesis using RED red FR by (cases p) (auto simp: insert_fixup.simps)
      next
        case BLACK
        with 3(5-7) red g FR x show ?thesis
          by (cases p) (auto simp: insert_fixup.simps make_right_child_def insert_fixup_done intro!: zip_rb_tree)
      qed
    qed
  qed
qed

definition fixup_ok :: "'a list \<Rightarrow> ('a location + 'a tree) \<Rightarrow> bool" where
  "fixup_ok xs r \<longleftrightarrow>
     (case r of
        Inl (x, ps) \<Rightarrow> balanced (set_colour BLACK x) \<and> (node_colour x = BLACK \<longrightarrow> balanced x) \<and>
          path_ok (Suc (bh x)) ps \<and> before ps @ inorder x @ after ps = xs
      | Inr t \<Rightarrow> rb_tree t \<and> inorder t = xs)"

lemma fixup_left_correct:
  assumes x: "balanced x" "node_colour x = BLACK" and w: "balanced w" "node_colour w = BLACK" "bh w = Suc (bh x)"
    and p: "cp = RED \<Longrightarrow> ps \<noteq> [] \<and> frame_colour (hd ps) = BLACK"
      "path_ok (if cp = BLACK then Suc (Suc (bh x)) else Suc (bh x)) ps"
  shows "\<exists>r. fixup_left x cp dp w ps = Some r \<and> fixup_ok (before ps @ inorder x @ dp # inorder w @ after ps) r"
proof -
  obtain lw dw rw where w': "w = Node BLACK lw dw rw" using w by (cases w) auto
  have l: "lw = NIL \<or> (\<exists>c l d r. lw = Node c l d r)" by (cases lw) auto
  have r: "rw = NIL \<or> (\<exists>c l d r. rw = Node c l d r)" by (cases rw) auto
  consider (both) "node_colour lw = BLACK" "node_colour rw = BLACK" | (far) "node_colour rw = RED"
    | (near) "node_colour lw = RED" "node_colour rw = BLACK"
    using colour_cases by blast
  then show ?thesis
  proof cases
    case both
    then show ?thesis using x w p by (auto simp: fixup_left_def fixup_ok_def w')
  next
    case far
    then obtain l d r where rw: "rw = Node RED l d r" by (cases rw) auto
    show ?thesis using far x w p
      by (cases cp) (auto simp: fixup_left_def fixup_ok_def w' rw intro!: zip_rb_tree)
  next
    case near
    then obtain l d r where lw: "lw = Node RED l d r" by (cases lw) auto
    show ?thesis using near x w p
      by (cases cp) (auto simp: fixup_left_def fixup_ok_def w' lw set_colour_id intro!: zip_rb_tree)
  qed
qed

lemma fixup_right_correct:
  assumes x: "balanced x" "node_colour x = BLACK" and w: "balanced w" "node_colour w = BLACK" "bh w = Suc (bh x)"
    and p: "cp = RED \<Longrightarrow> ps \<noteq> [] \<and> frame_colour (hd ps) = BLACK"
      "path_ok (if cp = BLACK then Suc (Suc (bh x)) else Suc (bh x)) ps"
  shows "\<exists>r. fixup_right x cp dp w ps = Some r \<and> fixup_ok (before ps @ inorder w @ dp # inorder x @ after ps) r"
proof -
  obtain lw dw rw where w': "w = Node BLACK lw dw rw" using w by (cases w) auto
  consider (both) "node_colour lw = BLACK" "node_colour rw = BLACK" | (far) "node_colour lw = RED"
    | (near) "node_colour rw = RED" "node_colour lw = BLACK"
    using colour_cases by blast
  then show ?thesis
  proof cases
    case both
    then show ?thesis using x w p by (auto simp: fixup_right_def fixup_ok_def w')
  next
    case far
    then obtain l d r where lw: "lw = Node RED l d r" by (cases lw) auto
    show ?thesis using far x w p
      by (cases cp) (auto simp: fixup_right_def fixup_ok_def w' lw intro!: zip_rb_tree)
  next
    case near
    then obtain l d r where rw: "rw = Node RED l d r" by (cases rw) auto
    show ?thesis using near x w p
      by (cases cp) (auto simp: fixup_right_def fixup_ok_def w' rw set_colour_id intro!: zip_rb_tree)
  qed
qed

lemma fixup_step_correct:
  assumes "balanced x" "node_colour x = BLACK" "path_ok (Suc (bh x)) (p # ps)"
  shows "\<exists>r. fixup_step x p ps = Some r \<and> fixup_ok (before (p # ps) @ inorder x @ after (p # ps)) r"
proof (cases p)
  case (FL cp dp w)
  show ?thesis
  proof (cases "node_colour w")
    case BLACK
    with fixup_left_correct [of x w cp ps dp] assms FL show ?thesis by (simp add: fixup_step_def)
  next
    case RED
    then obtain lw dw rw where "w = Node RED lw dw rw" by (cases w) auto
    with fixup_left_correct [of x lw RED "FL BLACK dw rw # ps" dp] assms FL show ?thesis
      by (auto simp: fixup_step_def)
  qed
next
  case (FR cp w dp)
  show ?thesis
  proof (cases "node_colour w")
    case BLACK
    with fixup_right_correct [of x w cp ps dp] assms FR show ?thesis by (simp add: fixup_step_def)
  next
    case RED
    then obtain lw dw rw where "w = Node RED lw dw rw" by (cases w) auto
    with fixup_right_correct [of x rw RED "FR BLACK lw dw # ps" dp] assms FR show ?thesis
      by (auto simp: fixup_step_def)
  qed
qed

lemma path_ok_hd:
  "path_ok n (p # ps) \<Longrightarrow> frame_colour p = RED \<Longrightarrow> ps \<noteq> [] \<and> frame_colour (hd ps) = BLACK"
  by (cases p) auto

lemma delete_fixup_correct:
  assumes "balanced (set_colour BLACK x)" "node_colour x = BLACK \<Longrightarrow> balanced x" "path_ok (Suc (bh x)) ps"
  shows "\<exists>t. delete_fixup x ps = Some t \<and> rb_tree t \<and> inorder t = before ps @ inorder x @ after ps"
  using assms
proof (induction x ps rule: delete_fixup.induct)
  case (1 x)
  then show ?case by (simp add: delete_fixup.simps rb_tree_def)
next
  case (2 x p ps)
  show ?case
  proof (cases "node_colour x")
    case RED
    then have "path_ok (bh (set_colour BLACK x)) (p # ps)" using 2(4) by (simp add: bh_set_BLACK)
    from zip_balanced [OF 2(2) this] RED show ?thesis by (auto simp: delete_fixup.simps rb_tree_def split: frame.split)
  next
    case BLACK
    obtain r where r: "fixup_step x p ps = Some r" "fixup_ok (before (p # ps) @ inorder x @ after (p # ps)) r"
      using fixup_step_correct [OF 2(3) [OF BLACK] BLACK 2(4)] by blast
    show ?thesis
    proof (cases r)
      case (Inl l)
      then show ?thesis
        using 2(1) [of r l "fst l" "snd l"] r BLACK by (auto simp: delete_fixup.simps fixup_ok_def split: prod.splits)
    next
      case (Inr t)
      then show ?thesis using r BLACK by (auto simp: delete_fixup.simps fixup_ok_def)
    qed
  qed
qed

section \<open>Order, search, insertion and deletion\<close>

text \<open>
  \<open>K\<close> are the elements the callback orders: those of the tree and those searched for. Outside
  \<open>K\<close> a callback of the server need not be an order.
\<close>

definition rb_order :: "'a cmp \<Rightarrow> 'a set \<Rightarrow> bool" where
  "rb_order cmp K \<longleftrightarrow>
     (\<forall>x\<in>K. \<forall>y\<in>K. cmp x y < 0 \<longleftrightarrow> cmp y x > 0) \<and>
     (\<forall>x\<in>K. \<forall>y\<in>K. \<forall>z\<in>K. cmp x y \<le> 0 \<longrightarrow> cmp y z \<le> 0 \<longrightarrow> cmp x z \<le> 0)"

abbreviation in_order :: "'a cmp \<Rightarrow> 'a list \<Rightarrow> bool" where
  "in_order cmp xs \<equiv> sorted_wrt (\<lambda>a b. cmp a b < 0) xs"

lemma rb_order_sym: "rb_order cmp K \<Longrightarrow> x \<in> K \<Longrightarrow> y \<in> K \<Longrightarrow> cmp x y < 0 \<longleftrightarrow> cmp y x > 0"
  by (simp add: rb_order_def)

lemma rb_order_le_trans:
  "rb_order cmp K \<Longrightarrow> x \<in> K \<Longrightarrow> y \<in> K \<Longrightarrow> z \<in> K \<Longrightarrow> cmp x y \<le> 0 \<Longrightarrow> cmp y z \<le> 0 \<Longrightarrow> cmp x z \<le> 0"
  unfolding rb_order_def by blast

lemma rb_order_eq_sym: "rb_order cmp K \<Longrightarrow> x \<in> K \<Longrightarrow> y \<in> K \<Longrightarrow> cmp x y = 0 \<longleftrightarrow> cmp y x = 0"
  using rb_order_sym [of cmp K x y] rb_order_sym [of cmp K y x] by linarith

lemma rb_order_less_trans:
  assumes "rb_order cmp K" "x \<in> K" "y \<in> K" "z \<in> K" "cmp x y < 0" "cmp y z \<le> 0"
  shows "cmp x z < 0"
  using rb_order_le_trans [of cmp K y z x] rb_order_sym [of cmp K x y] rb_order_sym [of cmp K x z] assms
  by (meson linorder_not_less not_less_iff_gr_or_eq)

lemma rb_order_less_trans':
  assumes "rb_order cmp K" "x \<in> K" "y \<in> K" "z \<in> K" "cmp x y \<le> 0" "cmp y z < 0"
  shows "cmp x z < 0"
  using rb_order_le_trans [of cmp K z x y] rb_order_sym [of cmp K y z] rb_order_sym [of cmp K x z] assms
  by (meson linorder_not_less not_less_iff_gr_or_eq)

lemma in_order_unique:
  assumes "rb_order cmp K" "set xs \<subseteq> K" "in_order cmp xs" "x \<in> set xs" "y \<in> set xs" "cmp x y = 0"
  shows "x = y"
proof -
  obtain i j where ij: "i < length xs" "xs ! i = x" "j < length xs" "xs ! j = y"
    using assms(4,5) by (metis in_set_conv_nth)
  have "cmp y x = 0" using rb_order_eq_sym [OF assms(1), of x y] assms(2,4-6) by blast
  with ij assms(6) sorted_wrt_nth_less [OF assms(3), of i j] sorted_wrt_nth_less [OF assms(3), of j i]
  have "\<not> i < j" "\<not> j < i" by auto
  with ij show ?thesis by simp
qed

lemma in_order_key:
  assumes "rb_order cmp K" "set xs \<subseteq> K" "in_order cmp xs" "k \<in> K" "x \<in> set xs" "y \<in> set xs"
    "cmp k x = 0" "cmp k y = 0"
  shows "x = y"
proof -
  have K: "x \<in> K" "y \<in> K" using assms by auto
  have "cmp x k = 0" "cmp y k = 0"
    using rb_order_eq_sym [OF assms(1,4)] K assms(7,8) by blast+
  then have "cmp x y \<le> 0" "cmp y x \<le> 0"
    using rb_order_le_trans [OF assms(1) K(1) assms(4) K(2)] rb_order_le_trans [OF assms(1) K(2) assms(4) K(1)]
      assms(7,8) by simp_all
  then have "cmp x y = 0" using rb_order_sym [OF assms(1) K] by (metis linorder_not_less order.antisym)
  then show ?thesis using in_order_unique [OF assms(1-3,5,6)] by blast
qed

lemma in_order_distinct: "rb_order cmp K \<Longrightarrow> set xs \<subseteq> K \<Longrightarrow> in_order cmp xs \<Longrightarrow> distinct xs"
proof (induction xs)
  case (Cons a xs)
  then have "\<not> cmp a a < 0" using rb_order_sym [of cmp K a a] by auto
  with Cons show ?case by auto
qed simp

definition splits_at :: "'a cmp \<Rightarrow> 'a \<Rightarrow> 'a frame list \<Rightarrow> bool" where
  "splits_at cmp x ps \<longleftrightarrow> (\<forall>a \<in> set (before ps). cmp x a > 0) \<and> (\<forall>b \<in> set (after ps). cmp x b < 0)"

lemma descend_zip: "descend cmp x t ps = (u, qs) \<Longrightarrow> zip_up u qs = zip_up t ps"
  by (induction t arbitrary: ps) (auto simp: Let_def split: if_splits)

lemma descend_equal: "descend cmp x t ps = (Node c l d r, qs) \<Longrightarrow> cmp x d = 0"
  by (induction t arbitrary: ps) (auto simp: Let_def split: if_splits)

lemma descend_splits:
  assumes "rb_order cmp K" "x \<in> K" "set (inorder t) \<subseteq> K" "in_order cmp (inorder t)"
    and "splits_at cmp x ps" "descend cmp x t ps = (u, qs)"
  shows "splits_at cmp x qs"
  using assms(3-6)
proof (induction t arbitrary: ps)
  case (Node c l d r)
  have K: "d \<in> K" "set (inorder l) \<subseteq> K" "set (inorder r) \<subseteq> K" using Node(3) by auto
  have so: "\<forall>a \<in> set (inorder l). cmp a d < 0" "\<forall>b \<in> set (inorder r). cmp d b < 0"
    "in_order cmp (inorder l)" "in_order cmp (inorder r)"
    using Node(4) by (auto simp: sorted_wrt_append)
  consider (eq) "cmp x d = 0" | (less) "cmp x d < 0" | (gr) "cmp x d > 0" by linarith
  then show ?case
  proof cases
    case eq
    then show ?thesis using Node(5,6) by simp
  next
    case less
    have "cmp x b < 0" if "b \<in> set (inorder r)" for b
      using rb_order_less_trans [OF assms(1,2) K(1), of b] less so(2) that K(3) by fastforce
    then have "splits_at cmp x (FL c d r # ps)" using Node(5) less by (auto simp: splits_at_def)
    from Node(1) [OF K(2) so(3) this] Node(6) less show ?thesis by simp
  next
    case gr
    have "cmp x a > 0" if "a \<in> set (inorder l)" for a
    proof -
      have a: "a \<in> K" "cmp a d < 0" using that K(2) so(1) by auto
      have "cmp d x < 0" using rb_order_sym [OF assms(1) K(1) assms(2)] gr by simp
      then have "cmp a x < 0" using rb_order_less_trans [OF assms(1) a(1) K(1) assms(2)] a(2) by simp
      then show ?thesis using rb_order_sym [OF assms(1) a(1) assms(2)] by simp
    qed
    then have "splits_at cmp x (FR c l d # ps)" using Node(5) gr by (auto simp: splits_at_def)
    from Node(2) [OF K(3) so(4) this] Node(6) gr show ?thesis by simp
  qed
qed simp

lemma link_child_id: "splits_at cmp x ps \<Longrightarrow> link_child cmp x ps = ps"
  by (auto simp: link_child_def splits_at_def split: list.split frame.split)

lemma unzip_balanced:
  assumes "rb_tree (zip_up t ps)"
  shows "balanced t \<and> path_ok (bh t) ps \<and> (ps = [] \<or> frame_colour (hd ps) = RED \<longrightarrow> node_colour t = BLACK)"
  using assms
proof (induction t ps rule: zip_up.induct)
  case (2 t f fs)
  then have b: "balanced (close_frame (frame_colour f) t f) \<and> path_ok (bh (close_frame (frame_colour f) t f)) fs \<and>
     (fs = [] \<or> frame_colour (hd fs) = RED \<longrightarrow> node_colour (close_frame (frame_colour f) t f) = BLACK)" by simp
  show ?case
  proof (cases f)
    case (FL c d r)
    with b show ?thesis by (cases c; cases fs) auto
  next
    case (FR c l d)
    with b show ?thesis by (cases c; cases fs) auto
  qed
qed (simp add: rb_tree_def)

lemma go_left_zip: "go_left t ps = (u, qs) \<Longrightarrow> zip_up u qs = zip_up t ps"
  by (induction t ps rule: go_left.induct) auto

lemma go_left_node: "t \<noteq> NIL \<Longrightarrow> \<exists>c d r qs. go_left t ps = (Node c NIL d r, qs)"
  by (induction t ps rule: go_left.induct) auto

lemma go_left_before: "go_left t ps = (u, qs) \<Longrightarrow> before qs = before ps"
  by (induction t ps rule: go_left.induct) auto

lemma zip_up_append: "zip_up t (ps @ qs) = zip_up (zip_up t ps) qs"
  by (induction t ps rule: zip_up.induct) auto

lemma path_ok_data: "path_ok n (ps @ FR c l d # qs) \<Longrightarrow> path_ok n (ps @ FR c l d' # qs)"
proof (induction ps arbitrary: n)
  case (Cons f ps)
  then show ?case by (cases f; cases ps) auto
qed simp

lemma black_leaf: "balanced t \<Longrightarrow> bh t = 0 \<Longrightarrow> node_colour t = BLACK \<Longrightarrow> t = NIL"
  by (cases t) auto

text \<open>Deleting the node at a location of the tree removes its element and nothing else.\<close>

lemma rbtree_delete_correct:
  assumes "rb_tree (rb_root t)" "zip_up (Node c l d r) ps = rb_root t"
  shows "\<exists>root. rbtree_delete_internal t (Node c l d r, ps) =
           Some (t\<lparr>rb_root := root, rb_num_elements := rb_num_elements t - 1\<rparr>, if rb_free t then [d] else []) \<and>
         rb_tree root \<and> inorder root = before ps @ inorder l @ inorder r @ after ps"
proof -
  have b: "balanced (Node c l d r)" "path_ok (bh (Node c l d r)) ps"
    "ps = [] \<or> frame_colour (hd ps) = RED \<Longrightarrow> c = BLACK"
    using unzip_balanced [of "Node c l d r" ps] assms by auto
  show ?thesis
  proof (cases "l = NIL \<or> r = NIL")
    case True
    define x where "x = (if l \<noteq> NIL then l else r)"
    have x: "balanced x" "bh x = bh l" "inorder x = inorder l @ inorder r" using b(1) True by (auto simp: x_def)
    have "\<exists>root. (if c = BLACK then delete_fixup x ps else Some (zip_up x ps)) = Some root \<and>
       rb_tree root \<and> inorder root = before ps @ inorder x @ after ps"
    proof (cases c)
      case BLACK
      with delete_fixup_correct [of x ps] x b(2) show ?thesis by auto
    next
      case RED
      then have "node_colour x = BLACK" "ps \<noteq> []" using b(1,3) True by (auto simp: x_def)
      with zip_balanced [of x ps] x b(2) RED show ?thesis by (auto simp: rb_tree_def)
    qed
    then obtain root where "(if c = BLACK then delete_fixup x ps else Some (zip_up x ps)) = Some root"
       "rb_tree root" "inorder root = before ps @ inorder x @ after ps" by blast
    with True x(3) show ?thesis unfolding rbtree_delete_internal_def x_def by (auto simp: Let_def)
  next
    case False
    then obtain cy dy ry fs where y: "go_left r [] = (Node cy NIL dy ry, fs)" using go_left_node [of r "[]"] by blast
    let ?path = "fs @ FR c l dy # ps"
    have zr: "zip_up (Node cy NIL dy ry) fs = r" using go_left_zip [OF y] by simp
    have bf: "before fs = []" using go_left_before [OF y] by simp
    have ir: "inorder r = dy # inorder ry @ after fs"
      using arg_cong [OF zr, of inorder] bf by simp
    have "zip_up (Node cy NIL dy ry) (fs @ FR c l d # ps) = rb_root t"
      using assms(2) zr by (simp add: zip_up_append)
    then have o: "balanced (Node cy NIL dy ry)" "path_ok (bh (Node cy NIL dy ry)) (fs @ FR c l d # ps)"
      "frame_colour (hd (fs @ FR c l d # ps)) = RED \<longrightarrow> cy = BLACK"
      using unzip_balanced [of "Node cy NIL dy ry" "fs @ FR c l d # ps"] assms(1) by auto
    have u: "balanced (Node cy NIL dy ry)" "path_ok (bh (Node cy NIL dy ry)) ?path"
      "frame_colour (hd ?path) = RED \<longrightarrow> cy = BLACK"
      using o(1) path_ok_data [OF o(2)] o(3) by (cases fs; simp)+
    have "\<exists>root. (if cy = BLACK then delete_fixup ry ?path else Some (zip_up ry ?path)) = Some root \<and>
       rb_tree root \<and> inorder root = before ?path @ inorder ry @ after ?path"
    proof (cases cy)
      case BLACK
      with delete_fixup_correct [of ry ?path] u show ?thesis by auto
    next
      case RED
      then have "node_colour ry = BLACK" using u(1) by auto
      with zip_balanced [of ry ?path] u RED show ?thesis by (auto simp: rb_tree_def)
    qed
    then obtain root where "(if cy = BLACK then delete_fixup ry ?path else Some (zip_up ry ?path)) = Some root"
       "rb_tree root" "inorder root = before ?path @ inorder ry @ after ?path" by blast
    with False y ir bf show ?thesis unfolding rbtree_delete_internal_def by (auto simp: Let_def)
  qed
qed

end
