(* ===== verification/RbSet.thy ===== *)
theory RbSet
  imports RbTree
begin

text \<open>
  The red-black tree as an ordered set: the interface \<open>keyed_set\<close> its users rely on (the packet
  list, the event code's clients, the realm and client tables), the proof that \<^verbatim>\<open>lib/rbtree.c\<close>
  provides it, and the bound on the depth of a search.
\<close>

section \<open>Operations on a consistent tree\<close>

definition rb_inv :: "'a cmp \<Rightarrow> 'a set \<Rightarrow> 'a rbtree \<Rightarrow> bool" where
  "rb_inv cmp K t \<longleftrightarrow>
     rb_order cmp K \<and> rb_tree (rb_root t) \<and> set (inorder (rb_root t)) \<subseteq> K \<and>
     in_order cmp (inorder (rb_root t)) \<and> rb_num_elements t = int (length (inorder (rb_root t)))"

abbreviation rb_elems :: "'a rbtree \<Rightarrow> 'a list" where
  "rb_elems t \<equiv> inorder (rb_root t)"

lemma find_in_order:
  assumes "rb_order cmp K" "set xs \<subseteq> K" "in_order cmp xs" "k \<in> K" "y \<in> set xs" "cmp k y = 0"
  shows "find (\<lambda>y. cmp k y = 0) xs = Some y"
proof (cases "find (\<lambda>y. cmp k y = 0) xs")
  case None
  then show ?thesis using assms(5,6) by (auto simp: find_None_iff)
next
  case (Some z)
  then have "z \<in> set xs" "cmp k z = 0" using nth_mem by (force simp: find_Some_iff)+
  with in_order_key [OF assms(1-4), of z y] assms(5,6) Some show ?thesis by blast
qed

lemma descend_find:
  assumes inv: "rb_inv cmp K t" and x: "x \<in> K" and d: "descend cmp x (rb_root t) [] = (u, qs)"
  shows "splits_at cmp x qs \<and> zip_up u qs = rb_root t \<and>
     find (\<lambda>y. cmp x y = 0) (rb_elems t) = (case u of NIL \<Rightarrow> None | Node c l d r \<Rightarrow> Some d)"
proof -
  have I: "rb_order cmp K" "set (rb_elems t) \<subseteq> K" "in_order cmp (rb_elems t)" using inv by (auto simp: rb_inv_def)
  have s: "splits_at cmp x qs" using descend_splits [OF I(1) x I(2,3) _ d] by (simp add: splits_at_def)
  have z: "zip_up u qs = rb_root t" using descend_zip [OF d] by simp
  then have e: "rb_elems t = before qs @ inorder u @ after qs" by (metis inorder_zip)
  show ?thesis
  proof (cases u)
    case NIL
    then have "find (\<lambda>y. cmp x y = 0) (rb_elems t) = None" using s e by (auto simp: splits_at_def find_None_iff)
    with s z NIL show ?thesis by simp
  next
    case (Node c l d r)
    then have "cmp x d = 0" "d \<in> set (rb_elems t)" using descend_equal d e by auto
    with find_in_order [OF I x] s z Node show ?thesis by simp
  qed
qed

lemma rb_find_key:
  assumes "rb_inv cmp K t" "x \<in> K"
  shows "rbtree_finddata cmp t x = find (\<lambda>y. cmp x y = 0) (rb_elems t)"
proof -
  obtain u qs where d: "descend cmp x (rb_root t) [] = (u, qs)" by fastforce
  with descend_find [OF assms d] show ?thesis
    by (auto simp: rbtree_finddata_def rbtree_find_def rbtree_node2data_def split: tree.split)
qed

lemma in_order_insert:
  assumes K: "rb_order cmp K" "x \<in> K" "set (xs @ ys) \<subseteq> K" and so: "in_order cmp (xs @ ys)"
    and s: "\<forall>a \<in> set xs. cmp x a > 0" "\<forall>b \<in> set ys. cmp x b < 0"
  shows "in_order cmp (xs @ x # ys)"
proof -
  have "cmp a x < 0" if "a \<in> set xs" for a
    using rb_order_sym [OF K(1), of a x] that K s(1) by auto
  then show ?thesis using so s(2) by (auto simp: sorted_wrt_append)
qed

lemma rb_insert_new:
  assumes inv: "rb_inv cmp K t" and x: "x \<in> K" and new: "rbtree_finddata cmp t x = None"
  shows "\<exists>t'. rbtree_insert cmp True t x = Some (t', [], True) \<and> rb_inv cmp K t' \<and>
     mset (rb_elems t') = add_mset x (mset (rb_elems t)) \<and>
     rb_replace t' = rb_replace t \<and> rb_free t' = rb_free t"
    and "rbtree_insert cmp False t x = Some (t, [], False)"
proof -
  obtain u qs where d: "descend cmp x (rb_root t) [] = (u, qs)" by fastforce
  note f = descend_find [OF inv x d]
  have u: "u = NIL" using new f by (cases u) (auto simp: rb_find_key [OF inv x])
  have I: "rb_order cmp K" "set (rb_elems t) \<subseteq> K" "in_order cmp (rb_elems t)" "rb_tree (rb_root t)"
    "rb_num_elements t = int (length (rb_elems t))" using inv by (auto simp: rb_inv_def)
  have e: "rb_elems t = before qs @ after qs" using f u by (metis append_Nil inorder.simps(1) inorder_zip)
  have "path_ok 0 qs" using unzip_balanced [of NIL qs] f u I(4) by simp
  with insert_fixup_correct [of "Node RED NIL x NIL" qs] obtain root where
    r: "insert_fixup (Node RED NIL x NIL) qs = Some root" "rb_tree root" "inorder root = before qs @ x # after qs"
    by auto
  have "in_order cmp (inorder root)" using in_order_insert [OF I(1) x, of "before qs" "after qs"] f I(2,3) e r(3)
    by (simp add: splits_at_def)
  then show "\<exists>t'. rbtree_insert cmp True t x = Some (t', [], True) \<and> rb_inv cmp K t' \<and>
     mset (rb_elems t') = add_mset x (mset (rb_elems t)) \<and>
     rb_replace t' = rb_replace t \<and> rb_free t' = rb_free t"
    using d u r I x e f by (simp add: rbtree_insert_def rbtree_insert_node_def link_child_id rb_inv_def)
  show "rbtree_insert cmp False t x = Some (t, [], False)"
    using d u by (simp add: rbtree_insert_def rbtree_insert_node_def)
qed

lemma rb_tree_data: "rb_tree (zip_up (Node c l d r) ps) \<Longrightarrow> rb_tree (zip_up (Node c l d' r) ps)"
proof -
  assume a: "rb_tree (zip_up (Node c l d r) ps)"
  from unzip_balanced [OF this]
  have b: "balanced (Node c l d' r)" "path_ok (bh (Node c l d' r)) ps" "ps = [] \<or> frame_colour (hd ps) = RED \<longrightarrow> c = BLACK"
    by auto
  with zip_balanced [OF b(1,2)] show ?thesis by (cases ps) (auto simp: rb_tree_def)
qed

lemma in_order_replace:
  assumes K: "rb_order cmp K" "x \<in> K" "set (xs @ d # ys) \<subseteq> K" and so: "in_order cmp (xs @ d # ys)"
    and eq: "cmp x d = 0"
  shows "in_order cmp (xs @ x # ys)"
proof -
  have d: "d \<in> K" "cmp d x = 0" using K eq rb_order_eq_sym [OF K(1,2), of d] by auto
  have "cmp a x < 0" if "a \<in> set xs" for a
    using rb_order_less_trans [OF K(1) _ d(1) K(2), of a] that so K(3) d(2) by (auto simp: sorted_wrt_append)
  moreover have "cmp x b < 0" if "b \<in> set ys" for b
    using rb_order_less_trans' [OF K(1,2) d(1), of b] that so K(3) eq by (auto simp: sorted_wrt_append)
  ultimately show ?thesis using so by (auto simp: sorted_wrt_append)
qed

lemma rb_insert_same:
  assumes inv: "rb_inv cmp K t" and x: "x \<in> K" and old: "rbtree_finddata cmp t x = Some y"
  shows "\<not> rb_replace t \<Longrightarrow> rbtree_insert cmp ok t x = Some (t, [], False)"
    and "rb_replace t \<Longrightarrow> \<exists>t'. rbtree_insert cmp ok t x = Some (t', if rb_free t then [y] else [], True) \<and>
       rb_inv cmp K t' \<and> mset (rb_elems t') = add_mset x (mset (rb_elems t) - {#y#}) \<and>
       rb_replace t' = rb_replace t \<and> rb_free t' = rb_free t"
proof -
  obtain u qs where d: "descend cmp x (rb_root t) [] = (u, qs)" by fastforce
  note f = descend_find [OF inv x d]
  obtain c l r where u: "u = Node c l y r" using old f by (cases u) (auto simp: rb_find_key [OF inv x])
  have I: "rb_order cmp K" "set (rb_elems t) \<subseteq> K" "in_order cmp (rb_elems t)" "rb_tree (rb_root t)"
    "rb_num_elements t = int (length (rb_elems t))" using inv by (auto simp: rb_inv_def)
  have e: "rb_elems t = (before qs @ inorder l) @ y # inorder r @ after qs"
    using f u inorder_zip [of u qs] by simp
  have "in_order cmp ((before qs @ inorder l) @ x # inorder r @ after qs)"
    using in_order_replace [OF I(1) x, of "before qs @ inorder l" y "inorder r @ after qs"] I(2,3) e
      descend_equal [OF d [unfolded u]] by simp
  moreover have "rb_tree (zip_up (Node c l x r) qs)" using rb_tree_data [of c l y r qs x] I(4) f u by simp
  ultimately show "rb_replace t \<Longrightarrow> \<exists>t'. rbtree_insert cmp ok t x = Some (t', if rb_free t then [y] else [], True) \<and>
       rb_inv cmp K t' \<and> mset (rb_elems t') = add_mset x (mset (rb_elems t) - {#y#}) \<and>
       rb_replace t' = rb_replace t \<and> rb_free t' = rb_free t"
    using d u I x e by (simp add: rbtree_insert_def rbtree_insert_node_def rb_inv_def)
  show "\<not> rb_replace t \<Longrightarrow> rbtree_insert cmp ok t x = Some (t, [], False)"
    using d u by (simp add: rbtree_insert_def rbtree_insert_node_def)
qed

lemma in_order_drop: "in_order cmp (xs @ d # ys) \<Longrightarrow> in_order cmp (xs @ ys)"
  by (auto simp: sorted_wrt_append)

text \<open>Deleting the node at any location of a consistent tree keeps it consistent.\<close>

lemma rb_delete_at:
  assumes inv: "rb_inv cmp K t" and z: "zip_up (Node c l d r) ps = rb_root t"
  shows "\<exists>t'. rbtree_delete_internal t (Node c l d r, ps) = Some (t', if rb_free t then [d] else []) \<and>
     rb_inv cmp K t' \<and> rb_elems t' = (before ps @ inorder l) @ inorder r @ after ps \<and>
     rb_replace t' = rb_replace t \<and> rb_free t' = rb_free t"
proof -
  have I: "rb_order cmp K" "set (rb_elems t) \<subseteq> K" "in_order cmp (rb_elems t)" "rb_tree (rb_root t)"
    "rb_num_elements t = int (length (rb_elems t))" using inv by (auto simp: rb_inv_def)
  have e: "rb_elems t = (before ps @ inorder l) @ d # inorder r @ after ps"
    using inorder_zip [of "Node c l d r" ps] z by simp
  from rbtree_delete_correct [OF I(4) z] obtain root where
    r: "rbtree_delete_internal t (Node c l d r, ps) =
          Some (t\<lparr>rb_root := root, rb_num_elements := rb_num_elements t - 1\<rparr>, if rb_free t then [d] else [])"
       "rb_tree root" "inorder root = (before ps @ inorder l) @ inorder r @ after ps" by auto
  have "in_order cmp (inorder root)" using in_order_drop [of cmp "before ps @ inorder l" d "inorder r @ after ps"] I(3) e r(3) by simp
  with r I e show ?thesis by (auto simp: rb_inv_def)
qed

lemma rb_delete_present:
  assumes inv: "rb_inv cmp K t" and x: "x \<in> K" and old: "rbtree_finddata cmp t x = Some y"
  shows "\<exists>t'. rbtree_deletebydata cmp t x = Some (t', if rb_free t then [y] else [], True) \<and>
     rb_inv cmp K t' \<and> mset (rb_elems t') = mset (rb_elems t) - {#y#} \<and>
     rb_replace t' = rb_replace t \<and> rb_free t' = rb_free t"
proof -
  obtain u qs where d: "descend cmp x (rb_root t) [] = (u, qs)" by fastforce
  note f = descend_find [OF inv x d]
  obtain c l r where u: "u = Node c l y r" using old f by (cases u) (auto simp: rb_find_key [OF inv x])
  have e: "rb_elems t = (before qs @ inorder l) @ y # inorder r @ after qs"
    using f u inorder_zip [of u qs] by simp
  from rb_delete_at [OF inv, of c l y r qs] f u d e show ?thesis
    by (auto simp: rbtree_deletebydata_def rbtree_find_def)
qed

lemma rb_delete_absent:
  assumes inv: "rb_inv cmp K t" and x: "x \<in> K" and new: "rbtree_finddata cmp t x = None"
  shows "rbtree_deletebydata cmp t x = Some (t, [], False)"
proof -
  obtain u qs where d: "descend cmp x (rb_root t) [] = (u, qs)" by fastforce
  note f = descend_find [OF inv x d]
  have "u = NIL" using new f by (cases u) (auto simp: rb_find_key [OF inv x])
  with d show ?thesis by (simp add: rbtree_deletebydata_def rbtree_find_def)
qed

section \<open>The interface of an ordered set\<close>

text \<open>
  The calls of a user of the tree, their results, and a plain list as the reference: an element
  compares equal to at most one member, a second insertion is refused or replaces that member.
  The results are the success flag with the elements handed to \<open>free\<close>, the element found, or
  the number of elements.
\<close>

datatype 'a set_op = Add 'a bool | Drop 'a | Look 'a | Num

datatype 'a set_out = Done bool "'a list" | Found "'a option" | Number u32

fun set_step ::
  "('a cmp \<Rightarrow> bool \<Rightarrow> 't \<Rightarrow> 'a \<Rightarrow> ('t \<times> 'a list \<times> bool) option) \<Rightarrow>
   ('a cmp \<Rightarrow> 't \<Rightarrow> 'a \<Rightarrow> ('t \<times> 'a list \<times> bool) option) \<Rightarrow> ('a cmp \<Rightarrow> 't \<Rightarrow> 'a \<Rightarrow> 'a option) \<Rightarrow>
   ('t \<Rightarrow> u32) \<Rightarrow> 'a cmp \<Rightarrow> 't \<Rightarrow> 'a set_op \<Rightarrow> ('t \<times> 'a set_out) option" where
  "set_step ins del look num c t (Add x ok) = map_option (\<lambda>(t', fs, r). (t', Done r fs)) (ins c ok t x)"
| "set_step ins del look num c t (Drop x) = map_option (\<lambda>(t', fs, r). (t', Done r fs)) (del c t x)"
| "set_step ins del look num c t (Look x) = Some (t, Found (look c t x))"
| "set_step ins del look num c t Num = Some (t, Number (num t))"

fun set_exec ::
  "('a cmp \<Rightarrow> bool \<Rightarrow> 't \<Rightarrow> 'a \<Rightarrow> ('t \<times> 'a list \<times> bool) option) \<Rightarrow>
   ('a cmp \<Rightarrow> 't \<Rightarrow> 'a \<Rightarrow> ('t \<times> 'a list \<times> bool) option) \<Rightarrow> ('a cmp \<Rightarrow> 't \<Rightarrow> 'a \<Rightarrow> 'a option) \<Rightarrow>
   ('t \<Rightarrow> u32) \<Rightarrow> 'a cmp \<Rightarrow> 't \<Rightarrow> 'a set_op list \<Rightarrow> ('t \<times> 'a set_out list) option" where
  "set_exec ins del look num c t [] = Some (t, [])"
| "set_exec ins del look num c t (op # ops) =
     (case set_step ins del look num c t op of
        None \<Rightarrow> None
      | Some (t1, out) \<Rightarrow>
          map_option (\<lambda>(t2, outs). (t2, out # outs)) (set_exec ins del look num c t1 ops))"

abbreviation key_of :: "'a cmp \<Rightarrow> 'a list \<Rightarrow> 'a \<Rightarrow> 'a option" where
  "key_of c E x \<equiv> find (\<lambda>y. c x y = 0) E"

fun spec_step :: "'a cmp \<Rightarrow> bool \<Rightarrow> bool \<Rightarrow> 'a list \<Rightarrow> 'a set_op \<Rightarrow> 'a list \<times> 'a set_out" where
  "spec_step c replace frees E (Add x ok) =
     (case key_of c E x of
        None \<Rightarrow> if ok then (x # E, Done True []) else (E, Done False [])
      | Some y \<Rightarrow> if replace then (x # remove1 y E, Done True (if frees then [y] else [])) else (E, Done False []))"
| "spec_step c replace frees E (Drop x) =
     (case key_of c E x of
        None \<Rightarrow> (E, Done False [])
      | Some y \<Rightarrow> (remove1 y E, Done True (if frees then [y] else [])))"
| "spec_step c replace frees E (Look x) = (E, Found (key_of c E x))"
| "spec_step c replace frees E Num = (E, Number (word_of_nat (length E)))"

fun spec_run :: "'a cmp \<Rightarrow> bool \<Rightarrow> bool \<Rightarrow> 'a list \<Rightarrow> 'a set_op list \<Rightarrow> 'a list \<times> 'a set_out list" where
  "spec_run c replace frees E [] = (E, [])"
| "spec_run c replace frees E (op # ops) =
     (let (E1, out) = spec_step c replace frees E op; (E2, outs) = spec_run c replace frees E1 ops
      in (E2, out # outs))"

fun op_keys :: "'a set_op \<Rightarrow> 'a set" where
  "op_keys (Add x ok) = {x}"
| "op_keys (Drop x) = {x}"
| "op_keys (Look x) = {x}"
| "op_keys Num = {}"

locale keyed_set =
  fixes inv :: "'a cmp \<Rightarrow> 'a set \<Rightarrow> 't \<Rightarrow> bool"
    and elems :: "'t \<Rightarrow> 'a list"
    and replace :: "'t \<Rightarrow> bool"
    and frees :: "'t \<Rightarrow> bool"
    and ins :: "'a cmp \<Rightarrow> bool \<Rightarrow> 't \<Rightarrow> 'a \<Rightarrow> ('t \<times> 'a list \<times> bool) option"
    and del :: "'a cmp \<Rightarrow> 't \<Rightarrow> 'a \<Rightarrow> ('t \<times> 'a list \<times> bool) option"
    and look :: "'a cmp \<Rightarrow> 't \<Rightarrow> 'a \<Rightarrow> 'a option"
    and num :: "'t \<Rightarrow> u32"
  assumes ordered: "inv c K t \<Longrightarrow> rb_order c K \<and> set (elems t) \<subseteq> K \<and> in_order c (elems t)"
    and look_key: "\<lbrakk>inv c K t; x \<in> K\<rbrakk> \<Longrightarrow> look c t x = key_of c (elems t) x"
    and num_elems: "inv c K t \<Longrightarrow> num t = word_of_nat (length (elems t))"
    and ins_new: "\<lbrakk>inv c K t; x \<in> K; look c t x = None\<rbrakk> \<Longrightarrow> \<exists>t'. ins c True t x = Some (t', [], True) \<and>
      inv c K t' \<and> mset (elems t') = add_mset x (mset (elems t)) \<and> replace t' = replace t \<and> frees t' = frees t"
    and ins_nomem: "\<lbrakk>inv c K t; x \<in> K; look c t x = None\<rbrakk> \<Longrightarrow> ins c False t x = Some (t, [], False)"
    and ins_refused: "\<lbrakk>inv c K t; x \<in> K; look c t x = Some y; \<not> replace t\<rbrakk> \<Longrightarrow> ins c ok t x = Some (t, [], False)"
    and ins_replaced: "\<lbrakk>inv c K t; x \<in> K; look c t x = Some y; replace t\<rbrakk>
      \<Longrightarrow> \<exists>t'. ins c ok t x = Some (t', if frees t then [y] else [], True) \<and> inv c K t' \<and>
            mset (elems t') = add_mset x (mset (elems t) - {#y#}) \<and> replace t' = replace t \<and> frees t' = frees t"
    and del_present: "\<lbrakk>inv c K t; x \<in> K; look c t x = Some y\<rbrakk>
      \<Longrightarrow> \<exists>t'. del c t x = Some (t', if frees t then [y] else [], True) \<and> inv c K t' \<and>
            mset (elems t') = mset (elems t) - {#y#} \<and> replace t' = replace t \<and> frees t' = frees t"
    and del_absent: "\<lbrakk>inv c K t; x \<in> K; look c t x = None\<rbrakk> \<Longrightarrow> del c t x = Some (t, [], False)"
    and inv_cong: "\<lbrakk>inv c K t; rb_order c' K'; set (elems t) \<subseteq> K';
      \<And>x y. x \<in> set (elems t) \<Longrightarrow> y \<in> set (elems t) \<Longrightarrow> c' x y = c x y\<rbrakk> \<Longrightarrow> inv c' K' t"
begin

lemma key_of_mset:
  assumes "inv c K t" "x \<in> K" "mset (elems t) = mset E"
  shows "key_of c E x = look c t x"
proof -
  note o = ordered [OF assms(1)]
  have s: "set E = set (elems t)" using assms(3) by (metis set_mset_mset)
  show ?thesis
  proof (cases "key_of c E x")
    case None
    then have "key_of c (elems t) x = None" unfolding find_None_iff s .
    with None show ?thesis unfolding look_key [OF assms(1,2)] by simp
  next
    case (Some y)
    then have "y \<in> set (elems t)" "c x y = 0" unfolding s [symmetric] using nth_mem by (force simp: find_Some_iff)+
    with find_in_order [of c K "elems t" x y] o assms(2) Some show ?thesis
      unfolding look_key [OF assms(1,2)] by simp
  qed
qed

lemma look_some: "inv c K t \<Longrightarrow> x \<in> K \<Longrightarrow> y \<in> set (elems t) \<Longrightarrow> c x y = 0 \<Longrightarrow> look c t x = Some y"
  using find_in_order ordered look_key by metis

lemma look_self:
  assumes "inv c K t" "x \<in> set (elems t)"
  shows "look c t x = Some x"
proof -
  note o = ordered [OF assms(1)]
  then have "x \<in> K" using assms(2) by blast
  moreover from this have "c x x = 0" using o rb_order_sym [of c K x x] by (metis less_irrefl linorder_neqE order.asym)
  ultimately show ?thesis using find_in_order [of c K "elems t" x x] o assms(2) look_key [OF assms(1)] by auto
qed

lemma look_mem: "inv c K t \<Longrightarrow> x \<in> K \<Longrightarrow> look c t x = Some y \<Longrightarrow> y \<in> set (elems t) \<and> c x y = 0"
  unfolding look_key using nth_mem by (force simp: find_Some_iff)

lemma step_simulates:
  assumes "inv c K t" "mset (elems t) = mset E" "op_keys op \<subseteq> K"
    and "spec_step c (replace t) (frees t) E op = (E', out)"
  shows "\<exists>t'. set_step ins del look num c t op = Some (t', out) \<and> inv c K t' \<and>
     mset (elems t') = mset E' \<and> replace t' = replace t \<and> frees t' = frees t"
proof (cases op)
  case (Add x ok)
  then have x: "x \<in> K" using assms(3) by simp
  note k = key_of_mset [OF assms(1) x assms(2)]
  show ?thesis
  proof (cases "look c t x")
    case None
    with ins_new [OF assms(1) x None] ins_nomem [OF assms(1) x None] assms k Add show ?thesis
      by (cases ok) auto
  next
    case (Some y)
    with ins_refused [OF assms(1) x Some, of ok] ins_replaced [OF assms(1) x Some, of ok] assms k Add show ?thesis
      by (cases "replace t") auto
  qed
next
  case (Drop x)
  then have x: "x \<in> K" using assms(3) by simp
  note k = key_of_mset [OF assms(1) x assms(2)]
  show ?thesis
  proof (cases "look c t x")
    case None
    with del_absent [OF assms(1) x None] assms k Drop show ?thesis by auto
  next
    case (Some y)
    with del_present [OF assms(1) x Some] assms k Drop show ?thesis by auto
  qed
next
  case (Look x)
  with assms key_of_mset [OF assms(1) _ assms(2), of x] show ?thesis by auto
next
  case Num
  then show ?thesis using assms num_elems [OF assms(1)] by (auto dest: mset_eq_length)
qed

lemma exec_simulates:
  assumes "inv c K t" "mset (elems t) = mset E" "\<Union> (op_keys ` set ops) \<subseteq> K"
    and "spec_run c (replace t) (frees t) E ops = (E', outs)"
  shows "\<exists>t'. set_exec ins del look num c t ops = Some (t', outs) \<and> inv c K t' \<and> mset (elems t') = mset E'"
  using assms
proof (induction ops arbitrary: t E E' outs)
  case (Cons op ops)
  obtain E1 out outs1 where 1: "spec_step c (replace t) (frees t) E op = (E1, out)"
    "spec_run c (replace t) (frees t) E1 ops = (E', outs1)" "outs = out # outs1"
    using Cons.prems(4) by (auto simp: split_beta Let_def prod_eq_iff)
  obtain t1 where t1: "set_step ins del look num c t op = Some (t1, out)" "inv c K t1"
    "mset (elems t1) = mset E1" "replace t1 = replace t" "frees t1 = frees t"
    using step_simulates [OF Cons.prems(1,2) _ 1(1)] Cons.prems(3) by auto
  from Cons.IH [OF t1(2,3)] Cons.prems(3) 1 t1 show ?case by auto
qed auto

end

interpretation rb: keyed_set rb_inv rb_elems rb_replace rb_free rbtree_insert rbtree_deletebydata
  rbtree_finddata "\<lambda>t. rbtree_num_elements (Some t)"
proof unfold_locales
  show "rb_order c K \<and> set (rb_elems t) \<subseteq> K \<and> in_order c (rb_elems t)" if "rb_inv c K t"
    for c :: "'a cmp" and K t
    using that by (simp add: rb_inv_def)
  show "rbtree_finddata c t x = key_of c (rb_elems t) x" if "rb_inv c K t" "x \<in> K" for c :: "'a cmp" and K t x
    using that by (rule rb_find_key)
  show "rbtree_num_elements (Some t) = word_of_nat (length (rb_elems t))" if "rb_inv c K t"
    for c :: "'a cmp" and K t
    using that by (simp add: rbtree_num_elements_def rb_inv_def)
  show "rb_inv c' K' t" if "rb_inv c K t" "rb_order c' K'" "set (rb_elems t) \<subseteq> K'"
    "\<And>x y. x \<in> set (rb_elems t) \<Longrightarrow> y \<in> set (rb_elems t) \<Longrightarrow> c' x y = c x y" for c c' :: "'a cmp" and K K' t
    using that by (auto simp: rb_inv_def elim!: sorted_wrt_mono_rel [rotated])
qed (blast intro: rb_insert_new rb_insert_same rb_delete_present rb_delete_absent)+

section \<open>Depth of a search\<close>

fun height :: "'a tree \<Rightarrow> nat" where
  "height NIL = 0"
| "height (Node c l d r) = Suc (max (height l) (height r))"

lemma height_bh: "balanced t \<Longrightarrow> height t \<le> (if node_colour t = RED then Suc (2 * bh t) else 2 * bh t)"
  by (induction t) (auto split: if_splits)

lemma bh_length: "balanced t \<Longrightarrow> 2 ^ bh t \<le> Suc (length (inorder t))"
  by (induction t) auto

lemma length_path: "length ps + height t \<le> height (zip_up t ps)"
proof (induction t ps rule: zip_up.induct)
  case (2 t f fs)
  moreover have "Suc (height t) \<le> height (close_frame (frame_colour f) t f)" by (cases f) auto
  ultimately show ?case by simp
qed simp

lemma rb_tree_height:
  assumes "rb_tree t"
  shows "2 ^ height t \<le> (length (inorder t) + 1) ^ 2"
proof -
  have "height t \<le> 2 * bh t" using assms height_bh [of t] by (simp add: rb_tree_def)
  then have "(2 :: nat) ^ height t \<le> (2 ^ bh t) ^ 2"
    by (simp flip: power_mult)
  also have "\<dots> \<le> (length (inorder t) + 1) ^ 2"
    using assms bh_length [of t] by (intro power_mono) (auto simp: rb_tree_def)
  finally show ?thesis .
qed

lemma rb_free_walker: "mset (free_walker t) = mset (inorder t)"
  by (induction t) auto

section \<open>Properties\<close>

lemma rb_create_inv:
  assumes "rbtree_create True True frees replace = Some t" "rb_order cmp K"
  shows "rb_inv cmp K t" "rb_elems t = []" "rb_replace t = replace" "rb_free t = frees"
  using assms by (auto simp: rbtree_create_def rb_inv_def rb_tree_def)

text \<open>
  C11: a created tree whose callback orders the elements used with it behaves, for every
  sequence of insertions, deletions, searches and size queries, like a plain list with at most
  one element per key: the same results, the same elements handed to \<open>free\<close>. No operation ever
  writes into the sentinel, and the tree stays ordered and red-black balanced, holds exactly
  the elements of the list, and frees exactly those in the end.
\<close>

theorem rbtree_refines_set:
  assumes "rbtree_create True True frees replace = Some t" "rb_order cmp K" "\<Union> (op_keys ` set ops) \<subseteq> K"
    and "spec_run cmp replace frees [] ops = (E, outs)"
  shows "\<exists>t'. set_exec rbtree_insert rbtree_deletebydata rbtree_finddata (\<lambda>t. rbtree_num_elements (Some t)) cmp t ops
       = Some (t', outs) \<and> rb_tree (rb_root t') \<and> in_order cmp (inorder (rb_root t')) \<and>
     mset (inorder (rb_root t')) = mset E \<and> mset (rbtree_free (Some t')) = (if rb_free t' then mset E else {#})"
proof -
  note c = rb_create_inv [OF assms(1,2)]
  obtain t' where t': "set_exec rbtree_insert rbtree_deletebydata rbtree_finddata
      (\<lambda>t. rbtree_num_elements (Some t)) cmp t ops = Some (t', outs)" "rb_inv cmp K t'" "mset (rb_elems t') = mset E"
    using rb.exec_simulates [OF c(1) _ assms(3), of "[]" E outs] assms(4) c by auto
  then show ?thesis by (auto simp: rb_inv_def rbtree_free_def rb_free_walker)
qed

definition nat_cmp :: "nat cmp" where
  "nat_cmp a b = int a - int b"

definition demo_set_ops :: "nat set_op list" where
  "demo_set_ops = [Add 5 True, Add 2 True, Add 9 True, Add 7 True, Add 8 False, Add 7 True, Drop 5, Look 9, Look 5, Num]"

lemma nat_cmp_order: "rb_order nat_cmp K"
  by (auto simp: rb_order_def nat_cmp_def)

theorem rbtree_refines_set_witness:
  "\<exists>t'. set_exec rbtree_insert rbtree_deletebydata rbtree_finddata (\<lambda>t. rbtree_num_elements (Some t)) nat_cmp
      \<lparr>rb_root = NIL, rb_num_elements = 0, rb_free = True, rb_replace = False\<rparr> demo_set_ops
    = Some (t', [Done True [], Done True [], Done True [], Done True [], Done False [], Done False [], Done True [5],
                 Found (Some 9), Found None, Number 3])"
proof -
  have "spec_run nat_cmp False True [] demo_set_ops =
    ([7, 9, 2], [Done True [], Done True [], Done True [], Done True [], Done False [], Done False [], Done True [5],
                 Found (Some 9), Found None, Number 3])"
    by (simp add: demo_set_ops_def nat_cmp_def)
  from rbtree_refines_set [OF _ nat_cmp_order [of UNIV] _ this] show ?thesis
    by (auto simp: rbtree_create_def)
qed

text \<open>
  In a consistent tree of \<open>n\<close> elements no search, insertion or deletion goes down more than
  \<open>2 * log2 (n + 1)\<close> levels, whatever it looks for: the path has length \<open>h\<close> with
  \<open>2 ^ h \<le> (n + 1)\<^sup>2\<close>.
\<close>

lemma rbtree_search_depth:
  assumes "rb_inv cmp K t" "descend cmp x (rb_root t) [] = (u, qs)"
  shows "2 ^ length qs \<le> (rb_num_elements t + 1) ^ 2"
proof -
  have t: "rb_tree (rb_root t)" "rb_num_elements t = int (length (rb_elems t))" using assms by (auto simp: rb_inv_def)
  have "length qs \<le> height (rb_root t)"
    using length_path [of qs u] descend_zip [OF assms(2)] by simp
  then have "(2 :: nat) ^ length qs \<le> 2 ^ height (rb_root t)" by (rule power_increasing) simp
  also have "\<dots> \<le> (length (rb_elems t) + 1) ^ 2" using rb_tree_height [OF t(1)] .
  finally have "int (2 ^ length qs) \<le> int ((length (rb_elems t) + 1) ^ 2)" by (simp only: of_nat_le_iff)
  then show ?thesis by (simp add: t(2) add.commute)
qed

definition demo_rbtree :: "nat rbtree" where
  "demo_rbtree = \<lparr>rb_root = Node BLACK (Node BLACK NIL 1 NIL) 3 (Node BLACK NIL 5 (Node RED NIL 8 NIL)),
     rb_num_elements = 4, rb_free = False, rb_replace = False\<rparr>"

lemma demo_rbtree_inv: "rb_inv nat_cmp UNIV demo_rbtree"
  using nat_cmp_order by (simp add: rb_inv_def demo_rbtree_def rb_tree_def) (simp add: nat_cmp_def)

lemma rbtree_search_depth_witness: "2 ^ length (snd (descend nat_cmp 9 (rb_root demo_rbtree) [])) \<le> (25 :: int)"
proof -
  have d: "descend nat_cmp 9 (rb_root demo_rbtree) [] =
      (NIL, [FR RED NIL 8, FR BLACK NIL 5, FR BLACK (Node BLACK NIL 1 NIL) 3])"
    by (simp add: demo_rbtree_def nat_cmp_def)
  from rbtree_search_depth [OF demo_rbtree_inv d] show ?thesis by (simp add: d)
qed

end
