(* ===== verification/RbWalk.thy ===== *)
theory RbWalk
  imports RbSet
begin

text \<open>
  The walks of \<^verbatim>\<open>lib/rbtree.c\<close>. A callback takes the caller's context and an element and returns
  its code and the new context. The walk in delete order may delete the node it stands on, which
  rotates the tree below it; it remembers the last node it did not delete by its pointer. A
  deletion never moves an element to another node, so that pointer is modelled as the node that
  holds the element, found again by \<open>node_of\<close>.
\<close>

section \<open>Walks that leave the tree alone\<close>

type_synonym ('s, 'a) walker = "'s \<Rightarrow> 'a \<Rightarrow> int \<times> 's"

fun walk_node_pre_order :: "'a tree \<Rightarrow> ('s, 'a) walker \<Rightarrow> 's \<Rightarrow> int \<times> 's" where
  "walk_node_pre_order NIL f s = (0, s)"
| "walk_node_pre_order (Node c l d r) f s =
     (let (rcode, s1) = f s d
      in if rcode \<noteq> 0 then (rcode, s1)
         else let (rcode, s2) = (if l \<noteq> NIL then walk_node_pre_order l f s1 else (0, s1))
              in if rcode \<noteq> 0 then (rcode, s2)
                 else if r \<noteq> NIL then walk_node_pre_order r f s2 else (0, s2))"

fun walk_node_in_order :: "'a tree \<Rightarrow> ('s, 'a) walker \<Rightarrow> 's \<Rightarrow> int \<times> 's" where
  "walk_node_in_order NIL f s = (0, s)"
| "walk_node_in_order (Node c l d r) f s =
     (let (rcode, s1) = (if l \<noteq> NIL then walk_node_in_order l f s else (0, s))
      in if rcode \<noteq> 0 then (rcode, s1)
         else let (rcode, s2) = f s1 d
              in if rcode \<noteq> 0 then (rcode, s2)
                 else if r \<noteq> NIL then walk_node_in_order r f s2 else (0, s2))"

fun walk_node_post_order :: "'a tree \<Rightarrow> ('s, 'a) walker \<Rightarrow> 's \<Rightarrow> int \<times> 's" where
  "walk_node_post_order NIL f s = (0, s)"
| "walk_node_post_order (Node c l d r) f s =
     (let (rcode, s1) = (if l \<noteq> NIL then walk_node_post_order l f s else (0, s))
      in if rcode \<noteq> 0 then (rcode, s1)
         else let (rcode, s2) = (if r \<noteq> NIL then walk_node_post_order r f s1 else (0, s1))
              in if rcode \<noteq> 0 then (rcode, s2) else f s2 d)"

text \<open>The reference: call \<open>f\<close> on the elements of a list until it returns something else than 0.\<close>

fun walk_list :: "('s, 'a) walker \<Rightarrow> 's \<Rightarrow> 'a list \<Rightarrow> int \<times> 's" where
  "walk_list f s [] = (0, s)"
| "walk_list f s (x # xs) = (let (rcode, s1) = f s x in if rcode \<noteq> 0 then (rcode, s1) else walk_list f s1 xs)"

fun preorder :: "'a tree \<Rightarrow> 'a list" where
  "preorder NIL = []"
| "preorder (Node c l d r) = d # preorder l @ preorder r"

lemma walk_list_append:
  "walk_list f s (xs @ ys) =
     (let (rcode, s1) = walk_list f s xs in if rcode \<noteq> 0 then (rcode, s1) else walk_list f s1 ys)"
  by (induction xs arbitrary: s) (auto split: prod.split)

lemma walk_list_single [simp]: "walk_list f s [x] = f s x"
  by (auto split: prod.split)

lemma walk_pre: "walk_node_pre_order t f s = walk_list f s (preorder t)"
  by (induction t arbitrary: s) (auto simp: walk_list_append Let_def split: prod.split)

lemma walk_in: "walk_node_in_order t f s = walk_list f s (inorder t)"
  by (induction t arbitrary: s) (auto simp: walk_list_append Let_def split: prod.split)

lemma walk_post: "walk_node_post_order t f s = walk_list f s (free_walker t)"
  by (induction t arbitrary: s) (auto simp: walk_list_append Let_def split: prod.split)

section \<open>The walk in delete order\<close>

text \<open>The node that holds an element, and the path to it.\<close>

fun node_of :: "'a \<Rightarrow> 'a tree \<Rightarrow> 'a frame list \<Rightarrow> 'a location option" where
  "node_of x NIL ps = None"
| "node_of x (Node c l d r) ps =
     (if d = x then Some (Node c l d r, ps)
      else case node_of x l (FL c d r # ps) of
             Some loc \<Rightarrow> Some loc
           | None \<Rightarrow> node_of x r (FR c l d # ps))"

text \<open>\<open>while (NOT_AT_ROOT(x->parent))\<close>: up to the first parent reached from its left child.\<close>

fun climb :: "'a tree \<Rightarrow> 'a frame list \<Rightarrow> 'a location option" where
  "climb x [] = None"
| "climb x (FL c d r # ps) = Some (Node c x d r, ps)"
| "climb x (FR c l d # ps) = climb (Node c l d x) ps"

text \<open>The next node to visit: the leftmost one while \<open>solid\<close> is NIL, else the one after \<open>solid\<close>.\<close>

definition next_node :: "'a tree \<Rightarrow> 'a option \<Rightarrow> 'a location option" where
  "next_node root solid =
     (case solid of
        None \<Rightarrow> (if root = NIL then None else Some (go_left root []))
      | Some x \<Rightarrow>
          (case node_of x root [] of
             Some (Node c l d r, ps) \<Rightarrow>
               if r \<noteq> NIL then Some (go_left r (FR c l d # ps)) else climb (Node c l d r) ps
           | _ \<Rightarrow> None))"

text \<open>
  The visits: the tree, the elements handed to \<open>free\<close>, the last code of the callback and its
  context. The source's loop has no bound of its own, so this is a partial function; its \<open>None\<close>
  also stands for a write into the sentinel. On a consistent tree neither happens.
\<close>

partial_function (option) walk_delete_order ::
  "('s, 'a) walker \<Rightarrow> 'a rbtree \<Rightarrow> 'a option \<Rightarrow> int \<Rightarrow> 's \<Rightarrow> 'a list \<Rightarrow> ('a rbtree \<times> 'a list \<times> int \<times> 's) option" where
  "walk_delete_order f t solid rcode s freed =
     (case next_node (rb_root t) solid of
        None \<Rightarrow> Some (t, freed, rcode, s)
      | Some (Node c l d r, ps) \<Rightarrow>
          (case f s d of (rcode', s') \<Rightarrow>
             if rcode' < 0 then Some (t, freed, rcode', s')
             else if rcode' \<noteq> 0
             then (case rbtree_delete_internal t (Node c l d r, ps) of
                     None \<Rightarrow> None
                   | Some (t', fs) \<Rightarrow>
                       if rcode' \<noteq> 2 then Some (t', freed @ fs, rcode', s')
                       else walk_delete_order f t' solid rcode' s' (freed @ fs))
             else walk_delete_order f t (Some d) rcode' s' freed)
      | Some (NIL, ps) \<Rightarrow> None)"

datatype rb_order_t = RBTREE_PRE_ORDER | RBTREE_IN_ORDER | RBTREE_POST_ORDER | RBTREE_DELETE_ORDER | RBTREE_OTHER_ORDER

definition rbtree_walk ::
  "'a rbtree \<Rightarrow> rb_order_t \<Rightarrow> ('s, 'a) walker \<Rightarrow> 's \<Rightarrow> ('a rbtree \<times> 'a list \<times> int \<times> 's) option" where
  "rbtree_walk t order f s =
     (if rb_root t = NIL then Some (t, [], 0, s)
      else case order of
             RBTREE_PRE_ORDER \<Rightarrow> Some (t, [], walk_node_pre_order (rb_root t) f s)
           | RBTREE_IN_ORDER \<Rightarrow> Some (t, [], walk_node_in_order (rb_root t) f s)
           | RBTREE_POST_ORDER \<Rightarrow> Some (t, [], walk_node_post_order (rb_root t) f s)
           | RBTREE_DELETE_ORDER \<Rightarrow> walk_delete_order f t None 0 s []
           | RBTREE_OTHER_ORDER \<Rightarrow> Some (t, [], - 1, s))"

text \<open>
  The reference of the delete order: the elements of a list in turn, with the elements kept,
  those deleted, the last code and the context.
\<close>

fun delete_list :: "('s, 'a) walker \<Rightarrow> int \<Rightarrow> 's \<Rightarrow> 'a list \<Rightarrow> 'a list \<times> 'a list \<times> int \<times> 's" where
  "delete_list f rcode s [] = ([], [], rcode, s)"
| "delete_list f rcode s (x # xs) =
     (case f s x of (rcode', s') \<Rightarrow>
        if rcode' < 0 then (x # xs, [], rcode', s')
        else if rcode' = 0
        then (case delete_list f rcode' s' xs of (kept, gone, r) \<Rightarrow> (x # kept, gone, r))
        else if rcode' = 2
        then (case delete_list f rcode' s' xs of (kept, gone, r) \<Rightarrow> (kept, x # gone, r))
        else (xs, [x], rcode', s'))"

section \<open>The next node is the next element\<close>

lemma node_of_zip: "node_of x t ps = Some (u, qs) \<Longrightarrow> zip_up u qs = zip_up t ps"
  by (induction t arbitrary: ps) (auto split: if_splits option.splits)

lemma node_of_data: "node_of x t ps = Some (u, qs) \<Longrightarrow> \<exists>c l r. u = Node c l x r"
  by (induction t arbitrary: ps) (auto split: if_splits option.splits)

lemma node_of_None: "node_of x t ps = None \<longleftrightarrow> x \<notin> set (inorder t)"
proof (induction t arbitrary: ps)
  case (Node c l d r)
  show ?case using Node(1) [of "FL c d r # ps"] Node(2) [of "FR c l d # ps"]
    by (cases "node_of x l (FL c d r # ps)") auto
qed simp

lemma climb_next:
  "case climb t ps of
     None \<Rightarrow> after ps = []
   | Some (u, qs) \<Rightarrow> \<exists>c l d r. u = Node c l d r \<and> zip_up u qs = zip_up t ps \<and> after ps = d # inorder r @ after qs"
  by (induction t ps rule: climb.induct) (auto split: option.splits)

lemma go_left_next:
  assumes "t \<noteq> NIL"
  obtains c d r qs where "go_left t ps = (Node c NIL d r, qs)" "zip_up (Node c NIL d r) qs = zip_up t ps"
    "inorder t @ after ps = d # inorder r @ after qs" "before qs = before ps"
proof -
  obtain c d r qs where g: "go_left t ps = (Node c NIL d r, qs)" using go_left_node [OF assms] by blast
  note z = go_left_zip [OF g] and b = go_left_before [OF g]
  from arg_cong [OF z, of inorder] b have "inorder t @ after ps = d # inorder r @ after qs" by simp
  from that [OF g z this b] show thesis .
qed

text \<open>With the elements before and at \<open>solid\<close> split off, the next node holds the next element.\<close>

lemma next_node_split:
  assumes "distinct (inorder root)" "inorder root = xs @ ys" "solid = (if xs = [] then None else Some (last xs))"
  shows "case next_node root solid of
     None \<Rightarrow> ys = []
   | Some (u, ps) \<Rightarrow> \<exists>c l d r. u = Node c l d r \<and> zip_up u ps = root \<and> before ps @ inorder l = xs \<and> ys = d # inorder r @ after ps"
proof (cases "xs = []")
  case True
  show ?thesis
  proof (cases "root = NIL")
    case False
    then obtain c d r qs where g: "go_left root [] = (Node c NIL d r, qs)" "zip_up (Node c NIL d r) qs = root"
      "inorder root @ [] = d # inorder r @ after qs" "before qs = []"
      using go_left_next [of root "[]"] by (metis after.simps(1) before.simps(1) zip_up.simps(1))
    then show ?thesis using True False assms(2,3) by (auto simp: next_node_def)
  qed (use True assms in \<open>simp add: next_node_def\<close>)
next
  case False
  define x where "x = last xs"
  have "x \<in> set (inorder root)" using False assms(2) by (simp add: x_def)
  then obtain c l r ps where n: "node_of x root [] = Some (Node c l x r, ps)"
    using node_of_None [of x root "[]"] node_of_data by (metis option.exhaust surj_pair)
  have z: "zip_up (Node c l x r) ps = root" using node_of_zip [OF n] by simp
  have e: "(before ps @ inorder l) @ x # inorder r @ after ps = butlast xs @ x # ys"
    using arg_cong [OF z, of inorder] assms(2) False by (simp add: x_def)
  have "distinct ((before ps @ inorder l) @ x # inorder r @ after ps)"
    using assms(1) arg_cong [OF z, of inorder] by simp
  then have "x \<notin> set (before ps @ inorder l)" "x \<notin> set (inorder r @ after ps)" by auto
  from append_Cons_eq_iff [OF this, of "butlast xs" ys] e
  have e': "before ps @ inorder l = butlast xs" "inorder r @ after ps = ys" by simp_all
  have xs: "xs = before ps @ inorder l @ [x]" using e'(1) False by (metis append.assoc append_butlast_last_id x_def)
  show ?thesis
  proof (cases "r = NIL")
    case True
    then have "next_node root solid = climb (Node c l x r) ps" using n False assms(3) by (simp add: next_node_def x_def)
    moreover have "u = Node c' l' d' r' \<Longrightarrow> zip_up u qs = root \<Longrightarrow> ys = d' # inorder r' @ after qs \<Longrightarrow>
        before qs @ inorder l' = xs" for u c' l' d' r' qs
    proof -
      assume u: "u = Node c' l' d' r'" "zip_up u qs = root" "ys = d' # inorder r' @ after qs"
      have "inorder root = before qs @ inorder (Node c' l' d' r') @ after qs"
        by (metis u(1,2) inorder_zip)
      with assms(2) u(3) show ?thesis by simp
    qed
    ultimately show ?thesis using climb_next [of ps "Node c l x r"] True z e'(2) by (auto split: option.splits)
  next
    case r: False
    then have nn: "next_node root solid = Some (go_left r (FR c l x # ps))"
      using n False assms(3) by (simp add: next_node_def x_def)
    obtain c' d' r' qs where g: "go_left r (FR c l x # ps) = (Node c' NIL d' r', qs)"
      "zip_up (Node c' NIL d' r') qs = zip_up r (FR c l x # ps)"
      "inorder r @ after (FR c l x # ps) = d' # inorder r' @ after qs" "before qs = before (FR c l x # ps)"
      using go_left_next [OF r, of "FR c l x # ps"] by blast
    then show ?thesis using nn z e'(2) xs by simp
  qed
qed

lemma walk_delete_correct:
  assumes "rb_inv cmp K t" "rb_elems t = xs @ ys" "solid = (if xs = [] then None else Some (last xs))"
    and "delete_list f rcode s ys = (kept, gone, r)"
  shows "\<exists>t'. walk_delete_order f t solid rcode s freed = Some (t', freed @ (if rb_free t then gone else []), r) \<and>
     rb_inv cmp K t' \<and> rb_elems t' = xs @ kept"
  using assms
proof (induction ys arbitrary: t xs solid rcode s freed kept gone)
  case Nil
  have "distinct (rb_elems t)" using Nil.prems(1) in_order_distinct by (auto simp: rb_inv_def)
  from next_node_split [OF this Nil.prems(2,3)] have "next_node (rb_root t) solid = None"
    by (auto split: option.splits)
  with Nil show ?case by (simp add: walk_delete_order.simps)
next
  case (Cons y ys)
  have "distinct (rb_elems t)" using Cons.prems(1) in_order_distinct by (auto simp: rb_inv_def)
  from next_node_split [OF this Cons.prems(2,3)] obtain c l rr ps where
    n: "next_node (rb_root t) solid = Some (Node c l y rr, ps)" "zip_up (Node c l y rr) ps = rb_root t"
       "before ps @ inorder l = xs" "ys = inorder rr @ after ps" by (auto split: option.splits)
  obtain rcode' s' where f: "f s y = (rcode', s')" by fastforce
  from rb_delete_at [OF Cons.prems(1) n(2)] n(3,4) obtain t' where
    d: "rbtree_delete_internal t (Node c l y rr, ps) = Some (t', if rb_free t then [y] else [])"
       "rb_inv cmp K t'" "rb_elems t' = xs @ ys" "rb_free t' = rb_free t" by auto
  consider (error) "rcode' < 0" | (keep) "rcode' = 0" | (drop) "rcode' = 2" | (stop) "rcode' > 0" "rcode' \<noteq> 2"
    by linarith
  then show ?case
  proof cases
    case error
    then have k: "kept = y # ys" "gone = []" "r = (rcode', s')" using Cons.prems(4) f by auto
    show ?thesis using error n(1) f Cons.prems(1,2)
      by (subst walk_delete_order.simps) (simp add: k)
  next
    case keep
    then obtain kept1 where k: "delete_list f 0 s' ys = (kept1, gone, r)" "kept = y # kept1"
      using Cons.prems(4) f by (auto split: prod.splits)
    have e: "rb_elems t = (xs @ [y]) @ ys" using Cons.prems(2) by simp
    from Cons.IH [OF Cons.prems(1) e refl k(1), of freed] k(2) n(1) f keep show ?thesis
      by (subst walk_delete_order.simps) simp
  next
    case drop
    then obtain gone1 where k: "delete_list f 2 s' ys = (kept, gone1, r)" "gone = y # gone1"
      using Cons.prems(4) f by (auto split: prod.splits)
    from Cons.IH [OF d(2,3) Cons.prems(3) k(1), of "freed @ (if rb_free t then [y] else [])"] k(2) n(1) f drop d
    show ?thesis by (subst walk_delete_order.simps) auto
  next
    case stop
    then have k: "kept = ys" "gone = [y]" "r = (rcode', s')" using Cons.prems(4) f by auto
    show ?thesis using stop n(1) f d by (subst walk_delete_order.simps) (simp add: k)
  qed
qed

section \<open>Properties\<close>

text \<open>
  C37: the walks of a consistent tree. Pre-, in- and post-order call the callback on the elements
  in that order until it returns something else than 0, which is the result. The walk in delete
  order visits every element once in ascending order although it rebalances the tree on the way,
  deletes exactly those for which the callback returns a positive code, goes on after 0 and 2
  only, and leaves a consistent tree of the others; its result is the code of the last call.
\<close>

theorem rbtree_walk_correct:
  assumes "rb_inv cmp K t"
  shows "rbtree_walk t RBTREE_PRE_ORDER f s = Some (t, [], walk_list f s (preorder (rb_root t))) \<and>
     rbtree_walk t RBTREE_IN_ORDER f s = Some (t, [], walk_list f s (rb_elems t)) \<and>
     rbtree_walk t RBTREE_POST_ORDER f s = Some (t, [], walk_list f s (free_walker (rb_root t))) \<and>
     (case delete_list f 0 s (rb_elems t) of (kept, gone, r) \<Rightarrow>
        \<exists>t'. rbtree_walk t RBTREE_DELETE_ORDER f s = Some (t', if rb_free t then gone else [], r) \<and>
             rb_inv cmp K t' \<and> rb_elems t' = kept)"
proof (intro conjI)
  obtain kept gone r where d: "delete_list f 0 s (rb_elems t) = (kept, gone, r)" using prod_cases3 by blast
  from walk_delete_correct [OF assms _ _ d, of "[]" None "[]"] d assms
  show "case delete_list f 0 s (rb_elems t) of (kept, gone, r) \<Rightarrow>
        \<exists>t'. rbtree_walk t RBTREE_DELETE_ORDER f s = Some (t', if rb_free t then gone else [], r) \<and>
             rb_inv cmp K t' \<and> rb_elems t' = kept"
    by (cases "rb_root t = NIL") (auto simp: rbtree_walk_def)
qed (auto simp: rbtree_walk_def walk_pre walk_in walk_post)

definition odd_walker :: "(nat list, nat) walker" where
  "odd_walker seen x = (if x = 8 then 1 else if x mod 4 = 1 then 2 else 0, x # seen)"

theorem rbtree_walk_correct_witness:
  "\<exists>t'. rbtree_walk demo_rbtree RBTREE_DELETE_ORDER odd_walker [] = Some (t', [], 1, [8, 5, 3, 1]) \<and> rb_elems t' = [3]"
proof -
  have "delete_list odd_walker 0 [] (rb_elems demo_rbtree) = ([3], [1, 5, 8], 1, [8, 5, 3, 1])"
    by (simp add: demo_rbtree_def odd_walker_def)
  with rbtree_walk_correct [OF demo_rbtree_inv, of odd_walker "[]"] show ?thesis by (auto simp: demo_rbtree_def)
qed

end
