(* ===== verification/BlockHash.thy ===== *)
theory BlockHash
  imports Prelude
begin

text \<open>
  What the message digests of the library share: bytes and words, the iteration of a
  compression function over 64-byte blocks, and the interface \<open>hash_stream\<close> of a digest context
  that is fed in pieces. MD5, MD4 and SHA-1 provide it; HMAC and the RADIUS code use it.
\<close>

section \<open>Bytes of words\<close>

text \<open>\<open>(uint8_t) (w >> n)\<close>, the four bytes of a word in both orders, and the inverse.\<close>

definition byte_at :: "u32 \<Rightarrow> nat \<Rightarrow> byte" where
  "byte_at w n = ucast (drop_bit n w)"

definition le_bytes :: "u32 \<Rightarrow> byte list" where
  "le_bytes w = [byte_at w 0, byte_at w 8, byte_at w 16, byte_at w 24]"

definition be_bytes :: "u32 \<Rightarrow> byte list" where
  "be_bytes w = [byte_at w 24, byte_at w 16, byte_at w 8, byte_at w 0]"

definition le_word :: "byte list \<Rightarrow> nat \<Rightarrow> u32" where
  "le_word b i = ucast (b ! i) OR push_bit 8 (ucast (b ! (i + 1))) OR
     push_bit 16 (ucast (b ! (i + 2))) OR push_bit 24 (ucast (b ! (i + 3)))"

definition be_word :: "byte list \<Rightarrow> nat \<Rightarrow> u32" where
  "be_word b i = push_bit 24 (ucast (b ! i)) OR push_bit 16 (ucast (b ! (i + 1))) OR
     push_bit 8 (ucast (b ! (i + 2))) OR ucast (b ! (i + 3))"

definition rol :: "u32 \<Rightarrow> nat \<Rightarrow> u32" where
  "rol w s = push_bit s w OR drop_bit (32 - s) w"

lemma le_bytes_length [simp]: "length (le_bytes w) = 4"
  by (simp add: le_bytes_def)

lemma be_bytes_length [simp]: "length (be_bytes w) = 4"
  by (simp add: be_bytes_def)

section \<open>Parts of buffers\<close>

text \<open>\<open>len\<close> bytes from offset \<open>n\<close>.\<close>

definition slice :: "byte list \<Rightarrow> nat \<Rightarrow> nat \<Rightarrow> byte list" where
  "slice buf n len = take len (drop n buf)"

lemma slice_parts:
  "take i (slice b k len) = slice b k (min i len)" "drop i (slice b k len) = slice b (k + i) (len - i)"
  "length b \<ge> k + len \<Longrightarrow> length (slice b k len) = len"
  by (simp_all add: slice_def drop_take add.commute)

section \<open>Blocks\<close>

text \<open>The compression function applied to the complete blocks of a message.\<close>

function blocks :: "('s \<Rightarrow> byte list \<Rightarrow> 's) \<Rightarrow> 's \<Rightarrow> byte list \<Rightarrow> 's" where
  "blocks f s xs = (if length xs < 64 then s else blocks f (f s (take 64 xs)) (drop 64 xs))"
  by auto
termination by (relation "measure (\<lambda>(f, s, xs). length xs)") auto

declare blocks.simps [simp del]

text \<open>What is left after them.\<close>

definition tail64 :: "byte list \<Rightarrow> byte list" where
  "tail64 xs = drop (64 * (length xs div 64)) xs"

lemma blocks_short: "length xs < 64 \<Longrightarrow> blocks f s xs = s"
  by (subst blocks.simps) simp

lemma blocks_step: "64 \<le> length xs \<Longrightarrow> blocks f s xs = blocks f (f s (take 64 xs)) (drop 64 xs)"
  by (subst blocks.simps) simp

lemma tail64_length: "length (tail64 xs) = length xs mod 64"
  by (simp add: tail64_def minus_mult_div_eq_mod)

lemma tail64_short: "length xs < 64 \<Longrightarrow> tail64 xs = xs"
  by (simp add: tail64_def)

lemma tail64_step: "64 \<le> length xs \<Longrightarrow> tail64 (drop 64 xs) = tail64 xs"
proof -
  assume le: "64 \<le> length xs"
  then obtain n where "length xs = 64 + n" using le_Suc_ex by blast
  moreover have "(64 + n) div 64 = Suc (n div 64)" by simp
  ultimately show ?thesis by (simp add: tail64_def add.commute)
qed

lemma blocks_append: "blocks f s (xs @ ys) = blocks f (blocks f s xs) (tail64 xs @ ys)"
proof (induction xs arbitrary: s rule: length_induct)
  case (1 xs)
  show ?case
  proof (cases "length xs < 64")
    case True
    then show ?thesis by (simp add: blocks_short tail64_short)
  next
    case False
    have "blocks f s (xs @ ys) = blocks f (f s (take 64 xs)) (drop 64 xs @ ys)"
      using False by (subst blocks_step) auto
    also have "\<dots> = blocks f (blocks f (f s (take 64 xs)) (drop 64 xs)) (tail64 (drop 64 xs) @ ys)"
      using 1 False by simp
    finally show ?thesis using False tail64_step blocks_step [of xs f s] by simp
  qed
qed

lemma tail64_append: "tail64 (xs @ ys) = tail64 (tail64 xs @ ys)"
proof (induction xs rule: length_induct)
  case (1 xs)
  show ?case
  proof (cases "length xs < 64")
    case False
    then have "tail64 (xs @ ys) = tail64 (drop 64 xs @ ys)"
      using tail64_step [of "xs @ ys"] by simp
    also have "\<dots> = tail64 (tail64 (drop 64 xs) @ ys)" using 1 False by simp
    finally show ?thesis using False tail64_step by simp
  qed (simp add: tail64_short)
qed

lemma blocks_multiple: "length xs mod 64 = 0 \<Longrightarrow> blocks f s (xs @ ys) = blocks f (blocks f s xs) ys"
  using tail64_length [of xs] by (simp add: blocks_append)

text \<open>
  A context keeps the incomplete block \<open>t\<close> in its buffer. New bytes either stay in it or complete
  it and are then processed block by block.
\<close>

lemma fill_block:
  assumes "length t < 64" "64 - length t \<le> length xs"
  shows "blocks f s (t @ xs) = blocks f (f s (t @ take (64 - length t) xs)) (drop (64 - length t) xs)"
    and "tail64 (t @ xs) = tail64 (drop (64 - length t) xs)"
  using assms blocks_step [of "t @ xs" f s] tail64_step [of "t @ xs"] by auto

text \<open>The 32-bit bit counter and the number of buffered bytes it encodes.\<close>

definition bit_count :: "byte list \<Rightarrow> u32" where
  "bit_count m = word_of_nat (8 * length m)"

lemma bit_count_append: "bit_count (m @ xs) = bit_count m + push_bit 3 (word_of_nat (length xs))"
  by (simp add: bit_count_def push_bit_eq_mult distrib_left)

lemma unat_bit_count: "length m < 2 ^ 29 \<Longrightarrow> unat (bit_count m) = 8 * length m"
  by (simp add: bit_count_def unat_of_nat take_bit_nat_eq_self del: of_nat_mult)

lemma unat_drop_bit: "unat (drop_bit n w) = unat w div 2 ^ n" for w :: u32
  unfolding unat_drop_bit_eq by (rule drop_bit_eq_div)

lemma unat_and_63: "unat (w AND 63) = unat w mod 64" for w :: u32
proof -
  have "w AND 63 = take_bit 6 w" by (simp add: take_bit_eq_mask mask_numeral)
  then have "unat (w AND 63) = take_bit 6 (unat w)" by (simp only: unsigned_take_bit_eq)
  then show ?thesis by (simp add: take_bit_eq_mod)
qed

lemma buffered: "length m < 2 ^ 29 \<Longrightarrow> unat (drop_bit 3 (bit_count m) AND 63) = length m mod 64"
  by (simp add: unat_and_63 unat_drop_bit unat_bit_count)

section \<open>Contexts fed in pieces\<close>

text \<open>
  \<open>absorbed c m\<close>: the context has taken in the message \<open>m\<close>. Messages stay below \<open>2^29 - 72\<close> bytes,
  where the 32-bit bit counter of the contexts does not overflow (64 + 8 bytes of padding included).
\<close>

definition hash_limit :: nat where
  "hash_limit = 2 ^ 29 - 72"

locale hash_stream =
  fixes start :: 'c
    and upd :: "'c \<Rightarrow> byte list \<Rightarrow> 'c"
    and fin :: "'c \<Rightarrow> byte list"
    and absorbed :: "'c \<Rightarrow> byte list \<Rightarrow> bool"
    and hash :: "byte list \<Rightarrow> byte list"
    and hlen :: nat
  assumes start_absorbed: "absorbed start []"
    and upd_absorbed: "\<lbrakk>absorbed c m; length m + length xs < hash_limit\<rbrakk> \<Longrightarrow> absorbed (upd c xs) (m @ xs)"
    and fin_hash: "\<lbrakk>absorbed c m; length m < hash_limit\<rbrakk> \<Longrightarrow> fin c = hash m"
    and hash_length: "length (hash m) = hlen"
begin

lemma foldl_absorbed:
  "\<lbrakk>absorbed c m; length (m @ concat xss) < hash_limit\<rbrakk> \<Longrightarrow> absorbed (foldl upd c xss) (m @ concat xss)"
proof (induction xss arbitrary: c m)
  case (Cons xs xss)
  have "absorbed (upd c xs) (m @ xs)" using Cons.prems by (intro upd_absorbed) simp_all
  from Cons.IH [OF this] show ?case using Cons.prems(2) by simp
qed simp

lemma stream: "length (concat xss) < hash_limit \<Longrightarrow> fin (foldl upd start xss) = hash (concat xss)"
  using foldl_absorbed [OF start_absorbed, of xss] fin_hash [of _ "concat xss"] by simp

lemma one: "length xs < hash_limit \<Longrightarrow> fin (upd start xs) = hash xs"
  using stream [of "[xs]"] by simp

lemma two: "length xs + length ys < hash_limit \<Longrightarrow> fin (upd (upd start xs) ys) = hash (xs @ ys)"
  using stream [of "[xs, ys]"] by simp

lemma three: "length xs + length ys + length zs < hash_limit \<Longrightarrow>
    fin (upd (upd (upd start xs) ys) zs) = hash (xs @ ys @ zs)"
  using stream [of "[xs, ys, zs]"] by simp

lemma four: "length xs + length ys + length zs + length us < hash_limit \<Longrightarrow>
    fin (upd (upd (upd (upd start xs) ys) zs) us) = hash (xs @ ys @ zs @ us)"
  using stream [of "[xs, ys, zs, us]"] by simp

end

end
