(* ===== verification/Packet.thy ===== *)
theory Packet
  imports RbSet RbWalk BlockHash
begin

text \<open>
  The packet list of \<^verbatim>\<open>lib/packet.c\<close>: the requests in flight in a red-black tree, ordered by
  \<^verbatim>\<open>fr_packet_cmp\<close>, and a table of sockets, each with 256 bits for its RADIUS identifiers.

  A packet is known by the address its users keep of it (their \<^verbatim>\<open>RADIUS_PACKET **\<close>), and \<open>mem\<close> is
  the memory behind these addresses, reduced to the fields the list reads and writes. The tree
  compares through this memory. An operation that looks a packet up through a local variable has
  the address of that variable as an argument \<open>local\<close>. The union of an address is its 16 bytes;
  hosts are little-endian. The results of the allocator, of \<^verbatim>\<open>fr_rand\<close>, of \<^verbatim>\<open>getsockname\<close> and of the
  receive functions are arguments. The code is that of a build with TCP and IPv6.
\<close>

section \<open>Addresses and packets\<close>

definition AF_UNSPEC :: int where "AF_UNSPEC = 0"
definition AF_INET :: int where "AF_INET = 2"
definition AF_INET6 :: int where "AF_INET6 = 10"
definition IPPROTO_TCP :: int where "IPPROTO_TCP = 6"
definition IPPROTO_UDP :: int where "IPPROTO_UDP = 17"

record ipaddr =
  ip_af :: int
  ip_addr :: "byte list"
  ip_prefix :: byte
  ip_scope :: u32

definition zero_ipaddr :: ipaddr where
  "zero_ipaddr = \<lparr>ip_af = 0, ip_addr = replicate 16 0, ip_prefix = 0, ip_scope = 0\<rparr>"

definition s_addr :: "ipaddr \<Rightarrow> u32" where
  "s_addr a = le_word (ip_addr a) 0"

fun memcmp :: "byte list \<Rightarrow> byte list \<Rightarrow> int" where
  "memcmp (x # xs) (y # ys) = (if x = y then memcmp xs ys else uint x - uint y)"
| "memcmp _ _ = 0"

definition fr_ipaddr_cmp :: "ipaddr cmp" where
  "fr_ipaddr_cmp a b =
     (if ip_af a < ip_af b then - 1
      else if ip_af a > ip_af b then 1
      else if ip_prefix a < ip_prefix b then - 1
      else if ip_prefix a > ip_prefix b then 1
      else if ip_af a = AF_INET then memcmp (take 4 (ip_addr a)) (take 4 (ip_addr b))
      else if ip_af a = AF_INET6
      then (if ip_scope a < ip_scope b then - 1
            else if ip_scope a > ip_scope b then 1
            else memcmp (take 16 (ip_addr a)) (take 16 (ip_addr b)))
      else - 1)"

definition fr_inaddr_any :: "ipaddr \<Rightarrow> int" where
  "fr_inaddr_any a =
     (if ip_af a = AF_INET then (if s_addr a = 0 then 1 else 0)
      else if ip_af a = AF_INET6 then (if take 16 (ip_addr a) = replicate 16 0 then 1 else 0)
      else - 1)"

record packet =
  p_sockfd :: int
  p_id :: int
  p_src_ipaddr :: ipaddr
  p_dst_ipaddr :: ipaddr
  p_src_port :: u16
  p_dst_port :: u16
  p_proto :: int

definition fr_packet_cmp :: "packet cmp" where
  "fr_packet_cmp a b =
     (if p_id a < p_id b then - 1
      else if p_id a > p_id b then 1
      else if p_sockfd a < p_sockfd b then - 1
      else if p_sockfd a > p_sockfd b then 1
      else let rcode = uint (p_src_port a) - uint (p_src_port b)
           in if rcode \<noteq> 0 then rcode
              else let rcode = fr_ipaddr_cmp (p_src_ipaddr a) (p_src_ipaddr b)
                   in if rcode \<noteq> 0 then rcode
                      else let rcode = fr_ipaddr_cmp (p_dst_ipaddr a) (p_dst_ipaddr b)
                           in if rcode \<noteq> 0 then rcode
                              else uint (p_dst_port a) - uint (p_dst_port b))"

definition fr_request_from_reply :: "packet \<Rightarrow> packet \<Rightarrow> packet" where
  "fr_request_from_reply request reply =
     request\<lparr>p_sockfd := p_sockfd reply, p_id := p_id reply, p_proto := p_proto reply,
             p_src_port := p_dst_port reply, p_dst_port := p_src_port reply,
             p_src_ipaddr := p_dst_ipaddr reply, p_dst_ipaddr := p_src_ipaddr reply\<rparr>"

section \<open>Sockets\<close>

record packet_socket =
  ps_sockfd :: int
  ps_ctx :: nat
  ps_num_outgoing :: u32
  ps_src_any :: int
  ps_src_ipaddr :: ipaddr
  ps_src_port :: u16
  ps_dst_any :: int
  ps_dst_ipaddr :: ipaddr
  ps_dst_port :: u16
  ps_dont_use :: bool
  ps_proto :: int
  ps_id :: "byte list"

record packet_list =
  pl_tree :: "nat rbtree"
  pl_alloc_id :: int
  pl_num_outgoing :: u32
  pl_last_recv :: nat
  pl_num_sockets :: int
  pl_sockets :: "packet_socket list"

definition FNV_MAGIC_PRIME :: int where "FNV_MAGIC_PRIME = 0x01000193"
definition MAX_SOCKETS :: nat where "MAX_SOCKETS = 1024"

text \<open>The product wraps around on the machine; its low ten bits are those of the exact product.\<close>

definition SOCK2OFFSET :: "int \<Rightarrow> nat" where
  "SOCK2OFFSET sockfd = nat ((sockfd * FNV_MAGIC_PRIME) mod int MAX_SOCKETS)"

definition zero_socket :: packet_socket where
  "zero_socket = \<lparr>ps_sockfd = 0, ps_ctx = 0, ps_num_outgoing = 0, ps_src_any = 0, ps_src_ipaddr = zero_ipaddr,
     ps_src_port = 0, ps_dst_any = 0, ps_dst_ipaddr = zero_ipaddr, ps_dst_port = 0, ps_dont_use = False,
     ps_proto = 0, ps_id = replicate 32 0\<rparr>"

text \<open>The scan of the table from the hash of the descriptor, once around.\<close>

fun socket_scan :: "packet_socket list \<Rightarrow> int \<Rightarrow> nat \<Rightarrow> nat \<Rightarrow> nat option" where
  "socket_scan sockets sockfd i 0 = None"
| "socket_scan sockets sockfd i (Suc k) =
     (if ps_sockfd (sockets ! i) = sockfd then Some i
      else socket_scan sockets sockfd ((i + 1) mod MAX_SOCKETS) k)"

definition fr_socket_find :: "packet_list \<Rightarrow> int \<Rightarrow> nat option" where
  "fr_socket_find pl sockfd = socket_scan (pl_sockets pl) sockfd (SOCK2OFFSET sockfd) MAX_SOCKETS"

definition set_socket :: "packet_list \<Rightarrow> nat \<Rightarrow> packet_socket \<Rightarrow> packet_list" where
  "set_socket pl i ps = pl\<lparr>pl_sockets := (pl_sockets pl)[i := ps]\<rparr>"

definition fr_packet_list_socket_freeze :: "packet_list \<Rightarrow> int \<Rightarrow> packet_list \<times> bool" where
  "fr_packet_list_socket_freeze pl sockfd =
     (case fr_socket_find pl sockfd of
        None \<Rightarrow> (pl, False)
      | Some i \<Rightarrow> (set_socket pl i ((pl_sockets pl ! i)\<lparr>ps_dont_use := True\<rparr>), True))"

definition fr_packet_list_socket_thaw :: "packet_list \<Rightarrow> int \<Rightarrow> packet_list \<times> bool" where
  "fr_packet_list_socket_thaw pl sockfd =
     (case fr_socket_find pl sockfd of
        None \<Rightarrow> (pl, False)
      | Some i \<Rightarrow> (set_socket pl i ((pl_sockets pl ! i)\<lparr>ps_dont_use := False\<rparr>), True))"

definition fr_packet_list_socket_del :: "packet_list \<Rightarrow> int \<Rightarrow> packet_list \<times> bool" where
  "fr_packet_list_socket_del pl sockfd =
     (case fr_socket_find pl sockfd of
        None \<Rightarrow> (pl, False)
      | Some i \<Rightarrow>
          if ps_num_outgoing (pl_sockets pl ! i) \<noteq> 0 then (pl, False)
          else ((set_socket pl i ((pl_sockets pl ! i)\<lparr>ps_sockfd := - 1\<rparr>))
                  \<lparr>pl_num_sockets := pl_num_sockets pl - 1\<rparr>, True))"

text \<open>
  \<open>getsockname\<close> says whether that call succeeds, \<open>src\<close> is the address and port \<^verbatim>\<open>fr_sockaddr2ipaddr\<close>
  finds in its answer, if any. The entry is zeroed before the calls that can fail.
\<close>

definition fr_packet_list_socket_add ::
  "packet_list \<Rightarrow> int \<Rightarrow> int \<Rightarrow> ipaddr option \<Rightarrow> u16 \<Rightarrow> nat \<Rightarrow> bool \<Rightarrow> (ipaddr \<times> u16) option \<Rightarrow> packet_list \<times> bool" where
  "fr_packet_list_socket_add pl sockfd proto dst_ipaddr dst_port ctx getsockname src =
     (case dst_ipaddr of
        None \<Rightarrow> (pl, False)
      | Some dst \<Rightarrow>
          if ip_af dst = AF_UNSPEC then (pl, False)
          else if pl_num_sockets pl \<ge> int MAX_SOCKETS then (pl, False)
          else (case socket_scan (pl_sockets pl) (- 1) (SOCK2OFFSET sockfd) MAX_SOCKETS of
                  None \<Rightarrow> (pl, False)
                | Some i \<Rightarrow>
                    let ps = zero_socket\<lparr>ps_ctx := ctx, ps_proto := proto\<rparr>
                    in if \<not> getsockname then (set_socket pl i ps, False)
                       else case src of
                         None \<Rightarrow> (set_socket pl i ps, False)
                       | Some (addr, port) \<Rightarrow>
                           let ps1 = ps\<lparr>ps_src_ipaddr := addr, ps_src_port := port,
                                        ps_dst_ipaddr := dst, ps_dst_port := dst_port,
                                        ps_src_any := fr_inaddr_any addr\<rparr>
                           in if ps_src_any ps1 < 0 then (set_socket pl i ps1, False)
                              else let ps2 = ps1\<lparr>ps_dst_any := fr_inaddr_any dst\<rparr>
                                   in if ps_dst_any ps2 < 0 then (set_socket pl i ps2, False)
                                      else ((set_socket pl i (ps2\<lparr>ps_sockfd := sockfd\<rparr>))
                                              \<lparr>pl_num_sockets := pl_num_sockets pl + 1\<rparr>, True)))"

section \<open>The packets\<close>

definition packet_entry_cmp :: "(nat \<Rightarrow> packet) \<Rightarrow> nat cmp" where
  "packet_entry_cmp mem one two = fr_packet_cmp (mem one) (mem two)"

definition fr_packet_list_free :: "packet_list option \<Rightarrow> nat list" where
  "fr_packet_list_free pl = (case pl of None \<Rightarrow> [] | Some pl \<Rightarrow> rbtree_free (Some (pl_tree pl)))"

definition fr_packet_list_create :: "bool \<Rightarrow> bool \<Rightarrow> int \<Rightarrow> packet_list option" where
  "fr_packet_list_create malloc_ok talloc_ok alloc_id =
     (if \<not> malloc_ok then None
      else case rbtree_create True talloc_ok False False of
        None \<Rightarrow> None
      | Some tree \<Rightarrow>
          Some \<lparr>pl_tree = tree, pl_alloc_id = alloc_id, pl_num_outgoing = 0, pl_last_recv = 0, pl_num_sockets = 0,
                pl_sockets = replicate MAX_SOCKETS (zero_socket\<lparr>ps_sockfd := - 1\<rparr>)\<rparr>)"

definition fr_packet_list_insert ::
  "bool \<Rightarrow> (nat \<Rightarrow> packet) \<Rightarrow> packet_list \<Rightarrow> nat \<Rightarrow> (packet_list \<times> bool) option" where
  "fr_packet_list_insert talloc_ok mem pl request =
     map_option (\<lambda>(tree, freed, r). (pl\<lparr>pl_tree := tree\<rparr>, r))
       (rbtree_insert (packet_entry_cmp mem) talloc_ok (pl_tree pl) request)"

definition fr_packet_list_find :: "(nat \<Rightarrow> packet) \<Rightarrow> packet_list \<Rightarrow> nat \<Rightarrow> nat option" where
  "fr_packet_list_find mem pl request = rbtree_finddata (packet_entry_cmp mem) (pl_tree pl) request"

text \<open>
  The reply is written for TCP. \<open>request\<close> is the local copy, whose other fields are never read;
  the results are the memory and the packet found.
\<close>

definition fr_packet_list_find_byreply ::
  "nat \<Rightarrow> (nat \<Rightarrow> packet) \<Rightarrow> packet_list \<Rightarrow> nat \<Rightarrow> (nat \<Rightarrow> packet) \<times> nat option" where
  "fr_packet_list_find_byreply local mem pl reply =
     (case fr_socket_find pl (p_sockfd (mem reply)) of
        None \<Rightarrow> (mem, None)
      | Some i \<Rightarrow>
          let ps = pl_sockets pl ! i;
              request = (mem local)\<lparr>p_sockfd := p_sockfd (mem reply), p_id := p_id (mem reply)\<rparr>;
              (mem1, request1) =
                (if ps_proto ps = IPPROTO_TCP
                 then (mem(reply := (mem reply)\<lparr>p_dst_ipaddr := ps_src_ipaddr ps, p_dst_port := ps_src_port ps,
                                                p_src_ipaddr := ps_dst_ipaddr ps, p_src_port := ps_dst_port ps\<rparr>),
                       request\<lparr>p_src_ipaddr := ps_src_ipaddr ps, p_src_port := ps_src_port ps,
                               p_dst_ipaddr := ps_dst_ipaddr ps, p_dst_port := ps_dst_port ps\<rparr>)
                 else (mem,
                       request\<lparr>p_src_ipaddr := (if ps_src_any ps \<noteq> 0 then ps_src_ipaddr ps else p_dst_ipaddr (mem reply)),
                               p_src_port := ps_src_port ps,
                               p_dst_ipaddr := p_src_ipaddr (mem reply), p_dst_port := p_src_port (mem reply)\<rparr>));
              mem2 = mem1(local := request1\<lparr>p_proto := p_proto (mem1 reply)\<rparr>)
          in (mem2, rbtree_finddata (packet_entry_cmp mem2) (pl_tree pl) local))"

definition fr_packet_list_yank :: "(nat \<Rightarrow> packet) \<Rightarrow> packet_list \<Rightarrow> nat \<Rightarrow> (packet_list \<times> bool) option" where
  "fr_packet_list_yank mem pl request =
     (case rbtree_find (packet_entry_cmp mem) (pl_tree pl) request of
        None \<Rightarrow> Some (pl, False)
      | Some node \<Rightarrow>
          map_option (\<lambda>(tree, freed). (pl\<lparr>pl_tree := tree\<rparr>, True)) (rbtree_delete_internal (pl_tree pl) node))"

definition fr_packet_list_num_elements :: "packet_list option \<Rightarrow> u32" where
  "fr_packet_list_num_elements pl = (case pl of None \<Rightarrow> 0 | Some pl \<Rightarrow> rbtree_num_elements (Some (pl_tree pl)))"

section \<open>Identifiers\<close>

definition id_bit :: "byte \<Rightarrow> nat \<Rightarrow> bool" where
  "id_bit b k \<longleftrightarrow> b AND push_bit k 1 \<noteq> 0"

text \<open>The tests of \<^verbatim>\<open>fr_packet_list_id_alloc\<close> on a socket, in their order: may it carry the request?\<close>

definition socket_usable :: "int \<Rightarrow> int \<Rightarrow> packet \<Rightarrow> packet_socket \<Rightarrow> bool" where
  "socket_usable src_any proto request ps =
     (if ps_sockfd ps = - 1 then False
      else if ps_dont_use ps then False
      else if ps_num_outgoing ps = 256 then False
      else if ps_proto ps \<noteq> proto then False
      else if ip_af (ps_src_ipaddr ps) \<noteq> ip_af (p_dst_ipaddr request) then False
      else if ps_dst_port ps \<noteq> 0 \<and> ps_dst_port ps \<noteq> p_dst_port request then False
      else if p_src_port request \<noteq> 0 \<and> ps_src_port ps \<noteq> p_src_port request then False
      else if src_any \<noteq> 0 \<and> ip_af (ps_src_ipaddr ps) = AF_INET \<and>
              drop_bit 24 (s_addr (ps_src_ipaddr ps)) AND 0xff = 127 \<and>
              drop_bit 24 (s_addr (p_dst_ipaddr request)) AND 0xff \<noteq> 127 then False
      else if ps_src_any ps \<noteq> 0 \<and> src_any = 0 then False
      else if ps_src_any ps = 0 \<and> src_any = 0 \<and> fr_ipaddr_cmp (p_src_ipaddr request) (ps_src_ipaddr ps) \<noteq> 0 then False
      else if ps_dst_any ps = 0 \<and> fr_ipaddr_cmp (p_dst_ipaddr request) (ps_dst_ipaddr ps) \<noteq> 0 then False
      else True)"

text \<open>
  The search for a clear bit in the 32 bytes; the numbers still to try are the list, \<open>rnd n\<close> is the
  \<open>n\<close>th random number, and \<open>n\<close> counts those used.
\<close>

fun free_k :: "byte \<Rightarrow> nat \<Rightarrow> nat list \<Rightarrow> nat option" where
  "free_k b start_k [] = None"
| "free_k b start_k (k # ks) =
     (let ID_k = (k + start_k) mod 8
      in if id_bit b ID_k then free_k b start_k ks else Some ID_k)"

fun free_j :: "(nat \<Rightarrow> u32) \<Rightarrow> byte list \<Rightarrow> nat \<Rightarrow> nat \<Rightarrow> nat list \<Rightarrow> (nat \<times> nat) option \<times> nat" where
  "free_j rnd ids start_j n [] = (None, n)"
| "free_j rnd ids start_j n (j # js) =
     (let ID_j = (j + start_j) mod 32
      in if ids ! ID_j = 0xff then free_j rnd ids start_j n js
         else let start_k = unat (rnd n AND 7)
              in case free_k (ids ! ID_j) start_k [0..<8] of
                   Some ID_k \<Rightarrow> (Some (ID_j, ID_k), n + 1)
                 | None \<Rightarrow> free_j rnd ids start_j (n + 1) js)"

fun free_i ::
  "(nat \<Rightarrow> u32) \<Rightarrow> (packet_socket \<Rightarrow> bool) \<Rightarrow> packet_socket list \<Rightarrow> nat \<Rightarrow> nat \<Rightarrow> nat list \<Rightarrow> (nat \<times> nat \<times> nat) option" where
  "free_i rnd ok sockets start_i n [] = None"
| "free_i rnd ok sockets start_i n (i # is) =
     (let ID_i = (i + start_i) mod MAX_SOCKETS
      in if \<not> ok (sockets ! ID_i) then free_i rnd ok sockets start_i n is
         else let start_j = unat (rnd n AND 0x1f)
              in case free_j rnd (ps_id (sockets ! ID_i)) start_j (n + 1) [0..<32] of
                   (Some (ID_j, ID_k), m) \<Rightarrow> Some (ID_i, ID_j, ID_k)
                 | (None, m) \<Rightarrow> free_i rnd ok sockets start_i m is)"

definition set_id :: "packet_socket \<Rightarrow> nat \<Rightarrow> nat \<Rightarrow> packet_socket" where
  "set_id ps j k = ps\<lparr>ps_id := (ps_id ps)[j := ps_id ps ! j OR push_bit k 1]\<rparr>"

text \<open>\<open>ps->id[(id >> 3) & 0x1f] &= ~(1 << (id & 0x07))\<close>\<close>

definition clear_id :: "packet_socket \<Rightarrow> int \<Rightarrow> packet_socket" where
  "clear_id ps i =
     (let j = nat (i div 8 mod 32)
      in ps\<lparr>ps_id := (ps_id ps)[j := ps_id ps ! j AND NOT (push_bit (nat (i mod 8)) 1)]\<rparr>)"

text \<open>\<open>Some (mem, pl, ctx)\<close> in the result: the context of the socket chosen, when an ID was allocated.\<close>

definition fr_packet_list_id_alloc ::
  "(nat \<Rightarrow> u32) \<Rightarrow> bool \<Rightarrow> (nat \<Rightarrow> packet) \<Rightarrow> packet_list \<Rightarrow> int \<Rightarrow> nat \<Rightarrow>
   ((nat \<Rightarrow> packet) \<times> packet_list \<times> nat option) option" where
  "fr_packet_list_id_alloc rnd talloc_ok mem pl proto r =
     (let request = mem r
      in if ip_af (p_dst_ipaddr request) = AF_UNSPEC \<or> p_dst_port request = 0 then Some (mem, pl, None)
         else
           let request1 = (if ip_af (p_src_ipaddr request) = AF_UNSPEC
                           then request\<lparr>p_src_ipaddr := zero_ipaddr\<lparr>ip_af := ip_af (p_dst_ipaddr request)\<rparr>\<rparr>
                           else request);
               mem1 = mem(r := request1);
               src_any = fr_inaddr_any (p_src_ipaddr request1)
           in if src_any < 0 then Some (mem1, pl, None)
              else if fr_inaddr_any (p_dst_ipaddr request1) \<noteq> 0 then Some (mem1, pl, None)
              else
                case free_i rnd (socket_usable src_any proto request1) (pl_sockets pl)
                       (unat (rnd 0 AND 1023)) 1 [0..<MAX_SOCKETS] of
                  None \<Rightarrow> Some (mem1, pl, None)
                | Some (i, j, k) \<Rightarrow>
                    let ps = set_id (pl_sockets pl ! i) j k;
                        request2 = request1\<lparr>p_id := int (j * 8 + k), p_sockfd := ps_sockfd ps,
                                            p_src_ipaddr := ps_src_ipaddr ps, p_src_port := ps_src_port ps\<rparr>;
                        mem2 = mem1(r := request2)
                    in (case fr_packet_list_insert talloc_ok mem2 (set_socket pl i ps) r of
                          None \<Rightarrow> None
                        | Some (pl1, True) \<Rightarrow>
                            Some (mem2,
                              (set_socket pl1 i (ps\<lparr>ps_num_outgoing := ps_num_outgoing ps + 1\<rparr>))
                                \<lparr>pl_num_outgoing := pl_num_outgoing pl1 + 1\<rparr>,
                              Some (ps_ctx ps))
                        | Some (pl1, False) \<Rightarrow>
                            Some (mem2(r := request2\<lparr>p_id := - 1, p_sockfd := - 1,
                                         p_src_ipaddr := (p_src_ipaddr request2)\<lparr>ip_af := AF_UNSPEC\<rparr>, p_src_port := 0\<rparr>),
                              set_socket pl1 i (clear_id ps (p_id request2)), None)))"

definition fr_packet_list_id_free ::
  "(nat \<Rightarrow> packet) \<Rightarrow> packet_list \<Rightarrow> nat \<Rightarrow> bool \<Rightarrow> ((nat \<Rightarrow> packet) \<times> packet_list \<times> bool) option" where
  "fr_packet_list_id_free mem pl r yank =
     (case (if yank then fr_packet_list_yank mem pl r else Some (pl, True)) of
        None \<Rightarrow> None
      | Some (pl1, False) \<Rightarrow> Some (mem, pl1, False)
      | Some (pl1, True) \<Rightarrow>
          (case fr_socket_find pl1 (p_sockfd (mem r)) of
             None \<Rightarrow> Some (mem, pl1, False)
           | Some i \<Rightarrow>
               let ps = clear_id (pl_sockets pl1 ! i) (p_id (mem r))
               in Some (mem(r := (mem r)\<lparr>p_id := - 1,
                                   p_src_ipaddr := (p_src_ipaddr (mem r))\<lparr>ip_af := AF_UNSPEC\<rparr>, p_src_port := 0\<rparr>),
                    (set_socket pl1 i (ps\<lparr>ps_num_outgoing := ps_num_outgoing ps - 1\<rparr>))
                      \<lparr>pl_num_outgoing := pl_num_outgoing pl1 - 1\<rparr>, True)))"

section \<open>Walking, waiting and receiving\<close>

definition fr_packet_list_walk ::
  "packet_list \<Rightarrow> ('s, nat) walker \<Rightarrow> 's \<Rightarrow> (packet_list \<times> int \<times> 's) option" where
  "fr_packet_list_walk pl callback s =
     map_option (\<lambda>(tree, freed, rcode, s'). (pl\<lparr>pl_tree := tree\<rparr>, rcode, s'))
       (rbtree_walk (pl_tree pl) RBTREE_DELETE_ORDER callback s)"

fun fd_set_loop :: "packet_socket list \<Rightarrow> int set \<Rightarrow> int \<Rightarrow> (int set \<times> int) option" where
  "fd_set_loop [] fds maxfd = Some (fds, maxfd)"
| "fd_set_loop (ps # pss) fds maxfd =
     (if ps_sockfd ps = - 1 then fd_set_loop pss fds maxfd
      else case FD_SET (ps_sockfd ps) fds of
        None \<Rightarrow> None
      | Some fds' \<Rightarrow> fd_set_loop pss fds' (if ps_sockfd ps > maxfd then ps_sockfd ps else maxfd))"

definition fr_packet_list_fd_set :: "packet_list \<Rightarrow> int set \<Rightarrow> (int set \<times> int) option" where
  "fr_packet_list_fd_set pl fds =
     map_option (\<lambda>(fds', maxfd). (fds', if maxfd < 0 then - 1 else maxfd + 1)) (fd_set_loop (pl_sockets pl) fds (- 1))"

text \<open>
  The entries after the last one received from, once around. The receive functions give a packet
  or NULL for a descriptor; \<open>None\<close> is an access outside the descriptor set.
\<close>

fun recv_loop ::
  "(int \<Rightarrow> packet option) \<Rightarrow> (int \<Rightarrow> packet option) \<Rightarrow> packet_list \<Rightarrow> int set \<Rightarrow> nat list \<Rightarrow>
   (packet_list \<times> packet option) option" where
  "recv_loop tcp_recv rad_recv pl fds [] = Some (pl, None)"
| "recv_loop tcp_recv rad_recv pl fds (i # is) =
     (let ps = pl_sockets pl ! i
      in if ps_sockfd ps = - 1 then recv_loop tcp_recv rad_recv pl fds is
         else case FD_ISSET (ps_sockfd ps) fds of
           None \<Rightarrow> None
         | Some False \<Rightarrow> recv_loop tcp_recv rad_recv pl fds is
         | Some True \<Rightarrow>
             if ps_proto ps = IPPROTO_TCP
             then (case tcp_recv (ps_sockfd ps) of
                     None \<Rightarrow> Some (pl, None)
                   | Some p \<Rightarrow>
                       Some (pl\<lparr>pl_last_recv := i\<rparr>,
                         Some (p\<lparr>p_dst_ipaddr := ps_src_ipaddr ps, p_dst_port := ps_src_port ps,
                                 p_src_ipaddr := ps_dst_ipaddr ps, p_src_port := ps_dst_port ps,
                                 p_proto := ps_proto ps\<rparr>)))
             else (case rad_recv (ps_sockfd ps) of
                     None \<Rightarrow> recv_loop tcp_recv rad_recv pl fds is
                   | Some p \<Rightarrow> Some (pl\<lparr>pl_last_recv := i\<rparr>, Some (p\<lparr>p_proto := ps_proto ps\<rparr>))))"

definition fr_packet_list_recv ::
  "(int \<Rightarrow> packet option) \<Rightarrow> (int \<Rightarrow> packet option) \<Rightarrow> packet_list \<Rightarrow> int set \<Rightarrow> (packet_list \<times> packet option) option" where
  "fr_packet_list_recv tcp_recv rad_recv pl fds =
     recv_loop tcp_recv rad_recv pl fds (map (\<lambda>k. (pl_last_recv pl + 1 + k) mod MAX_SOCKETS) [0..<MAX_SOCKETS])"

definition fr_packet_list_num_incoming :: "packet_list option \<Rightarrow> u32" where
  "fr_packet_list_num_incoming pl =
     (case pl of
        None \<Rightarrow> 0
      | Some pl \<Rightarrow>
          let num_elements = rbtree_num_elements (Some (pl_tree pl))
          in if num_elements < pl_num_outgoing pl then 0 else num_elements - pl_num_outgoing pl)"

definition fr_packet_list_num_outgoing :: "packet_list option \<Rightarrow> u32" where
  "fr_packet_list_num_outgoing pl = (case pl of None \<Rightarrow> 0 | Some pl \<Rightarrow> pl_num_outgoing pl)"

end
