(* ===== verification/PacketKeys.thy ===== *)
theory PacketKeys
  imports Packet
begin

text \<open>
  The two structures the packet list rests on: the order of \<^verbatim>\<open>fr_packet_cmp\<close>, which is that of key
  lists for packets with addresses of a known family, and the bits of the identifiers.
\<close>

section \<open>The order of packets\<close>

fun key_cmp :: "int list \<Rightarrow> int list \<Rightarrow> int" where
  "key_cmp (x # xs) (y # ys) = (if x = y then key_cmp xs ys else x - y)"
| "key_cmp _ _ = 0"

definition ip_ok :: "ipaddr \<Rightarrow> bool" where
  "ip_ok a \<longleftrightarrow> (ip_af a = AF_INET \<or> ip_af a = AF_INET6) \<and> length (ip_addr a) = 16"

definition ip_key :: "ipaddr \<Rightarrow> int list" where
  "ip_key a =
     [ip_af a, uint (ip_prefix a), if ip_af a = AF_INET6 then uint (ip_scope a) else 0] @
     map uint (if ip_af a = AF_INET then take 4 (ip_addr a) @ replicate 12 0 else take 16 (ip_addr a))"

definition packet_key :: "packet \<Rightarrow> int list" where
  "packet_key p =
     [p_id p, p_sockfd p, uint (p_src_port p)] @ ip_key (p_src_ipaddr p) @ ip_key (p_dst_ipaddr p) @ [uint (p_dst_port p)]"

definition packet_ok :: "packet \<Rightarrow> bool" where
  "packet_ok p \<longleftrightarrow> ip_ok (p_src_ipaddr p) \<and> ip_ok (p_dst_ipaddr p)"

lemma key_cmp_append:
  "length xs = length ys \<Longrightarrow>
   key_cmp (xs @ us) (ys @ vs) = (if key_cmp xs ys \<noteq> 0 then key_cmp xs ys else key_cmp us vs)"
  by (induction xs ys rule: list_induct2) auto

lemma key_cmp_neg: "length xs = length ys \<Longrightarrow> key_cmp ys xs = - key_cmp xs ys"
  by (induction xs ys rule: list_induct2) auto

lemma key_cmp_zero: "length xs = length ys \<Longrightarrow> key_cmp xs ys = 0 \<longleftrightarrow> xs = ys"
  by (induction xs ys rule: list_induct2) auto

lemma key_cmp_refl [simp]: "key_cmp xs xs = 0"
  by (simp add: key_cmp_zero)

lemma key_cmp_trans:
  "length xs = length ys \<Longrightarrow> length ys = length zs \<Longrightarrow> key_cmp xs ys \<le> 0 \<Longrightarrow> key_cmp ys zs \<le> 0 \<Longrightarrow> key_cmp xs zs \<le> 0"
  by (induction xs ys zs rule: list_induct3) (auto split: if_splits)

lemma memcmp_key: "memcmp xs ys = key_cmp (map uint xs) (map uint ys)"
  by (induction xs ys rule: memcmp.induct) (auto simp: word_uint_eq_iff)

lemma ip_key_length: "ip_ok a \<Longrightarrow> length (ip_key a) = 19"
  by (auto simp: ip_ok_def ip_key_def)

lemma ipaddr_cmp_key: "ip_ok a \<Longrightarrow> ip_ok b \<Longrightarrow> sgn (fr_ipaddr_cmp a b) = sgn (key_cmp (ip_key a) (ip_key b))"
  by (auto simp: ip_ok_def fr_ipaddr_cmp_def ip_key_def memcmp_key key_cmp_append AF_INET_def AF_INET6_def
      word_less_def)

lemma sgn_if: "sgn (if c then x else y) = (if c then sgn x else sgn (y :: int))"
  by simp

lemma packet_cmp_key:
  assumes "packet_ok a" "packet_ok b"
  shows "sgn (fr_packet_cmp a b) = sgn (key_cmp (packet_key a) (packet_key b))"
proof -
  note l = ip_key_length [of "p_src_ipaddr a"] ip_key_length [of "p_src_ipaddr b"]
    ip_key_length [of "p_dst_ipaddr a"] ip_key_length [of "p_dst_ipaddr b"]
  note s = ipaddr_cmp_key [of "p_src_ipaddr a" "p_src_ipaddr b"] ipaddr_cmp_key [of "p_dst_ipaddr a" "p_dst_ipaddr b"]
  have "fr_ipaddr_cmp x y = 0 \<longleftrightarrow> key_cmp (ip_key x) (ip_key y) = 0" if "ip_ok x" "ip_ok y" for x y
    using ipaddr_cmp_key [OF that] by (metis sgn_0_0)
  with assms l s show ?thesis
    by (simp add: packet_ok_def fr_packet_cmp_def packet_key_def key_cmp_append Let_def sgn_if)
qed

lemma packet_key_length: "packet_ok p \<Longrightarrow> length (packet_key p) = 42"
  by (simp add: packet_ok_def packet_key_def ip_key_length)

lemma rb_order_by_key:
  assumes "\<And>x y. x \<in> K \<Longrightarrow> y \<in> K \<Longrightarrow> sgn (c x y) = sgn (key_cmp (k x) (k y))" "\<And>x. x \<in> K \<Longrightarrow> length (k x) = n"
  shows "rb_order c K"
proof -
  have neg: "c x y < 0 \<longleftrightarrow> key_cmp (k x) (k y) < 0" "c x y > 0 \<longleftrightarrow> key_cmp (k x) (k y) > 0" if "x \<in> K" "y \<in> K" for x y
    using assms(1) [OF that] by (metis sgn_less sgn_greater)+
  show ?thesis
    unfolding rb_order_def
  proof (intro conjI ballI impI)
    fix x y assume "x \<in> K" "y \<in> K"
    then show "c x y < 0 \<longleftrightarrow> 0 < c y x"
      using neg(1) [of x y] neg(2) [of y x] key_cmp_neg [of "k x" "k y"] assms(2) by simp
  next
    fix x y z assume K: "x \<in> K" "y \<in> K" "z \<in> K" and le: "c x y \<le> 0" "c y z \<le> 0"
    then have "key_cmp (k x) (k y) \<le> 0" "key_cmp (k y) (k z) \<le> 0" using neg(2) by (meson not_le)+
    then have "key_cmp (k x) (k z) \<le> 0" using key_cmp_trans assms(2) K by metis
    then show "c x z \<le> 0" using neg(2) [OF K(1,3)] by linarith
  qed
qed

lemma packet_order: "rb_order (packet_entry_cmp mem) {r. packet_ok (mem r)}"
  by (rule rb_order_by_key [where k = "\<lambda>r. packet_key (mem r)" and n = 42])
     (simp_all add: packet_entry_cmp_def packet_cmp_key packet_key_length)

lemma packet_cmp_zero:
  "packet_ok a \<Longrightarrow> packet_ok b \<Longrightarrow> fr_packet_cmp a b = 0 \<longleftrightarrow> packet_key a = packet_key b"
  using packet_cmp_key [of a b] key_cmp_zero [of "packet_key a" "packet_key b"] packet_key_length
  by (metis sgn_0_0)

lemma packet_key_id: "packet_key a = packet_key b \<Longrightarrow> p_id a = p_id b \<and> p_sockfd a = p_sockfd b"
  by (simp add: packet_key_def)

section \<open>Identifier bits\<close>

definition used_ids :: "packet_socket \<Rightarrow> nat set" where
  "used_ids ps = {n. n < 256 \<and> id_bit (ps_id ps ! (n div 8)) (n mod 8)}"

lemma finite_used_ids [simp]: "finite (used_ids ps)"
  by (simp add: used_ids_def)

lemma used_ids_frame [simp]:
  "used_ids (ps\<lparr>ps_num_outgoing := x\<rparr>) = used_ids ps" "used_ids (ps\<lparr>ps_dont_use := b\<rparr>) = used_ids ps"
  "used_ids (ps\<lparr>ps_sockfd := f\<rparr>) = used_ids ps"
  by (simp_all add: used_ids_def)

lemma id_bit_bit: "k < 8 \<Longrightarrow> id_bit b k \<longleftrightarrow> bit b k"
proof -
  assume "k < 8"
  have "b AND push_bit k 1 = (if bit b k then push_bit k 1 else 0)"
    by (rule bit_word_eqI) (auto simp: bit_and_iff bit_exp_iff)
  moreover have "bit (push_bit k 1 :: byte) k" using \<open>k < 8\<close> by (simp add: bit_exp_iff)
  then have "push_bit k 1 \<noteq> (0 :: byte)" by (metis bit_0_eq bot_apply bot_bool_def)
  ultimately show ?thesis by (simp add: id_bit_def)
qed

lemma bit_set_byte: "k < 8 \<Longrightarrow> m < 8 \<Longrightarrow> bit (b OR 2 ^ k :: byte) m \<longleftrightarrow> bit b m \<or> m = k"
  by (auto simp: bit_or_iff bit_exp_iff)

lemma bit_clear_byte: "k < 8 \<Longrightarrow> m < 8 \<Longrightarrow> bit (b AND NOT (2 ^ k) :: byte) m \<longleftrightarrow> bit b m \<and> m \<noteq> k"
  by (auto simp: bit_and_iff bit_not_iff bit_exp_iff)

lemma byte_full: "(b :: byte) = 0xff \<longleftrightarrow> (\<forall>k < 8. bit b k)"
proof -
  have m: "(0xff :: byte) = mask 8" by (simp add: mask_eq_exp_minus_1)
  have f: "bit (0xff :: byte) n" if "n < 8" for n
    unfolding m using that by (simp only: bit_mask_iff) simp
  show ?thesis
  proof
    assume "\<forall>k < 8. bit b k"
    with f show "b = 0xff" by (intro bit_word_eqI) simp
  qed (use f in blast)
qed

lemma div8_less: "n < 256 \<Longrightarrow> n div 8 < (32 :: nat)"
  by simp

lemma used_set_id:
  assumes "length (ps_id ps) = 32" "j < 32" "k < 8"
  shows "used_ids (set_id ps j k) = insert (j * 8 + k) (used_ids ps)"
proof (rule set_eqI)
  fix n
  show "n \<in> used_ids (set_id ps j k) \<longleftrightarrow> n \<in> insert (j * 8 + k) (used_ids ps)"
  proof (cases "n < 256")
    case True
    have "n = j * 8 + k \<longleftrightarrow> n div 8 = j \<and> n mod 8 = k" using assms(3) by auto
    then show ?thesis using True assms
      by (cases "n div 8 = j") (auto simp: used_ids_def set_id_def id_bit_bit bit_set_byte)
  next
    case False
    then show ?thesis using assms by (auto simp: used_ids_def)
  qed
qed

lemma used_clear_id:
  assumes "length (ps_id ps) = 32" "0 \<le> i" "i < 256"
  shows "used_ids (clear_id ps i) = used_ids ps - {nat i}"
proof (rule set_eqI)
  fix n
  have j: "nat (i div 8 mod 32) = nat i div 8" "nat (i mod 8) = nat i mod 8" "nat (i div 8) = nat i div 8"
    using assms(2,3) by (auto simp: nat_div_distrib nat_mod_distrib)
  show "n \<in> used_ids (clear_id ps i) \<longleftrightarrow> n \<in> used_ids ps - {nat i}"
  proof (cases "n < 256")
    case True
    have "n = nat i \<longleftrightarrow> n div 8 = nat i div 8 \<and> n mod 8 = nat i mod 8" by (metis div_mult_mod_eq)
    moreover have "nat i div 8 < 32" using assms(2,3) by simp
    ultimately show ?thesis using True assms
      by (cases "n div 8 = nat i div 8") (auto simp: used_ids_def clear_id_def Let_def j id_bit_bit bit_clear_byte)
  qed (auto simp: used_ids_def)
qed

lemma clear_set_id:
  assumes "length (ps_id ps) = 32" "j < 32" "k < 8" "\<not> id_bit (ps_id ps ! j) k"
  shows "clear_id (set_id ps j k) (int (j * 8 + k)) = ps"
proof -
  have i: "nat (int (j * 8 + k) div 8 mod 32) = j" "nat (int (j * 8 + k) mod 8) = k"
    using assms(2,3) by (simp_all add: nat_div_distrib nat_mod_distrib)
  have "(ps_id ps ! j OR push_bit k 1) AND NOT (push_bit k 1) = ps_id ps ! j"
  proof (rule bit_word_eqI)
    fix m assume "m < LENGTH(8)"
    then show "bit ((ps_id ps ! j OR push_bit k 1) AND NOT (push_bit k 1)) m = bit (ps_id ps ! j) m"
      using assms(3,4) id_bit_bit [OF assms(3)] by (auto simp: bit_set_byte bit_clear_byte)
  qed
  then show ?thesis unfolding clear_id_def i Let_def set_id_def using assms(1,2) by simp
qed

lemma rotate_cover: "0 < m \<Longrightarrow> x < m \<Longrightarrow> \<exists>k \<in> set [0..<m]. (k + s) mod m = (x :: nat)"
proof -
  assume m: "0 < m" "x < m"
  let ?k = "(x + (m - s mod m)) mod m"
  have "(?k + s) mod m = (x + (m - s mod m) + s mod m) mod m" by (metis mod_add_eq mod_mod_trivial)
  also have "x + (m - s mod m) + s mod m = x + m" using mod_less_divisor [OF m(1), of s] by simp
  also have "(x + m) mod m = x" using m(2) by simp
  finally show ?thesis using m by (intro bexI [of _ ?k]) simp_all
qed

lemma free_k_Some: "free_k b s ks = Some k \<Longrightarrow> k < 8 \<and> \<not> id_bit b k"
  by (induction b s ks rule: free_k.induct) (auto simp: Let_def split: if_splits)

lemma free_k_None: "free_k b s ks = None \<Longrightarrow> k \<in> set ks \<Longrightarrow> id_bit b ((k + s) mod 8)"
  by (induction b s ks rule: free_k.induct) (auto simp: Let_def split: if_splits)

lemma free_k_full: "b \<noteq> 0xff \<Longrightarrow> free_k b s [0..<8] \<noteq> None"
proof
  assume b: "b \<noteq> 0xff" and n: "free_k b s [0..<8] = None"
  have "bit b x" if x: "x < 8" for x
  proof -
    obtain k where "k \<in> set [0..<8]" "(k + s) mod 8 = x" using rotate_cover [of 8 x s] x by auto
    with free_k_None [OF n] x id_bit_bit show ?thesis by metis
  qed
  then show False using b byte_full by blast
qed

lemma free_j_Some:
  "free_j rnd ids s n js = (Some (j, k), m) \<Longrightarrow> j < 32 \<and> k < 8 \<and> \<not> id_bit (ids ! j) k"
  by (induction rnd ids s n js rule: free_j.induct) (auto simp: Let_def dest: free_k_Some split: if_splits option.splits)

lemma free_j_None:
  "free_j rnd ids s n js = (None, m) \<Longrightarrow> j \<in> set js \<Longrightarrow> ids ! ((j + s) mod 32) = 0xff"
  by (induction rnd ids s n js rule: free_j.induct)
     (auto simp: Let_def free_k_full simp del: upt.simps split: if_splits option.splits)

lemma free_j_full:
  assumes "free_j rnd (ps_id ps) s n [0..<32] = (None, m)"
  shows "used_ids ps = {..<256}"
proof (rule set_eqI)
  fix x :: nat
  show "x \<in> used_ids ps \<longleftrightarrow> x \<in> {..<256}"
  proof (cases "x < 256")
    case True
    then have "x div 8 < 32" by simp
    then obtain j where "j \<in> set [0..<32]" "(j + s) mod 32 = x div 8"
      using rotate_cover [of 32 "x div 8" s] by fastforce
    with free_j_None [OF assms, of j] have "ps_id ps ! (x div 8) = 0xff" by simp
    then show ?thesis using True byte_full [of "ps_id ps ! (x div 8)"] by (simp add: used_ids_def id_bit_bit)
  qed (simp add: used_ids_def)
qed

lemma free_i_Some:
  "free_i rnd ok socks s n is = Some (i, j, k) \<Longrightarrow>
   i < MAX_SOCKETS \<and> j < 32 \<and> k < 8 \<and> ok (socks ! i) \<and> j * 8 + k \<notin> used_ids (socks ! i)"
proof (induction rnd ok socks s n "is" rule: free_i.induct)
  case (2 rnd ok sockets start_i n i0 "is")
  let ?i = "(i0 + start_i) mod MAX_SOCKETS"
  show ?case
  proof (cases "ok (sockets ! ?i)")
    case False
    then show ?thesis using 2(1) [OF refl False] 2(3) by (simp add: Let_def)
  next
    case True
    obtain res m where f: "free_j rnd (ps_id (sockets ! ?i)) (unat (rnd n AND 0x1f)) (n + 1) [0..<32] = (res, m)" by fastforce
    show ?thesis
    proof (cases res)
      case None
      then show ?thesis using 2(2) [OF refl, of "unat (rnd n AND 0x1f)" None m] 2(3) True f
        by (simp add: Let_def del: upt.simps)
    next
      case (Some jk)
      then have "i = ?i" "jk = (j, k)" using 2(3) True f by (simp_all add: Let_def del: upt.simps split: prod.splits)
      moreover have "i < MAX_SOCKETS" using \<open>i = ?i\<close> by (simp add: MAX_SOCKETS_def)
      ultimately have "i < MAX_SOCKETS" "j < 32" "k < 8" "\<not> id_bit (ps_id (sockets ! i) ! j) k"
        using free_j_Some f Some by auto
      with True \<open>i = ?i\<close> show ?thesis by (simp add: used_ids_def)
    qed
  qed
qed simp

lemma free_i_None:
  "free_i rnd ok socks s n is = None \<Longrightarrow> i \<in> set is \<Longrightarrow> ok (socks ! ((i + s) mod MAX_SOCKETS)) \<Longrightarrow>
   used_ids (socks ! ((i + s) mod MAX_SOCKETS)) = {..<256}"
  by (induction rnd ok socks s n "is" rule: free_i.induct)
     (auto simp: Let_def simp del: upt.simps dest: free_j_full split: if_splits option.splits prod.splits)

end
