(* ===== verification/PacketList.thy ===== *)
theory PacketList
  imports PacketKeys
begin

text \<open>
  The consistency of a packet list that allocates identifiers, kept by every operation: the tree
  is used through the interface \<open>keyed_set\<close>, and the bits and counters of each socket say exactly
  which requests it carries.
\<close>

section \<open>Consistency\<close>

abbreviation pl_elems :: "packet_list \<Rightarrow> nat list" where
  "pl_elems pl \<equiv> rb_elems (pl_tree pl)"

abbreviation pl_keys :: "(nat \<Rightarrow> packet) \<Rightarrow> nat set" where
  "pl_keys mem \<equiv> {r. packet_ok (mem r)}"

abbreviation sock :: "packet_list \<Rightarrow> nat \<Rightarrow> packet_socket" where
  "sock pl i \<equiv> pl_sockets pl ! i"

definition live :: "packet_list \<Rightarrow> nat set" where
  "live pl = {i. i < MAX_SOCKETS \<and> ps_sockfd (sock pl i) \<noteq> - 1}"

definition carried :: "(nat \<Rightarrow> packet) \<Rightarrow> packet_list \<Rightarrow> nat \<Rightarrow> nat set" where
  "carried mem pl i = {r \<in> set (pl_elems pl). p_sockfd (mem r) = ps_sockfd (sock pl i)}"

definition socks_ok :: "packet_list \<Rightarrow> bool" where
  "socks_ok pl \<longleftrightarrow>
     length (pl_sockets pl) = MAX_SOCKETS \<and>
     (\<forall>i < MAX_SOCKETS. length (ps_id (sock pl i)) = 32) \<and>
     (\<forall>i \<in> live pl. ip_ok (ps_src_ipaddr (sock pl i))) \<and>
     inj_on (\<lambda>i. ps_sockfd (sock pl i)) (live pl)"

text \<open>The request uses an identifier of its socket and its address and port.\<close>

definition sent_by :: "packet \<Rightarrow> packet_socket \<Rightarrow> bool" where
  "sent_by p ps \<longleftrightarrow>
     p_sockfd p = ps_sockfd ps \<and> 0 \<le> p_id p \<and> p_id p < 256 \<and>
     p_src_ipaddr p = ps_src_ipaddr ps \<and> p_src_port p = ps_src_port ps"

definition ids_ok :: "(nat \<Rightarrow> packet) \<Rightarrow> packet_list \<Rightarrow> nat \<Rightarrow> bool" where
  "ids_ok mem pl i \<longleftrightarrow>
     unat (ps_num_outgoing (sock pl i)) = card (used_ids (sock pl i)) \<and>
     used_ids (sock pl i) = (\<lambda>r. nat (p_id (mem r))) ` carried mem pl i \<and>
     inj_on (\<lambda>r. p_id (mem r)) (carried mem pl i)"

definition pl_inv :: "(nat \<Rightarrow> packet) \<Rightarrow> packet_list \<Rightarrow> bool" where
  "pl_inv mem pl \<longleftrightarrow>
     rb_inv (packet_entry_cmp mem) (pl_keys mem) (pl_tree pl) \<and> \<not> rb_replace (pl_tree pl) \<and> socks_ok pl \<and>
     (\<forall>r \<in> set (pl_elems pl). \<exists>i \<in> live pl. sent_by (mem r) (sock pl i)) \<and>
     (\<forall>i \<in> live pl. ids_ok mem pl i) \<and>
     pl_num_outgoing pl = word_of_nat (length (pl_elems pl))"

lemma pl_invD:
  assumes "pl_inv mem pl"
  shows "rb_inv (packet_entry_cmp mem) (pl_keys mem) (pl_tree pl)" "\<not> rb_replace (pl_tree pl)" "socks_ok pl"
    "\<And>r. r \<in> set (pl_elems pl) \<Longrightarrow> \<exists>i \<in> live pl. sent_by (mem r) (sock pl i)"
    "\<And>i. i \<in> live pl \<Longrightarrow> ids_ok mem pl i"
    "pl_num_outgoing pl = word_of_nat (length (pl_elems pl))"
  using assms by (auto simp: pl_inv_def)

lemma pl_elems_ok: "pl_inv mem pl \<Longrightarrow> r \<in> set (pl_elems pl) \<Longrightarrow> packet_ok (mem r)"
  using rb.ordered [OF pl_invD(1)] by auto

section \<open>Finding a socket\<close>

lemma socket_scan_Some: "s < MAX_SOCKETS \<Longrightarrow> socket_scan socks fd s k = Some i \<Longrightarrow> i < MAX_SOCKETS \<and> ps_sockfd (socks ! i) = fd"
  by (induction socks fd s k rule: socket_scan.induct) (auto simp: MAX_SOCKETS_def split: if_splits)

lemma socket_scan_None:
  "s < MAX_SOCKETS \<Longrightarrow> socket_scan socks fd s k = None \<Longrightarrow> j < k \<Longrightarrow> ps_sockfd (socks ! ((s + j) mod MAX_SOCKETS)) \<noteq> fd"
proof (induction socks fd s k arbitrary: j rule: socket_scan.induct)
  case (2 socks fd i k)
  show ?case
  proof (cases j)
    case 0
    then show ?thesis using 2(2,3) by (auto split: if_splits)
  next
    case (Suc j')
    have "ps_sockfd (socks ! (((i + 1) mod MAX_SOCKETS + j') mod MAX_SOCKETS)) \<noteq> fd"
      using 2(1) [of j'] 2(3,4) Suc by (auto simp: MAX_SOCKETS_def split: if_splits)
    moreover have "((i + 1) mod MAX_SOCKETS + j') mod MAX_SOCKETS = (i + j) mod MAX_SOCKETS"
      unfolding Suc by (simp add: mod_add_left_eq)
    ultimately show ?thesis by simp
  qed
qed simp

lemma sock2offset_less: "SOCK2OFFSET fd < MAX_SOCKETS"
  by (simp add: SOCK2OFFSET_def MAX_SOCKETS_def nat_less_iff)

lemma scan_all_None:
  assumes "socket_scan socks fd (SOCK2OFFSET fd') MAX_SOCKETS = None" "i < MAX_SOCKETS"
  shows "ps_sockfd (socks ! i) \<noteq> fd"
proof -
  obtain j where "j < MAX_SOCKETS" "(SOCK2OFFSET fd' + j) mod MAX_SOCKETS = i"
    using rotate_cover [of MAX_SOCKETS i "SOCK2OFFSET fd'"] assms(2) by (auto simp: add.commute)
  with socket_scan_None [OF sock2offset_less assms(1)] show ?thesis by blast
qed

lemma socket_find_live:
  assumes "socks_ok pl" "i \<in> live pl"
  shows "fr_socket_find pl (ps_sockfd (sock pl i)) = Some i"
proof (cases "fr_socket_find pl (ps_sockfd (sock pl i))")
  case None
  then show ?thesis using scan_all_None [of "pl_sockets pl" "ps_sockfd (sock pl i)"] assms(2)
    by (auto simp: fr_socket_find_def live_def)
next
  case (Some j)
  then have j: "j < MAX_SOCKETS" "ps_sockfd (sock pl j) = ps_sockfd (sock pl i)"
    using socket_scan_Some [OF sock2offset_less] by (auto simp: fr_socket_find_def)
  then have "j \<in> live pl" using assms(2) by (simp add: live_def)
  with j assms have "j = i" by (auto simp: socks_ok_def dest: inj_onD)
  with Some show ?thesis by simp
qed

lemma socket_find_Some:
  "fr_socket_find pl fd = Some i \<Longrightarrow> i < MAX_SOCKETS \<and> ps_sockfd (sock pl i) = fd"
  unfolding fr_socket_find_def by (rule socket_scan_Some [OF sock2offset_less])

section \<open>Changing one socket\<close>

lemma set_socket_simps [simp]:
  "pl_tree (set_socket pl i ps) = pl_tree pl" "pl_num_outgoing (set_socket pl i ps) = pl_num_outgoing pl"
  "length (pl_sockets (set_socket pl i ps)) = length (pl_sockets pl)"
  by (simp_all add: set_socket_def)

lemma sock_set:
  "length (pl_sockets pl) = MAX_SOCKETS \<Longrightarrow> i < MAX_SOCKETS \<Longrightarrow>
   sock (set_socket pl i ps) j = (if i = j then ps else sock pl j)"
  by (simp add: set_socket_def nth_list_update)

text \<open>The memory outside the tree may change freely.\<close>

lemma rb_inv_mem:
  assumes "rb_inv (packet_entry_cmp mem) (pl_keys mem) t" "\<And>r. r \<in> set (rb_elems t) \<Longrightarrow> mem' r = mem r"
  shows "rb_inv (packet_entry_cmp mem') (pl_keys mem') t"
proof (rule rb.inv_cong [OF assms(1) packet_order])
  show "set (rb_elems t) \<subseteq> pl_keys mem'" using rb.ordered [OF assms(1)] assms(2) by auto
qed (simp add: packet_entry_cmp_def assms(2))

lemma pl_inv_mem:
  assumes "pl_inv mem pl" "\<And>r. r \<in> set (pl_elems pl) \<Longrightarrow> mem' r = mem r"
  shows "pl_inv mem' pl"
proof -
  note I = pl_invD [OF assms(1)]
  have c: "carried mem' pl i = carried mem pl i" for i using assms(2) by (auto simp: carried_def)
  have m: "mem' r = mem r" if "r \<in> carried mem pl i" for r i using that assms(2) by (simp add: carried_def)
  have "ids_ok mem' pl i" if "i \<in> live pl" for i
    using I(5) [OF that] m inj_on_cong [of "carried mem pl i" "\<lambda>r. p_id (mem' r)" "\<lambda>r. p_id (mem r)"]
      image_cong [of "carried mem pl i" "carried mem pl i" "\<lambda>r. nat (p_id (mem' r))" "\<lambda>r. nat (p_id (mem r))"]
    unfolding ids_ok_def c by simp
  then show ?thesis unfolding pl_inv_def using rb_inv_mem [OF I(1) assms(2)] I assms(2) by simp
qed

text \<open>A change of a socket that its requests do not see.\<close>

lemma pl_inv_socket:
  assumes inv: "pl_inv mem pl" and i: "i < MAX_SOCKETS"
    and same: "ps_sockfd ps = ps_sockfd (sock pl i)" "ps_num_outgoing ps = ps_num_outgoing (sock pl i)"
      "ps_src_ipaddr ps = ps_src_ipaddr (sock pl i)" "ps_src_port ps = ps_src_port (sock pl i)" "ps_id ps = ps_id (sock pl i)"
  shows "pl_inv mem (set_socket pl i ps)"
proof -
  note I = pl_invD [OF inv]
  define pl' where "pl' = set_socket pl i ps"
  have t: "pl_tree pl' = pl_tree pl" "pl_num_outgoing pl' = pl_num_outgoing pl"
    "length (pl_sockets pl') = length (pl_sockets pl)" by (simp_all add: pl'_def)
  have "length (pl_sockets pl) = MAX_SOCKETS" using I(3) by (simp add: socks_ok_def)
  from sock_set [OF this i] have s: "ps_sockfd (sock pl' j) = ps_sockfd (sock pl j)"
    "ps_num_outgoing (sock pl' j) = ps_num_outgoing (sock pl j)"
    "ps_src_ipaddr (sock pl' j) = ps_src_ipaddr (sock pl j)"
    "ps_src_port (sock pl' j) = ps_src_port (sock pl j)" "ps_id (sock pl' j) = ps_id (sock pl j)" for j
    using same by (simp_all add: pl'_def)
  have l: "live pl' = live pl" by (simp add: live_def s)
  have c: "carried mem pl' = carried mem pl" by (simp add: carried_def s t fun_eq_iff)
  have u: "used_ids (sock pl' j) = used_ids (sock pl j)" for j by (simp add: used_ids_def s)
  have "socks_ok pl'" using I(3) by (simp add: socks_ok_def l s t)
  moreover have "ids_ok mem pl' j = ids_ok mem pl j" for j by (simp add: ids_ok_def s c u)
  moreover have "sent_by p (sock pl' j) = sent_by p (sock pl j)" for p j by (simp add: sent_by_def s)
  ultimately have "pl_inv mem pl'" using inv by (simp add: pl_inv_def l t)
  then show ?thesis by (simp add: pl'_def)
qed

text \<open>A change of one socket and of one request \<open>r\<close> that only this socket may carry.\<close>

lemma pl_inv_update:
  assumes inv: "pl_inv mem pl" and i: "i \<in> live pl"
    and socks: "pl_sockets pl' = (pl_sockets pl)[i := ps]" "length (ps_id ps) = 32"
    and same: "ps_sockfd ps = ps_sockfd (sock pl i)" "ps_src_ipaddr ps = ps_src_ipaddr (sock pl i)"
      "ps_src_port ps = ps_src_port (sock pl i)"
    and tree: "rb_inv (packet_entry_cmp mem') (pl_keys mem') (pl_tree pl')" "\<not> rb_replace (pl_tree pl')"
      "pl_num_outgoing pl' = word_of_nat (length (pl_elems pl'))"
    and mem: "\<And>q. q \<noteq> r \<Longrightarrow> mem' q = mem q"
    and elems: "set (pl_elems pl') - {r} = set (pl_elems pl) - {r}"
    and old: "r \<in> set (pl_elems pl) \<Longrightarrow> p_sockfd (mem r) = ps_sockfd ps"
    and new: "r \<in> set (pl_elems pl') \<Longrightarrow> sent_by (mem' r) ps"
    and ids: "ids_ok mem' pl' i"
  shows "pl_inv mem' pl'"
proof -
  note I = pl_invD [OF inv]
  have L: "length (pl_sockets pl) = MAX_SOCKETS" "i < MAX_SOCKETS" using I(3) i by (auto simp: socks_ok_def live_def)
  have at: "sock pl' i = ps" and off: "j \<noteq> i \<Longrightarrow> sock pl' j = sock pl j" for j using L socks by auto
  have s: "ps_sockfd (sock pl' j) = ps_sockfd (sock pl j)" "ps_src_ipaddr (sock pl' j) = ps_src_ipaddr (sock pl j)"
    "ps_src_port (sock pl' j) = ps_src_port (sock pl j)" for j
    using at off [of j] same by (cases "j = i"; simp)+
  have l: "live pl' = live pl" by (simp add: live_def s)
  have len: "length (ps_id (sock pl' j)) = 32" if "j < MAX_SOCKETS" for j
    using at off [of j] socks(2) I(3) that by (cases "j = i") (auto simp: socks_ok_def)
  moreover have "length (pl_sockets pl') = MAX_SOCKETS" using L socks(1) by simp
  ultimately have so: "socks_ok pl'" using I(3) by (simp add: socks_ok_def l s)
  have snt: "sent_by p (sock pl' j) = sent_by p (sock pl j)" for p j by (simp add: sent_by_def s)
  have car: "carried mem' pl' j = carried mem pl j" if j: "j \<in> live pl" "j \<noteq> i" for j
  proof -
    have "ps_sockfd (sock pl j) \<noteq> ps_sockfd ps"
      using I(3) i j same(1) by (auto simp: socks_ok_def dest: inj_onD)
    then have "r \<notin> carried mem' pl' j" "r \<notin> carried mem pl j"
      using old new by (auto simp: carried_def s sent_by_def)
    moreover have "q \<in> carried mem' pl' j \<longleftrightarrow> q \<in> carried mem pl j" if "q \<noteq> r" for q
      using that elems mem [OF that] by (auto simp: carried_def s)
    ultimately show ?thesis by (metis set_eqI)
  qed
  have idj: "ids_ok mem' pl' j" if j: "j \<in> live pl" for j
  proof (cases "j = i")
    case False
    have "r \<notin> carried mem pl j"
      using I(3) i j False old same(1) by (auto simp: carried_def socks_ok_def dest: inj_onD)
    then have m: "mem' q = mem q" if "q \<in> carried mem pl j" for q using that mem by metis
    show ?thesis
      using I(5) [OF j] m inj_on_cong [of "carried mem pl j" "\<lambda>r. p_id (mem' r)" "\<lambda>r. p_id (mem r)"]
        image_cong [of "carried mem pl j" "carried mem pl j" "\<lambda>r. nat (p_id (mem' r))" "\<lambda>r. nat (p_id (mem r))"]
      unfolding ids_ok_def car [OF j False] off [OF False] by simp
  qed (use ids in simp)
  have "\<exists>j \<in> live pl. sent_by (mem' q) (sock pl j)" if q: "q \<in> set (pl_elems pl')" for q
  proof (cases "q = r")
    case True
    then show ?thesis using new q i at snt by metis
  next
    case False
    then show ?thesis using I(4) [of q] q elems mem [OF False] by auto
  qed
  then show ?thesis unfolding pl_inv_def l using tree so idj snt by simp
qed

section \<open>Creation and the socket operations\<close>

lemma packet_list_create_inv:
  assumes "fr_packet_list_create True True alloc_id = Some pl"
  shows "pl_inv mem pl" "pl_elems pl = []"
proof -
  obtain tree where t: "rbtree_create True True False False = Some tree"
    "pl = \<lparr>pl_tree = tree, pl_alloc_id = alloc_id, pl_num_outgoing = 0, pl_last_recv = 0, pl_num_sockets = 0,
           pl_sockets = replicate MAX_SOCKETS (zero_socket\<lparr>ps_sockfd := - 1\<rparr>)\<rparr>"
    using assms by (auto simp: fr_packet_list_create_def split: option.splits)
  have "live pl = {}" by (auto simp: live_def t(2))
  moreover have "socks_ok pl" by (simp add: socks_ok_def calculation) (simp add: t(2) zero_socket_def)
  ultimately show "pl_inv mem pl" "pl_elems pl = []"
    using rb_create_inv [OF t(1) packet_order [of mem]] t(2) by (auto simp: pl_inv_def)
qed

lemma unused_socket:
  assumes "pl_inv mem pl" "\<And>r. r \<in> set (pl_elems pl) \<Longrightarrow> p_sockfd (mem r) \<noteq> fd"
  shows "{r \<in> set (pl_elems pl). p_sockfd (mem r) = fd} = {}"
  using assms(2) by blast

lemma any_known: "length (ip_addr a) = 16 \<Longrightarrow> \<not> fr_inaddr_any a < 0 \<Longrightarrow> ip_ok a"
  by (auto simp: fr_inaddr_any_def ip_ok_def split: if_splits)

lemma socket_add_inv:
  assumes inv: "pl_inv mem pl"
    and add: "fr_packet_list_socket_add pl fd proto dst dport ctx getsockname src = (pl', True)"
    and fresh: "fd \<noteq> - 1" "\<And>i. i \<in> live pl \<Longrightarrow> ps_sockfd (sock pl i) \<noteq> fd"
    and wf: "\<And>addr port. src = Some (addr, port) \<Longrightarrow> length (ip_addr addr) = 16"
  shows "pl_inv mem pl' \<and> pl_tree pl' = pl_tree pl"
proof -
  note I = pl_invD [OF inv]
  have L: "length (pl_sockets pl) = MAX_SOCKETS" using I(3) by (simp add: socks_ok_def)
  obtain i ps where i: "i < MAX_SOCKETS" "ps_sockfd (sock pl i) = - 1" and
    pl': "pl' = (set_socket pl i ps)\<lparr>pl_num_sockets := pl_num_sockets pl + 1\<rparr>" and
    ps: "ps_sockfd ps = fd" "ps_num_outgoing ps = 0" "ps_id ps = replicate 32 0" "ip_ok (ps_src_ipaddr ps)"
    using add wf any_known
    by (auto simp: fr_packet_list_socket_add_def Let_def zero_socket_def
        split: option.splits if_splits dest!: socket_scan_Some [OF sock2offset_less])
  have at: "sock pl' i = ps" and off: "j \<noteq> i \<Longrightarrow> sock pl' j = sock pl j" for j
    using L i by (auto simp: pl' set_socket_def)
  have l: "live pl' = insert i (live pl)"
  proof (rule set_eqI)
    fix j show "j \<in> live pl' \<longleftrightarrow> j \<in> insert i (live pl)"
      using at off [of j] ps(1) fresh(1) i by (cases "j = i") (auto simp: live_def)
  qed
  have il: "i \<notin> live pl" using i by (simp add: live_def)
  have t: "pl_tree pl' = pl_tree pl" "pl_num_outgoing pl' = pl_num_outgoing pl" by (simp_all add: pl')
  have offl: "sock pl' j = sock pl j" if "j \<in> live pl" for j using that il by (intro off) auto
  have "inj_on (\<lambda>j. ps_sockfd (sock pl' j)) (live pl')"
  proof -
    have "inj_on (\<lambda>j. ps_sockfd (sock pl' j)) (live pl)"
      using I(3) offl inj_on_cong [of "live pl" "\<lambda>j. ps_sockfd (sock pl' j)" "\<lambda>j. ps_sockfd (sock pl j)"]
      by (simp add: socks_ok_def)
    moreover have "ps_sockfd (sock pl' i) \<noteq> ps_sockfd (sock pl' j)" if "j \<in> live pl" for j
      using fresh(2) [OF that] at ps(1) offl [OF that] by simp
    ultimately show ?thesis unfolding l by (auto simp: inj_on_insert)
  qed
  moreover have "length (ps_id (sock pl' j)) = 32" if "j < MAX_SOCKETS" for j
    using at off [of j] ps(3) I(3) that by (cases "j = i") (auto simp: socks_ok_def)
  moreover have "ip_ok (ps_src_ipaddr (sock pl' j))" if "j \<in> live pl'" for j
    using that at ps(4) offl I(3) unfolding l by (auto simp: socks_ok_def)
  ultimately have so: "socks_ok pl'" using L by (simp add: socks_ok_def pl')
  have c: "carried mem pl' j = carried mem pl j" if "j \<in> live pl" for j
    using offl [OF that] by (simp add: carried_def t)
  have none: "carried mem pl' i = {}"
    using I(4) fresh(2) at ps(1) by (fastforce simp: carried_def t sent_by_def)
  have "used_ids ps = {}" using ps(3) by (auto simp: used_ids_def id_bit_def)
  then have "ids_ok mem pl' i" using none at ps(2) by (simp add: ids_ok_def)
  moreover have "ids_ok mem pl' j" if "j \<in> live pl" for j
    using I(5) [OF that] c [OF that] offl [OF that] by (simp add: ids_ok_def)
  moreover have "\<exists>j \<in> live pl'. sent_by (mem r) (sock pl' j)" if r: "r \<in> set (pl_elems pl)" for r
  proof -
    obtain j where "j \<in> live pl" "sent_by (mem r) (sock pl j)" using I(4) [OF r] by blast
    then show ?thesis using offl [of j] l by (intro bexI [of _ j]) simp_all
  qed
  ultimately show ?thesis unfolding pl_inv_def using so t I(1,2,6) l by auto
qed

text \<open>A failing call leaves an entry of descriptor 0 behind, which is not counted but is scanned.\<close>

lemma socket_add_failed:
  assumes "ip_af dst \<noteq> AF_UNSPEC" "pl_num_sockets pl < int MAX_SOCKETS" "length (pl_sockets pl) = MAX_SOCKETS"
    and "socket_scan (pl_sockets pl) (- 1) (SOCK2OFFSET fd) MAX_SOCKETS = Some i"
    and "fr_packet_list_socket_add pl fd proto (Some dst) dport ctx False src = (pl', res)"
  shows "\<not> res \<and> ps_sockfd (sock pl' i) = 0 \<and> pl_num_sockets pl' = pl_num_sockets pl \<and> i \<in> live pl'"
  using assms socket_scan_Some [OF sock2offset_less assms(4)]
  by (auto simp: fr_packet_list_socket_add_def Let_def set_socket_def live_def zero_socket_def)

lemma socket_del_inv:
  assumes inv: "pl_inv mem pl" and fd: "fd \<noteq> - 1" and del: "fr_packet_list_socket_del pl fd = (pl', r)"
  shows "pl_inv mem pl' \<and> pl_tree pl' = pl_tree pl"
proof (cases "pl' = pl")
  case False
  note I = pl_invD [OF inv]
  have L: "length (pl_sockets pl) = MAX_SOCKETS" using I(3) by (simp add: socks_ok_def)
  define ps where "ps i = (sock pl i)\<lparr>ps_sockfd := - 1\<rparr>" for i
  obtain i where i: "fr_socket_find pl fd = Some i" "ps_num_outgoing (sock pl i) = 0"
    "pl' = (set_socket pl i (ps i))\<lparr>pl_num_sockets := pl_num_sockets pl - 1\<rparr>"
    using del False by (auto simp: fr_packet_list_socket_del_def ps_def split: option.splits if_splits)
  have f: "i < MAX_SOCKETS" "ps_sockfd (sock pl i) = fd" using socket_find_Some [OF i(1)] by auto
  then have il: "i \<in> live pl" using fd by (simp add: live_def)
  have at: "sock pl' i = ps i" and off: "j \<noteq> i \<Longrightarrow> sock pl' j = sock pl j" for j
    using L f by (auto simp: i(3) set_socket_def)
  have l: "live pl' = live pl - {i}"
  proof (rule set_eqI)
    fix j show "j \<in> live pl' \<longleftrightarrow> j \<in> live pl - {i}"
      using at off [of j] by (cases "j = i") (auto simp: live_def ps_def)
  qed
  have t: "pl_tree pl' = pl_tree pl" "pl_num_outgoing pl' = pl_num_outgoing pl" by (simp_all add: i(3))
  have "used_ids (sock pl i) = {}" using I(5) [OF il] i(2) by (simp add: ids_ok_def)
  then have none: "carried mem pl i = {}" using I(5) [OF il] by (auto simp: ids_ok_def)
  have "inj_on (\<lambda>j. ps_sockfd (sock pl' j)) (live pl - {i})"
    using I(3) off by (auto simp: socks_ok_def inj_on_def)
  moreover have "length (ps_id (sock pl' j)) = 32" if "j < MAX_SOCKETS" for j
    using at off [of j] I(3) that f(1) by (cases "j = i") (auto simp: socks_ok_def ps_def)
  moreover have "ip_ok (ps_src_ipaddr (sock pl' j))" if "j \<in> live pl - {i}" for j
    using that off [of j] I(3) by (auto simp: socks_ok_def)
  ultimately have so: "socks_ok pl'" using L unfolding socks_ok_def l by (simp add: i(3))
  have "ids_ok mem pl' j" if "j \<in> live pl - {i}" for j
    using I(5) [of j] that off [of j] by (simp add: ids_ok_def carried_def t)
  moreover have "\<exists>j \<in> live pl - {i}. sent_by (mem r) (sock pl' j)" if r: "r \<in> set (pl_elems pl)" for r
  proof -
    obtain j where j: "j \<in> live pl" "sent_by (mem r) (sock pl j)" using I(4) [OF r] by blast
    then have "r \<in> carried mem pl j" using r by (simp add: carried_def sent_by_def)
    then have "j \<noteq> i" using none by blast
    with j show ?thesis using off [of j] by (intro bexI [of _ j]) simp_all
  qed
  ultimately show ?thesis unfolding pl_inv_def l using so t I(1,2,6) by auto
qed (use inv in simp)

lemma socket_freeze_inv:
  assumes "pl_inv mem pl"
  shows "pl_inv mem (fst (fr_packet_list_socket_freeze pl fd))" "pl_inv mem (fst (fr_packet_list_socket_thaw pl fd))"
    "pl_tree (fst (fr_packet_list_socket_freeze pl fd)) = pl_tree pl"
    "pl_tree (fst (fr_packet_list_socket_thaw pl fd)) = pl_tree pl"
  using assms socket_find_Some [of pl fd]
  by (auto simp: fr_packet_list_socket_freeze_def fr_packet_list_socket_thaw_def intro!: pl_inv_socket split: option.split)

section \<open>Allocating an identifier\<close>

definition alloc_request :: "packet \<Rightarrow> packet" where
  "alloc_request p =
     (if ip_af (p_src_ipaddr p) = AF_UNSPEC
      then p\<lparr>p_src_ipaddr := zero_ipaddr\<lparr>ip_af := ip_af (p_dst_ipaddr p)\<rparr>\<rparr> else p)"

text \<open>The requests refused whatever the sockets, and the test of a socket for the others.\<close>

definition alloc_refused :: "packet \<Rightarrow> bool" where
  "alloc_refused p \<longleftrightarrow>
     ip_af (p_dst_ipaddr p) = AF_UNSPEC \<or> p_dst_port p = 0 \<or>
     fr_inaddr_any (p_src_ipaddr (alloc_request p)) < 0 \<or> fr_inaddr_any (p_dst_ipaddr p) \<noteq> 0"

abbreviation usable_for :: "int \<Rightarrow> packet \<Rightarrow> packet_socket \<Rightarrow> bool" where
  "usable_for proto p \<equiv> socket_usable (fr_inaddr_any (p_src_ipaddr (alloc_request p))) proto (alloc_request p)"

lemma alloc_request_dst [simp]:
  "p_dst_ipaddr (alloc_request p) = p_dst_ipaddr p" "p_dst_port (alloc_request p) = p_dst_port p"
  by (simp_all add: alloc_request_def)

lemma if_merge:
  "(if p \<or> q then x else if b then y else if c then y else z) =
   (if p \<or> q then x else if p \<or> q \<or> b \<or> c then y else z)"
  by simp

lemma id_alloc_unfold:
  "fr_packet_list_id_alloc rnd ok mem pl proto r =
     (if ip_af (p_dst_ipaddr (mem r)) = AF_UNSPEC \<or> p_dst_port (mem r) = 0 then Some (mem, pl, None)
      else if alloc_refused (mem r) then Some (mem(r := alloc_request (mem r)), pl, None)
      else case free_i rnd (usable_for proto (mem r)) (pl_sockets pl) (unat (rnd 0 AND 1023)) 1 [0..<MAX_SOCKETS] of
        None \<Rightarrow> Some (mem(r := alloc_request (mem r)), pl, None)
      | Some (i, j, k) \<Rightarrow>
          let ps = set_id (sock pl i) j k;
              request2 = (alloc_request (mem r))\<lparr>p_id := int (j * 8 + k), p_sockfd := ps_sockfd ps,
                           p_src_ipaddr := ps_src_ipaddr ps, p_src_port := ps_src_port ps\<rparr>;
              mem2 = mem(r := request2)
          in (case fr_packet_list_insert ok mem2 (set_socket pl i ps) r of
                None \<Rightarrow> None
              | Some (pl1, True) \<Rightarrow>
                  Some (mem2,
                    (set_socket pl1 i (ps\<lparr>ps_num_outgoing := ps_num_outgoing ps + 1\<rparr>))
                      \<lparr>pl_num_outgoing := pl_num_outgoing pl1 + 1\<rparr>,
                    Some (ps_ctx ps))
              | Some (pl1, False) \<Rightarrow>
                  Some (mem2(r := request2\<lparr>p_id := - 1, p_sockfd := - 1,
                               p_src_ipaddr := (p_src_ipaddr request2)\<lparr>ip_af := AF_UNSPEC\<rparr>, p_src_port := 0\<rparr>),
                    set_socket pl1 i (clear_id ps (p_id request2)), None)))"
proof -
  have a: "(if ip_af (p_src_ipaddr (mem r)) = AF_UNSPEC
      then (mem r)\<lparr>p_src_ipaddr := zero_ipaddr\<lparr>ip_af := ip_af (p_dst_ipaddr (mem r))\<rparr>\<rparr> else mem r) = alloc_request (mem r)"
    by (simp add: alloc_request_def)
  show ?thesis
    unfolding fr_packet_list_id_alloc_def Let_def a alloc_refused_def fun_upd_upd alloc_request_dst
    by (rule if_merge)
qed

lemma used_less_256: "used_ids ps \<subseteq> {..<256}" "card (used_ids ps) \<le> 256"
proof -
  show s: "used_ids ps \<subseteq> {..<256}" by (auto simp: used_ids_def)
  from card_mono [OF _ s] show "card (used_ids ps) \<le> 256" by simp
qed

lemma unat_plus_1: "unat (n :: u32) < 256 \<Longrightarrow> unat (n + 1) = Suc (unat n)"
  by (simp add: unat_word_ariths)

lemma unat_minus_1: "0 < unat (n :: u32) \<Longrightarrow> unat (n - 1) = unat n - 1"
  by (metis gr_implies_not0 unat_0 unat_minus_one)

lemma carried_image:
  assumes "pl_inv mem pl" "i \<in> live pl" "q \<in> carried mem pl i"
  shows "sent_by (mem q) (sock pl i)"
proof -
  note I = pl_invD [OF assms(1)]
  have q: "q \<in> set (pl_elems pl)" "p_sockfd (mem q) = ps_sockfd (sock pl i)" using assms(3) by (auto simp: carried_def)
  obtain j where j: "j \<in> live pl" "sent_by (mem q) (sock pl j)" using I(4) [OF q(1)] by blast
  then have "j = i" using I(3) assms(2) q(2) by (auto simp: socks_ok_def sent_by_def dest: inj_onD)
  with j show ?thesis by simp
qed

lemma unused_id_new:
  assumes inv: "pl_inv mem pl" and i: "i \<in> live pl" and new: "n \<notin> used_ids (sock pl i)" and r: "r \<notin> set (pl_elems pl)"
    and ok: "packet_ok req" and req: "p_id req = int n" "p_sockfd req = ps_sockfd (sock pl i)"
  shows "rbtree_finddata (packet_entry_cmp (mem(r := req))) (pl_tree pl) r = None"
proof (rule ccontr)
  note I = pl_invD [OF inv]
  let ?mem = "mem(r := req)"
  have tinv: "rb_inv (packet_entry_cmp ?mem) (pl_keys ?mem) (pl_tree pl)" using r by (intro rb_inv_mem [OF I(1)]) auto
  assume "rbtree_finddata (packet_entry_cmp ?mem) (pl_tree pl) r \<noteq> None"
  then obtain y where y: "rbtree_finddata (packet_entry_cmp ?mem) (pl_tree pl) r = Some y" by blast
  have rK: "r \<in> pl_keys ?mem" using ok by simp
  from rb.look_mem [OF tinv rK y] have y: "y \<in> set (pl_elems pl)" "fr_packet_cmp req (mem y) = 0"
    using r by (auto simp: packet_entry_cmp_def split: if_splits)
  then have "packet_key req = packet_key (mem y)" using packet_cmp_zero ok pl_elems_ok [OF inv] by blast
  from packet_key_id [OF this] have "p_id (mem y) = int n" "p_sockfd (mem y) = ps_sockfd (sock pl i)"
    using req by simp_all
  moreover from this have "y \<in> carried mem pl i" using y(1) by (simp add: carried_def)
  ultimately have "n \<in> used_ids (sock pl i)" using I(5) [OF i] by (force simp: ids_ok_def)
  with new show False by blast
qed

lemma id_alloc_ok:
  assumes inv: "pl_inv mem pl" and r: "r \<notin> set (pl_elems pl)" and wf: "length (ip_addr (p_dst_ipaddr (mem r))) = 16"
    and ref: "\<not> alloc_refused (mem r)"
    and f: "free_i rnd (usable_for proto (mem r)) (pl_sockets pl) s 1 [0..<MAX_SOCKETS] = Some (i, j, k)"
    and s: "s = unat (rnd 0 AND 1023)"
  shows "\<exists>mem' pl'. fr_packet_list_id_alloc rnd True mem pl proto r = Some (mem', pl', Some (ps_ctx (sock pl i))) \<and>
     pl_inv mem' pl' \<and> i \<in> live pl \<and> usable_for proto (mem r) (sock pl i) \<and> sent_by (mem' r) (sock pl i) \<and>
     p_id (mem' r) = int (j * 8 + k) \<and> j * 8 + k \<notin> used_ids (sock pl i) \<and>
     used_ids (sock pl' i) = insert (j * 8 + k) (used_ids (sock pl i)) \<and>
     mset (pl_elems pl') = add_mset r (mset (pl_elems pl)) \<and> (\<forall>q. q \<noteq> r \<longrightarrow> mem' q = mem q) \<and>
     p_dst_ipaddr (mem' r) = p_dst_ipaddr (mem r) \<and> p_dst_port (mem' r) = p_dst_port (mem r) \<and> i \<in> live pl' \<and>
     ps_proto (sock pl' i) = ps_proto (sock pl i) \<and> ps_src_any (sock pl' i) = ps_src_any (sock pl i) \<and>
     sent_by (mem' r) (sock pl' i)"
proof -
  note I = pl_invD [OF inv]
  have fi: "i < MAX_SOCKETS" "j < 32" "k < 8" "usable_for proto (mem r) (sock pl i)" "j * 8 + k \<notin> used_ids (sock pl i)"
    using free_i_Some [OF f] by auto
  have i: "i \<in> live pl" using fi(1,4) by (auto simp: live_def socket_usable_def split: if_splits)
  have L: "length (pl_sockets pl) = MAX_SOCKETS" "length (ps_id (sock pl i)) = 32" "ip_ok (ps_src_ipaddr (sock pl i))"
    using I(3) fi(1) i by (auto simp: socks_ok_def)
  define ps where "ps = set_id (sock pl i) j k"
  define req where "req = (alloc_request (mem r))\<lparr>p_id := int (j * 8 + k), p_sockfd := ps_sockfd ps,
                           p_src_ipaddr := ps_src_ipaddr ps, p_src_port := ps_src_port ps\<rparr>"
  define mem' where "mem' = mem(r := req)"
  have ps: "ps_sockfd ps = ps_sockfd (sock pl i)" "ps_src_ipaddr ps = ps_src_ipaddr (sock pl i)"
    "ps_src_port ps = ps_src_port (sock pl i)" "ps_num_outgoing ps = ps_num_outgoing (sock pl i)"
    "ps_ctx ps = ps_ctx (sock pl i)" "length (ps_id ps) = 32"
    "used_ids ps = insert (j * 8 + k) (used_ids (sock pl i))"
    using L used_set_id [OF L(2) fi(2,3)] by (simp_all add: ps_def set_id_def)
  have ok: "packet_ok req" using L(3) ref any_known [OF wf] ps by (simp add: packet_ok_def req_def alloc_refused_def)
  have old: "mem' q = mem q" if "q \<in> set (pl_elems pl)" for q using that r by (auto simp: mem'_def)
  have tinv: "rb_inv (packet_entry_cmp mem') (pl_keys mem') (pl_tree pl)" using rb_inv_mem [OF I(1) old] .
  have rK: "r \<in> pl_keys mem'" using ok by (simp add: mem'_def)
  have "rbtree_finddata (packet_entry_cmp mem') (pl_tree pl) r = None"
    unfolding mem'_def using unused_id_new [OF inv i fi(5) r ok] ps(1) by (simp add: req_def)
  from rb.ins_new [OF tinv rK this] obtain t where t: "rbtree_insert (packet_entry_cmp mem') True (pl_tree pl) r = Some (t, [], True)"
    "rb_inv (packet_entry_cmp mem') (pl_keys mem') t" "mset (rb_elems t) = add_mset r (mset (pl_elems pl))"
    "rb_replace t = rb_replace (pl_tree pl)" by blast
  define ps' where "ps' = ps\<lparr>ps_num_outgoing := ps_num_outgoing ps + 1\<rparr>"
  define pl' where "pl' = (set_socket ((set_socket pl i ps)\<lparr>pl_tree := t\<rparr>) i ps')
      \<lparr>pl_num_outgoing := pl_num_outgoing pl + 1\<rparr>"
  have pl': "pl_sockets pl' = (pl_sockets pl)[i := ps']" "pl_tree pl' = t" "pl_num_outgoing pl' = pl_num_outgoing pl + 1"
    by (simp_all add: pl'_def set_socket_def)
  have at: "sock pl' i = ps'" using pl'(1) L(1) fi(1) by simp
  have al: "fr_packet_list_id_alloc rnd True mem pl proto r = Some (mem', pl', Some (ps_ctx (sock pl i)))"
  proof -
    have c: "\<not> (ip_af (p_dst_ipaddr (mem r)) = AF_UNSPEC \<or> p_dst_port (mem r) = 0)"
      using ref by (simp add: alloc_refused_def)
    have ins: "fr_packet_list_insert True mem' (set_socket pl i ps) r = Some ((set_socket pl i ps)\<lparr>pl_tree := t\<rparr>, True)"
      using t(1) by (simp add: fr_packet_list_insert_def)
    show ?thesis
      unfolding id_alloc_unfold if_not_P [OF c] if_not_P [OF ref] f [unfolded s] option.case prod.case Let_def
        ps_def [symmetric] req_def [symmetric] mem'_def [symmetric] ins bool.case
      by (simp add: pl'_def ps'_def ps)
  qed
  have set_t: "set (rb_elems t) = insert r (set (pl_elems pl))" using arg_cong [OF t(3), of set_mset] by simp
  have car: "carried mem' pl' i = insert r (carried mem pl i)"
    using set_t pl'(2) at old ps(1) by (auto simp: carried_def ps'_def mem'_def req_def)
  have rc: "r \<notin> carried mem pl i" using r by (simp add: carried_def)
  have same: "mem' q = mem q" if "q \<in> carried mem pl i" for q using that old by (simp add: carried_def)
  have idr: "p_id (mem' r) = int (j * 8 + k)" by (simp add: mem'_def req_def)
  have nr: "nat (p_id (mem' r)) = j * 8 + k" unfolding idr by (simp only: nat_int)
  have snt: "sent_by (mem' r) ps" using fi(2,3) by (simp add: sent_by_def mem'_def req_def)
  have idi: "ids_ok mem pl i" using I(5) [OF i] .
  have img: "(\<lambda>r. nat (p_id (mem' r))) ` carried mem pl i = used_ids (sock pl i)"
    using idi same image_cong [of "carried mem pl i" "carried mem pl i" "\<lambda>r. nat (p_id (mem' r))" "\<lambda>r. nat (p_id (mem r))"]
    by (simp add: ids_ok_def)
  have "inj_on (\<lambda>r. p_id (mem' r)) (carried mem pl i)"
    using idi same inj_on_cong [of "carried mem pl i" "\<lambda>r. p_id (mem' r)" "\<lambda>r. p_id (mem r)"] by (simp add: ids_ok_def)
  moreover have "int (j * 8 + k) \<notin> (\<lambda>r. p_id (mem' r)) ` carried mem pl i"
  proof (rule notI, erule imageE)
    fix q assume q: "int (j * 8 + k) = p_id (mem' q)" "q \<in> carried mem pl i"
    then have "nat (p_id (mem' q)) = j * 8 + k" by simp
    with q(2) have "j * 8 + k \<in> (\<lambda>r. nat (p_id (mem' r))) ` carried mem pl i" by (metis image_eqI)
    with img fi(5) show False by simp
  qed
  ultimately have inj: "inj_on (\<lambda>r. p_id (mem' r)) (insert r (carried mem pl i))"
    using rc unfolding inj_on_insert idr by simp
  have "card (used_ids (sock pl i)) < 256"
    using fi(2,3,5) used_less_256 [of "sock pl i"] psubset_card_mono [of "{..<256}" "used_ids (sock pl i)"] by force
  moreover have "unat (ps_num_outgoing (sock pl i)) = card (used_ids (sock pl i))" using idi by (simp add: ids_ok_def)
  ultimately have cnt: "unat (ps_num_outgoing ps + 1) = card (used_ids ps)"
    using unat_plus_1 [of "ps_num_outgoing (sock pl i)"] fi(5) unfolding ps(4,7) by simp
  have "ids_ok mem' pl' i"
    unfolding ids_ok_def car at image_insert nr img using inj cnt ps(7) by (simp add: ps'_def)
  moreover have "r \<in> set (pl_elems pl) \<Longrightarrow> p_sockfd (mem r) = ps_sockfd ps'" using r by simp
  moreover have "sent_by (mem' r) ps'" using snt by (simp add: sent_by_def ps'_def)
  moreover have "length (rb_elems t) = Suc (length (pl_elems pl))" using arg_cong [OF t(3), of size] by simp
  then have "pl_num_outgoing pl' = word_of_nat (length (pl_elems pl'))" using pl' I(6) by (simp add: add.commute)
  ultimately have "pl_inv mem' pl'"
    using pl_inv_update [OF inv i pl'(1), of mem' r] ps t(2,4) I(2) pl'(2) set_t r by (auto simp: ps'_def mem'_def)
  moreover have "sent_by (mem' r) (sock pl i)" using snt ps by (simp add: sent_by_def)
  moreover have "used_ids (sock pl' i) = insert (j * 8 + k) (used_ids (sock pl i))" using at ps(7) by (simp add: ps'_def)
  moreover have "p_dst_ipaddr (mem' r) = p_dst_ipaddr (mem r)" "p_dst_port (mem' r) = p_dst_port (mem r)"
    by (simp_all add: mem'_def req_def)
  moreover have "q \<noteq> r \<Longrightarrow> mem' q = mem q" for q by (simp add: mem'_def)
  moreover have "i \<in> live pl'" using i at ps(1) by (simp add: live_def ps'_def)
  moreover have "ps_proto (sock pl' i) = ps_proto (sock pl i)" "ps_src_any (sock pl' i) = ps_src_any (sock pl i)"
    unfolding at by (simp_all add: ps'_def ps_def set_id_def)
  moreover have "sent_by (mem' r) (sock pl' i)" using snt unfolding at by (simp add: sent_by_def ps'_def)
  ultimately show ?thesis using al i fi(4,5) idr t(3) pl'(2) by blast
qed

text \<open>Without memory for the tree node, only the request changes.\<close>

lemma id_alloc_nomem:
  assumes inv: "pl_inv mem pl" and r: "r \<notin> set (pl_elems pl)" and wf: "length (ip_addr (p_dst_ipaddr (mem r))) = 16"
    and ref: "\<not> alloc_refused (mem r)"
    and f: "free_i rnd (usable_for proto (mem r)) (pl_sockets pl) s 1 [0..<MAX_SOCKETS] = Some (i, j, k)"
    and s: "s = unat (rnd 0 AND 1023)"
  shows "\<exists>mem'. fr_packet_list_id_alloc rnd False mem pl proto r = Some (mem', pl, None) \<and>
     (\<forall>q. q \<noteq> r \<longrightarrow> mem' q = mem q)"
proof -
  note I = pl_invD [OF inv]
  have fi: "i < MAX_SOCKETS" "j < 32" "k < 8" "usable_for proto (mem r) (sock pl i)" "j * 8 + k \<notin> used_ids (sock pl i)"
    using free_i_Some [OF f] by auto
  have i: "i \<in> live pl" using fi(1,4) by (auto simp: live_def socket_usable_def split: if_splits)
  have L: "length (pl_sockets pl) = MAX_SOCKETS" "length (ps_id (sock pl i)) = 32" "ip_ok (ps_src_ipaddr (sock pl i))"
    using I(3) fi(1) i by (auto simp: socks_ok_def)
  have bit: "\<not> id_bit (ps_id (sock pl i) ! j) k" using fi(2,3,5) by (auto simp: used_ids_def)
  define ps where "ps = set_id (sock pl i) j k"
  define req where "req = (alloc_request (mem r))\<lparr>p_id := int (j * 8 + k), p_sockfd := ps_sockfd ps,
                           p_src_ipaddr := ps_src_ipaddr ps, p_src_port := ps_src_port ps\<rparr>"
  have ps: "ps_sockfd ps = ps_sockfd (sock pl i)" "ps_src_ipaddr ps = ps_src_ipaddr (sock pl i)"
    by (simp_all add: ps_def set_id_def)
  have ok: "packet_ok req" using L(3) ref any_known [OF wf] ps by (simp add: packet_ok_def req_def alloc_refused_def)
  have "rbtree_finddata (packet_entry_cmp (mem(r := req))) (pl_tree pl) r = None"
    using unused_id_new [OF inv i fi(5) r ok] ps(1) by (simp add: req_def)
  moreover have inv1: "rb_inv (packet_entry_cmp (mem(r := req))) (pl_keys (mem(r := req))) (pl_tree pl)"
    using r by (intro rb_inv_mem [OF I(1)]) auto
  moreover have rK: "r \<in> pl_keys (mem(r := req))" using ok by simp
  ultimately have "rbtree_insert (packet_entry_cmp (mem(r := req))) False (pl_tree pl) r = Some (pl_tree pl, [], False)"
    using rb.ins_nomem [OF inv1 rK] by simp
  then have ins: "fr_packet_list_insert False (mem(r := req)) (set_socket pl i ps) r = Some (set_socket pl i ps, False)"
    by (simp add: fr_packet_list_insert_def set_socket_def)
  have c: "\<not> (ip_af (p_dst_ipaddr (mem r)) = AF_UNSPEC \<or> p_dst_port (mem r) = 0)"
    using ref by (simp add: alloc_refused_def)
  have "clear_id ps (p_id req) = sock pl i"
    using clear_set_id [OF L(2) fi(2,3) bit] by (simp add: ps_def req_def)
  moreover have "set_socket (set_socket pl i ps) i (sock pl i) = pl" by (simp add: set_socket_def)
  ultimately show ?thesis
    unfolding id_alloc_unfold if_not_P [OF c] if_not_P [OF ref] f [unfolded s] option.case prod.case Let_def
      ps_def [symmetric] req_def [symmetric] ins bool.case
    by simp
qed

text \<open>The search fails only when no socket will do.\<close>

lemma free_i_none_usable:
  assumes inv: "pl_inv mem pl" and f: "free_i rnd (usable_for proto p) (pl_sockets pl) s n [0..<MAX_SOCKETS] = None"
    and i: "i \<in> live pl"
  shows "\<not> usable_for proto p (sock pl i)"
proof
  assume u: "usable_for proto p (sock pl i)"
  note I = pl_invD [OF inv]
  have "i < MAX_SOCKETS" using i by (simp add: live_def)
  then obtain m where "m \<in> set [0..<MAX_SOCKETS]" "(m + s) mod MAX_SOCKETS = i"
    using rotate_cover [of MAX_SOCKETS i s] by auto
  with free_i_None [OF f, of m] u have "used_ids (sock pl i) = {..<256}" by simp
  then have "unat (ps_num_outgoing (sock pl i)) = 256" using I(5) [OF i] by (simp add: ids_ok_def)
  then have "ps_num_outgoing (sock pl i) = 256" by (simp add: word_unat_eq_iff)
  with u show False by (auto simp: socket_usable_def split: if_splits)
qed

lemma id_alloc_none:
  assumes "alloc_refused (mem r) \<or>
     free_i rnd (usable_for proto (mem r)) (pl_sockets pl) (unat (rnd 0 AND 1023)) 1 [0..<MAX_SOCKETS] = None"
  shows "\<exists>mem'. fr_packet_list_id_alloc rnd ok mem pl proto r = Some (mem', pl, None) \<and> (\<forall>q. q \<noteq> r \<longrightarrow> mem' q = mem q)"
proof (cases "ip_af (p_dst_ipaddr (mem r)) = AF_UNSPEC \<or> p_dst_port (mem r) = 0")
  case True
  show ?thesis unfolding id_alloc_unfold if_P [OF True] by simp
next
  case c: False
  show ?thesis
  proof (cases "alloc_refused (mem r)")
    case True
    show ?thesis unfolding id_alloc_unfold if_not_P [OF c] if_P [OF True] by simp
  next
    case False
    with assms have f: "free_i rnd (usable_for proto (mem r)) (pl_sockets pl) (unat (rnd 0 AND 1023)) 1 [0..<MAX_SOCKETS] = None"
      by blast
    show ?thesis unfolding id_alloc_unfold if_not_P [OF c] if_not_P [OF False] f option.case by simp
  qed
qed

end
