(* ===== verification/PacketLife.thy ===== *)
theory PacketLife
  imports PacketList
begin

text \<open>
  The life of a request in the packet list: it gets an identifier, its reply is matched to it, and
  the identifier is freed. The properties of \<^verbatim>\<open>lib/packet.c\<close>.
\<close>

section \<open>Freeing an identifier\<close>

lemma yank_deletes:
  "fr_packet_list_yank mem pl r =
     map_option (\<lambda>(t, freed, b). (pl\<lparr>pl_tree := t\<rparr>, b)) (rbtree_deletebydata (packet_entry_cmp mem) (pl_tree pl) r)"
proof (cases "rbtree_find (packet_entry_cmp mem) (pl_tree pl) r")
  case (Some node)
  then show ?thesis
    by (cases "rbtree_delete_internal (pl_tree pl) node") (auto simp: fr_packet_list_yank_def rbtree_deletebydata_def)
qed (simp add: fr_packet_list_yank_def rbtree_deletebydata_def)

lemma socket_find_tree [simp]: "fr_socket_find (pl\<lparr>pl_tree := t\<rparr>) fd = fr_socket_find pl fd"
  by (simp add: fr_socket_find_def)

lemma id_free_ok:
  assumes inv: "pl_inv mem pl" and r: "r \<in> set (pl_elems pl)"
  shows "\<exists>mem' pl' i. fr_packet_list_id_free mem pl r True = Some (mem', pl', True) \<and> pl_inv mem' pl' \<and>
     i \<in> live pl \<and> sent_by (mem r) (sock pl i) \<and> used_ids (sock pl' i) = used_ids (sock pl i) - {nat (p_id (mem r))} \<and>
     mset (pl_elems pl') = mset (pl_elems pl) - {#r#} \<and> (\<forall>q. q \<noteq> r \<longrightarrow> mem' q = mem q) \<and>
     p_id (mem' r) = - 1 \<and> i \<in> live pl' \<and>
     (\<exists>n ids. sock pl' i = (sock pl i)\<lparr>ps_num_outgoing := n, ps_id := ids\<rparr>)"
proof -
  note I = pl_invD [OF inv]
  note o = rb.ordered [OF I(1)]
  have rK: "r \<in> pl_keys mem" using o r by blast
  from rb.del_present [OF I(1) rK rb.look_self [OF I(1) r]] obtain t where
    t: "rbtree_deletebydata (packet_entry_cmp mem) (pl_tree pl) r = Some (t, if rb_free (pl_tree pl) then [r] else [], True)"
       "rb_inv (packet_entry_cmp mem) (pl_keys mem) t" "mset (rb_elems t) = mset (pl_elems pl) - {#r#}"
       "rb_replace t = rb_replace (pl_tree pl)" by blast
  obtain i where i: "i \<in> live pl" "sent_by (mem r) (sock pl i)" using I(4) [OF r] by blast
  have L: "length (pl_sockets pl) = MAX_SOCKETS" "i < MAX_SOCKETS" "length (ps_id (sock pl i)) = 32"
    using I(3) i(1) by (auto simp: socks_ok_def live_def)
  have id: "0 \<le> p_id (mem r)" "p_id (mem r) < 256" "p_sockfd (mem r) = ps_sockfd (sock pl i)"
    using i(2) by (auto simp: sent_by_def)
  have find: "fr_socket_find pl (p_sockfd (mem r)) = Some i" using socket_find_live [OF I(3) i(1)] id(3) by simp
  define ps where "ps = clear_id (sock pl i) (p_id (mem r))"
  define ps' where "ps' = ps\<lparr>ps_num_outgoing := ps_num_outgoing ps - 1\<rparr>"
  define mem' where "mem' = mem(r := (mem r)\<lparr>p_id := - 1, p_src_ipaddr := (p_src_ipaddr (mem r))\<lparr>ip_af := AF_UNSPEC\<rparr>, p_src_port := 0\<rparr>)"
  define pl' where "pl' = (set_socket (pl\<lparr>pl_tree := t\<rparr>) i ps')\<lparr>pl_num_outgoing := pl_num_outgoing pl - 1\<rparr>"
  have ps: "ps_sockfd ps' = ps_sockfd (sock pl i)" "ps_src_ipaddr ps' = ps_src_ipaddr (sock pl i)"
    "ps_src_port ps' = ps_src_port (sock pl i)" "ps_num_outgoing ps' = ps_num_outgoing (sock pl i) - 1"
    "length (ps_id ps') = 32" "used_ids ps' = used_ids (sock pl i) - {nat (p_id (mem r))}"
    using L used_clear_id [OF L(3) id(1,2)] by (simp_all add: ps_def ps'_def clear_id_def Let_def)
  have fr: "fr_packet_list_id_free mem pl r True = Some (mem', pl', True)"
    using t(1) find by (simp add: fr_packet_list_id_free_def yank_deletes Let_def mem'_def pl'_def ps'_def ps_def)
  have pl': "pl_sockets pl' = (pl_sockets pl)[i := ps']" "pl_tree pl' = t" "pl_num_outgoing pl' = pl_num_outgoing pl - 1"
    by (simp_all add: pl'_def set_socket_def)
  have at: "sock pl' i = ps'" using pl'(1) L by simp
  have "distinct (pl_elems pl)" using in_order_distinct o by blast
  then have set_t: "set (rb_elems t) = set (pl_elems pl) - {r}"
    using mset_eq_setD [OF t(3) [folded mset_remove1]] by simp
  have old: "mem' q = mem q" if "q \<noteq> r" for q using that by (simp add: mem'_def)
  have tinv: "rb_inv (packet_entry_cmp mem') (pl_keys mem') t"
    using rb_inv_mem [OF t(2), of mem'] set_t old by simp
  have car: "carried mem' pl' i = carried mem pl i - {r}"
    using set_t pl'(2) at ps(1) old by (auto simp: carried_def)
  have rc: "r \<in> carried mem pl i" using r id(3) by (simp add: carried_def)
  have idi: "ids_ok mem pl i" using I(5) [OF i(1)] .
  have nn: "inj_on (\<lambda>q. nat (p_id (mem q))) (carried mem pl i)"
  proof (rule inj_onI)
    fix a b assume ab: "a \<in> carried mem pl i" "b \<in> carried mem pl i" "nat (p_id (mem a)) = nat (p_id (mem b))"
    then have "p_id (mem a) = p_id (mem b)" using carried_image [OF inv i(1)] by (metis sent_by_def eq_nat_nat_iff)
    with ab idi show "a = b" by (auto simp: ids_ok_def dest: inj_onD)
  qed
  have same: "mem' q = mem q" if "q \<in> carried mem pl i - {r}" for q using that old by simp
  have img: "(\<lambda>q. nat (p_id (mem' q))) ` (carried mem pl i - {r}) = used_ids ps'"
  proof -
    have "(\<lambda>q. nat (p_id (mem' q))) ` (carried mem pl i - {r}) = (\<lambda>q. nat (p_id (mem q))) ` (carried mem pl i - {r})"
      using same by (intro image_cong) auto
    also have "\<dots> = (\<lambda>q. nat (p_id (mem q))) ` carried mem pl i - {nat (p_id (mem r))}"
      using inj_on_image_set_diff [OF nn, of "carried mem pl i" "{r}"] rc by simp
    finally show ?thesis using idi ps(6) by (simp add: ids_ok_def)
  qed
  have inj: "inj_on (\<lambda>q. p_id (mem' q)) (carried mem pl i - {r})"
  proof (rule inj_onI)
    fix a b assume "a \<in> carried mem pl i - {r}" "b \<in> carried mem pl i - {r}" "p_id (mem' a) = p_id (mem' b)"
    then show "a = b" using same idi by (auto simp: ids_ok_def dest: inj_onD)
  qed
  have mem_id: "nat (p_id (mem r)) \<in> used_ids (sock pl i)" using idi rc by (auto simp: ids_ok_def)
  have n: "unat (ps_num_outgoing (sock pl i)) = card (used_ids (sock pl i))" using idi by (simp add: ids_ok_def)
  then have "0 < unat (ps_num_outgoing (sock pl i))" using mem_id by (metis card_gt_0_iff empty_iff finite_used_ids)
  then have cnt: "unat (ps_num_outgoing ps') = card (used_ids ps')"
    using unat_minus_1 n mem_id unfolding ps(4,6) by simp
  have ids: "ids_ok mem' pl' i" unfolding ids_ok_def car at using inj cnt img by simp
  have "mset (pl_elems pl) = add_mset r (mset (rb_elems t))" using r t(3) by simp
  from arg_cong [OF this, of size] have "length (pl_elems pl) = Suc (length (rb_elems t))" by simp
  then have num: "pl_num_outgoing pl' = word_of_nat (length (pl_elems pl'))" using pl' I(6) by simp
  have "pl_inv mem' pl'"
    using pl_inv_update [OF inv i(1) pl'(1) ps(5,1,2,3), of mem' r] tinv t(4) I(2) num pl'(2) old set_t id(3) ids ps(1) by auto
  moreover have "p_id (mem' r) = - 1" by (simp add: mem'_def)
  moreover have "i \<in> live pl'" using i(1) at ps(1) by (simp add: live_def)
  moreover have "sock pl' i = (sock pl i)\<lparr>ps_num_outgoing := ps_num_outgoing ps', ps_id := ps_id ps'\<rparr>"
    by (simp add: at) (simp add: ps'_def ps_def clear_id_def Let_def)
  ultimately show ?thesis using fr i at ps(6) t(3) pl'(2) old
    by (intro exI [of _ mem'] exI [of _ pl'] exI [of _ i]) (simp, blast)
qed

section \<open>Matching a reply\<close>

text \<open>
  The reply \<open>q\<close> answers the request \<open>p\<close> sent from the socket: same descriptor and identifier, and
  over UDP from the address the request was sent to, to the address the socket is bound to, when
  it is bound to one. Over TCP the addresses are the socket's.
\<close>

definition answers :: "packet \<Rightarrow> packet \<Rightarrow> packet_socket \<Rightarrow> bool" where
  "answers p q ps \<longleftrightarrow>
     p_sockfd q = p_sockfd p \<and> p_id q = p_id p \<and>
     (if ps_proto ps = IPPROTO_TCP
      then ps_dst_ipaddr ps = p_dst_ipaddr p \<and> ps_dst_port ps = p_dst_port p
      else p_src_ipaddr q = p_dst_ipaddr p \<and> p_src_port q = p_dst_port p \<and>
           (ps_src_any ps = 0 \<longrightarrow> p_dst_ipaddr q = p_src_ipaddr p))"

lemma byreply_lookup:
  assumes inv: "pl_inv mem pl" and i: "i \<in> live pl"
    and p: "packet_ok p" "sent_by p (sock pl i)" "answers p (mem reply) (sock pl i)"
    and out: "local \<notin> set (pl_elems pl)" "reply \<notin> set (pl_elems pl)"
  shows "\<exists>m. snd (fr_packet_list_find_byreply local mem pl reply) = rbtree_finddata (packet_entry_cmp m) (pl_tree pl) local \<and>
     (\<forall>q \<in> set (pl_elems pl). m q = mem q) \<and> packet_key (m local) = packet_key p \<and> packet_ok (m local)"
proof -
  note I = pl_invD [OF inv]
  have "fr_socket_find pl (p_sockfd (mem reply)) = Some i"
    using socket_find_live [OF I(3) i] p(2,3) by (simp add: sent_by_def answers_def)
  then show ?thesis using p out
    by (auto simp: fr_packet_list_find_byreply_def Let_def answers_def sent_by_def packet_key_def packet_ok_def
        intro!: exI [of _ "fst (fr_packet_list_find_byreply local mem pl reply)"])
qed

lemma byreply_found:
  assumes inv: "pl_inv mem pl" and i: "i \<in> live pl"
    and p: "packet_ok p" "sent_by p (sock pl i)" "answers p (mem reply) (sock pl i)"
    and out: "local \<notin> set (pl_elems pl)" "reply \<notin> set (pl_elems pl)"
  shows "snd (fr_packet_list_find_byreply local mem pl reply) = Some y \<longleftrightarrow>
     y \<in> set (pl_elems pl) \<and> packet_key (mem y) = packet_key p"
proof -
  note I = pl_invD [OF inv]
  from byreply_lookup [OF assms] obtain m where
    m: "snd (fr_packet_list_find_byreply local mem pl reply) = rbtree_finddata (packet_entry_cmp m) (pl_tree pl) local"
      "\<forall>q \<in> set (pl_elems pl). m q = mem q" "packet_key (m local) = packet_key p" "packet_ok (m local)" by blast
  have t: "rb_inv (packet_entry_cmp m) (pl_keys m) (pl_tree pl)" using rb_inv_mem [OF I(1)] m(2) by blast
  have K: "local \<in> pl_keys m" using m(4) by simp
  have key: "packet_entry_cmp m local y = 0 \<longleftrightarrow> packet_key (mem y) = packet_key p" if "y \<in> set (pl_elems pl)" for y
    using packet_cmp_zero [OF m(4), of "m y"] pl_elems_ok [OF inv that] m(2,3) that by (auto simp: packet_entry_cmp_def)
  show ?thesis
  proof
    assume "snd (fr_packet_list_find_byreply local mem pl reply) = Some y"
    then have "rbtree_finddata (packet_entry_cmp m) (pl_tree pl) local = Some y" using m(1) by simp
    from rb.look_mem [OF t K this] show "y \<in> set (pl_elems pl) \<and> packet_key (mem y) = packet_key p" using key by blast
  next
    assume "y \<in> set (pl_elems pl) \<and> packet_key (mem y) = packet_key p"
    then show "snd (fr_packet_list_find_byreply local mem pl reply) = Some y"
      using rb.look_some [OF t K, of y] key m(1) by simp
  qed
qed

text \<open>Two requests in the list never have the same key: the identifier tells those of a socket apart.\<close>

lemma key_unique:
  assumes inv: "pl_inv mem pl" and ab: "a \<in> set (pl_elems pl)" "b \<in> set (pl_elems pl)"
    and eq: "packet_key (mem a) = packet_key (mem b)"
  shows "a = b"
proof -
  note I = pl_invD [OF inv]
  obtain i where i: "i \<in> live pl" "sent_by (mem a) (sock pl i)" using I(4) [OF ab(1)] by blast
  have "a \<in> carried mem pl i" "b \<in> carried mem pl i"
    using packet_key_id [OF eq] i(2) ab by (auto simp: carried_def sent_by_def)
  moreover have "p_id (mem a) = p_id (mem b)" using packet_key_id [OF eq] by blast
  ultimately show ?thesis using I(5) [OF i(1)] by (auto simp: ids_ok_def dest: inj_onD)
qed

lemma reply_gone:
  assumes inv: "pl_inv mem pl" and r: "r \<in> set (pl_elems pl)"
    and inv': "pl_inv mem' pl'" and i: "i \<in> live pl'"
    and elems: "set (pl_elems pl') \<subseteq> set (pl_elems pl) - {r}" and mem': "\<forall>q. q \<noteq> r \<longrightarrow> mem' q = mem q"
    and p: "sent_by (mem r) (sock pl' i)" "answers (mem r) (mem' reply) (sock pl' i)"
    and out: "local \<notin> set (pl_elems pl')" "reply \<notin> set (pl_elems pl')"
  shows "snd (fr_packet_list_find_byreply local mem' pl' reply) = None"
proof (rule ccontr)
  assume "snd (fr_packet_list_find_byreply local mem' pl' reply) \<noteq> None"
  then obtain y where "snd (fr_packet_list_find_byreply local mem' pl' reply) = Some y" by blast
  with byreply_found [OF inv' i pl_elems_ok [OF inv r] p out] have
    y: "y \<in> set (pl_elems pl')" "packet_key (mem' y) = packet_key (mem r)" by blast+
  then have "y \<in> set (pl_elems pl)" "y \<noteq> r" using elems by auto
  then show False using key_unique [OF inv _ r, of y] y(2) mem' by simp
qed

section \<open>Reachable lists\<close>

text \<open>
  The histories of a list used as \<^verbatim>\<open>main/radclient.c\<close> and \<^verbatim>\<open>main/process.c\<close> use it: a descriptor is
  added once while it is open, a request gets its identifier through the list and gives it back
  through the list, and the memory of a request is left alone while the list holds it.
\<close>

inductive pl_reach :: "(nat \<Rightarrow> packet) \<Rightarrow> packet_list \<Rightarrow> bool" where
  create: "fr_packet_list_create True True alloc_id = Some pl \<Longrightarrow> pl_reach mem pl"
| store: "pl_reach mem pl \<Longrightarrow> r \<notin> set (pl_elems pl) \<Longrightarrow> pl_reach (mem(r := p)) pl"
| add: "pl_reach mem pl \<Longrightarrow>
    fr_packet_list_socket_add pl fd proto dst dport ctx getsockname src = (pl', True) \<Longrightarrow> fd \<noteq> - 1 \<Longrightarrow>
    (\<And>i. i \<in> live pl \<Longrightarrow> ps_sockfd (sock pl i) \<noteq> fd) \<Longrightarrow>
    (\<And>addr port. src = Some (addr, port) \<Longrightarrow> length (ip_addr addr) = 16) \<Longrightarrow> pl_reach mem pl'"
| del: "pl_reach mem pl \<Longrightarrow> fd \<noteq> - 1 \<Longrightarrow> fr_packet_list_socket_del pl fd = (pl', res) \<Longrightarrow> pl_reach mem pl'"
| freeze: "pl_reach mem pl \<Longrightarrow> fr_packet_list_socket_freeze pl fd = (pl', res) \<Longrightarrow> pl_reach mem pl'"
| thaw: "pl_reach mem pl \<Longrightarrow> fr_packet_list_socket_thaw pl fd = (pl', res) \<Longrightarrow> pl_reach mem pl'"
| alloc: "pl_reach mem pl \<Longrightarrow> r \<notin> set (pl_elems pl) \<Longrightarrow> length (ip_addr (p_dst_ipaddr (mem r))) = 16 \<Longrightarrow>
    fr_packet_list_id_alloc rnd ok mem pl proto r = Some (mem', pl', res) \<Longrightarrow> pl_reach mem' pl'"
| release: "pl_reach mem pl \<Longrightarrow> r \<in> set (pl_elems pl) \<Longrightarrow>
    fr_packet_list_id_free mem pl r True = Some (mem', pl', res) \<Longrightarrow> pl_reach mem' pl'"
| recv: "pl_reach mem pl \<Longrightarrow> fr_packet_list_recv tcp_recv rad_recv pl fds = Some (pl', res) \<Longrightarrow> pl_reach mem pl'"

lemma recv_loop_same: "recv_loop t u pl fds is = Some (pl', res) \<Longrightarrow> \<exists>n. pl' = pl\<lparr>pl_last_recv := n\<rparr>"
proof (induction "is")
  case Nil
  then have "pl' = pl\<lparr>pl_last_recv := pl_last_recv pl\<rparr>" by simp
  then show ?case by blast
next
  case (Cons i "is")
  consider "pl' = pl" | "pl' = pl\<lparr>pl_last_recv := i\<rparr>" | "recv_loop t u pl fds is = Some (pl', res)"
    using Cons(2) by (auto simp: Let_def split: if_splits option.splits bool.splits)
  then show ?case
  proof cases
    case 1
    then have "pl' = pl\<lparr>pl_last_recv := pl_last_recv pl\<rparr>" by simp
    then show ?thesis by blast
  qed (use Cons(1) in blast)+
qed

lemma recv_inv: "fr_packet_list_recv t u pl fds = Some (pl', res) \<Longrightarrow> pl_inv mem pl \<Longrightarrow> pl_inv mem pl'"
  unfolding fr_packet_list_recv_def
  by (drule recv_loop_same)
     (auto simp: pl_inv_def socks_ok_def live_def ids_ok_def carried_def)

text \<open>Every result of an allocation.\<close>

lemma id_alloc_cases:
  assumes inv: "pl_inv mem pl" and r: "r \<notin> set (pl_elems pl)" and wf: "length (ip_addr (p_dst_ipaddr (mem r))) = 16"
  obtains (none) mem' where "fr_packet_list_id_alloc rnd ok mem pl proto r = Some (mem', pl, None)"
      "\<forall>q. q \<noteq> r \<longrightarrow> mem' q = mem q" "alloc_refused (mem r) \<or> (\<forall>i \<in> live pl. \<not> usable_for proto (mem r) (sock pl i)) \<or> \<not> ok"
  | (some) mem' pl' i n where
      "fr_packet_list_id_alloc rnd ok mem pl proto r = Some (mem', pl', Some (ps_ctx (sock pl i)))"
      "pl_inv mem' pl'" "\<not> alloc_refused (mem r)" "i \<in> live pl" "usable_for proto (mem r) (sock pl i)" "sent_by (mem' r) (sock pl i)"
      "p_id (mem' r) = int n" "n \<notin> used_ids (sock pl i)" "used_ids (sock pl' i) = insert n (used_ids (sock pl i))"
      "mset (pl_elems pl') = add_mset r (mset (pl_elems pl))" "\<forall>q. q \<noteq> r \<longrightarrow> mem' q = mem q"
      "p_dst_ipaddr (mem' r) = p_dst_ipaddr (mem r)" "p_dst_port (mem' r) = p_dst_port (mem r)" "i \<in> live pl'"
      "ps_proto (sock pl' i) = ps_proto (sock pl i)" "ps_src_any (sock pl' i) = ps_src_any (sock pl i)"
      "sent_by (mem' r) (sock pl' i)" ok
proof (cases "alloc_refused (mem r)")
  case True
  with id_alloc_none [of mem r rnd proto pl ok] none show ?thesis by blast
next
  case ref: False
  define s where "s = unat (rnd 0 AND 1023)"
  show ?thesis
  proof (cases "free_i rnd (usable_for proto (mem r)) (pl_sockets pl) s 1 [0..<MAX_SOCKETS]")
    case None
    from free_i_none_usable [OF inv this] id_alloc_none [of mem r rnd proto pl ok] None none show ?thesis
      unfolding s_def by blast
  next
    case (Some ijk)
    obtain i j k where f: "free_i rnd (usable_for proto (mem r)) (pl_sockets pl) s 1 [0..<MAX_SOCKETS] = Some (i, j, k)"
      using Some by (cases ijk) auto
    show ?thesis
    proof (cases ok)
      case True
      from id_alloc_ok [OF inv r wf ref f s_def] obtain mem' pl' where
        A: "fr_packet_list_id_alloc rnd True mem pl proto r = Some (mem', pl', Some (ps_ctx (sock pl i)))"
        "pl_inv mem' pl'" "i \<in> live pl" "usable_for proto (mem r) (sock pl i)" "sent_by (mem' r) (sock pl i)"
        "p_id (mem' r) = int (j * 8 + k)" "j * 8 + k \<notin> used_ids (sock pl i)"
        "used_ids (sock pl' i) = insert (j * 8 + k) (used_ids (sock pl i))"
        "mset (pl_elems pl') = add_mset r (mset (pl_elems pl))" "\<forall>q. q \<noteq> r \<longrightarrow> mem' q = mem q"
        "p_dst_ipaddr (mem' r) = p_dst_ipaddr (mem r)" "p_dst_port (mem' r) = p_dst_port (mem r)" "i \<in> live pl'"
        "ps_proto (sock pl' i) = ps_proto (sock pl i)" "ps_src_any (sock pl' i) = ps_src_any (sock pl i)"
        "sent_by (mem' r) (sock pl' i)"
        by (elim exE conjE)
      from True A(1) have "fr_packet_list_id_alloc rnd ok mem pl proto r = Some (mem', pl', Some (ps_ctx (sock pl i)))" by simp
      then show ?thesis by (rule some [OF _ A(2) ref A(3-16) True])
    next
      case False
      from id_alloc_nomem [OF inv r wf ref f s_def] obtain mem' where
        A: "fr_packet_list_id_alloc rnd False mem pl proto r = Some (mem', pl, None)" "\<forall>q. q \<noteq> r \<longrightarrow> mem' q = mem q"
        by (elim exE conjE)
      from False A(1) have "fr_packet_list_id_alloc rnd ok mem pl proto r = Some (mem', pl, None)" by simp
      then show ?thesis using A(2) False by (intro none) simp_all
    qed
  qed
qed

lemma pl_reach_inv: "pl_reach mem pl \<Longrightarrow> pl_inv mem pl"
proof (induction rule: pl_reach.induct)
  case (store mem pl r p)
  then show ?case by (intro pl_inv_mem [OF store.IH]) auto
next
  case (alloc mem pl r rnd ok proto mem' pl' res)
  show ?case
  proof (rule id_alloc_cases [OF alloc(5) alloc(2) alloc(3), of rnd ok proto], goal_cases)
    case (1 mem'')
    then have "mem'' = mem'" "pl' = pl" using alloc(4) by simp_all
    moreover have "mem'' q = mem q" if "q \<in> set (pl_elems pl)" for q using that alloc(2) 1(2) by metis
    ultimately show ?thesis using pl_inv_mem [OF alloc(5)] by blast
  next
    case 2
    then show ?thesis using alloc(4) by simp
  qed
next
  case (release mem pl r mem' pl' res)
  from id_free_ok [OF release(4) release(2)] release(3) show ?case by auto
next
  case (del mem pl fd pl' res)
  then show ?case using socket_del_inv by blast
next
  case (add mem pl fd proto dst dport ctx getsockname src pl')
  from add(6,2,3,4,5) have "pl_inv mem pl' \<and> pl_tree pl' = pl_tree pl" by (rule socket_add_inv)
  then show ?case by blast
next
  case (freeze mem pl fd pl' res)
  then show ?case using socket_freeze_inv(1) [of mem pl fd] by simp
next
  case (thaw mem pl fd pl' res)
  then show ?case using socket_freeze_inv(2) [of mem pl fd] by simp
qed (use packet_list_create_inv(1) recv_inv in blast)+

section \<open>An example\<close>

text \<open>One UDP socket and one request on its way, which gets an identifier; address 2 is for the reply.\<close>

definition demo_addr :: "byte \<Rightarrow> byte \<Rightarrow> ipaddr" where
  "demo_addr a d = \<lparr>ip_af = AF_INET, ip_addr = [a, 0, 0, d] @ replicate 12 0, ip_prefix = 32, ip_scope = 0\<rparr>"

definition demo_mem :: "nat \<Rightarrow> packet" where
  "demo_mem q = \<lparr>p_sockfd = - 1, p_id = - 1, p_src_ipaddr = zero_ipaddr, p_dst_ipaddr = demo_addr 10 2,
     p_src_port = 0, p_dst_port = 1812, p_proto = 0\<rparr>"

definition demo_socket :: packet_socket where
  "demo_socket = zero_socket\<lparr>ps_sockfd := 7, ps_ctx := 5, ps_src_ipaddr := demo_addr 10 1, ps_src_port := 5000,
     ps_dst_any := 1, ps_dst_ipaddr := demo_addr 0 0, ps_proto := IPPROTO_UDP\<rparr>"

definition demo_list :: packet_list where
  "demo_list = fst (fr_packet_list_socket_add (the (fr_packet_list_create True True 0)) 7 IPPROTO_UDP
     (Some (demo_addr 0 0)) 0 5 True (Some (demo_addr 10 1, 5000)))"

definition demo_sent :: "(nat \<Rightarrow> packet) \<times> packet_list \<times> nat option" where
  "demo_sent = the (fr_packet_list_id_alloc (\<lambda>_. 0) True demo_mem demo_list IPPROTO_UDP 1)"

lemma socket_scan_first: "0 < k \<Longrightarrow> ps_sockfd (socks ! i) = fd \<Longrightarrow> socket_scan socks fd i k = Some i"
  by (cases k) simp_all

lemma demo_any: "fr_inaddr_any (demo_addr 10 1) = 0" "fr_inaddr_any (demo_addr 0 0) = 1" "fr_inaddr_any (demo_addr 10 2) = 0"
  by (simp_all add: fr_inaddr_any_def demo_addr_def s_addr_def le_word_def AF_INET_def)

lemma demo_list_facts:
  "pl_reach mem demo_list" "pl_elems demo_list = []" "SOCK2OFFSET 7 \<in> live demo_list"
  "sock demo_list (SOCK2OFFSET 7) = demo_socket" "\<And>i. i \<in> live demo_list \<Longrightarrow> sock demo_list i = demo_socket"
proof -
  obtain pl where pl: "fr_packet_list_create True True 0 = Some pl"
    by (auto simp: fr_packet_list_create_def rbtree_create_def)
  have empty: "pl_inv mem pl" "pl_elems pl = []" for mem using packet_list_create_inv [OF pl] by auto
  have socks: "pl_sockets pl = replicate MAX_SOCKETS (zero_socket\<lparr>ps_sockfd := - 1\<rparr>)" "pl_num_sockets pl = 0"
    using pl by (auto simp: fr_packet_list_create_def split: option.splits)
  have off: "SOCK2OFFSET 7 < MAX_SOCKETS" by (rule sock2offset_less)
  have scan: "socket_scan (pl_sockets pl) (- 1) (SOCK2OFFSET 7) MAX_SOCKETS = Some (SOCK2OFFSET 7)"
    using off by (intro socket_scan_first) (simp_all add: socks MAX_SOCKETS_def)
  have af: "ip_af (demo_addr 0 0) = AF_INET" by (simp add: demo_addr_def)
  have add: "fr_packet_list_socket_add pl 7 IPPROTO_UDP (Some (demo_addr 0 0)) 0 5 True (Some (demo_addr 10 1, 5000)) =
    ((set_socket pl (SOCK2OFFSET 7) demo_socket)\<lparr>pl_num_sockets := pl_num_sockets pl + 1\<rparr>, True)"
    using scan socks(2) demo_any af
    by (simp add: fr_packet_list_socket_add_def Let_def demo_socket_def zero_socket_def AF_INET_def AF_UNSPEC_def MAX_SOCKETS_def)
  have d: "demo_list = (set_socket pl (SOCK2OFFSET 7) demo_socket)\<lparr>pl_num_sockets := pl_num_sockets pl + 1\<rparr>"
    unfolding demo_list_def pl option.sel add fst_conv ..
  show sk: "sock demo_list (SOCK2OFFSET 7) = demo_socket" unfolding d using off socks by (simp add: set_socket_def)
  then show "SOCK2OFFSET 7 \<in> live demo_list" using off by (simp add: live_def demo_socket_def)
  show "pl_elems demo_list = []" unfolding d using empty by simp
  show "sock demo_list i = demo_socket" if "i \<in> live demo_list" for i
    using that off unfolding d by (cases "i = SOCK2OFFSET 7") (auto simp: live_def set_socket_def socks)
  have "live pl = {}" by (auto simp: live_def socks)
  then show "pl_reach mem demo_list"
    unfolding d by (intro pl_reach.add [OF pl_reach.create [OF pl] add]) (auto simp: demo_addr_def)
qed

lemma demo_usable: "usable_for IPPROTO_UDP (demo_mem 1) demo_socket" "\<not> alloc_refused (demo_mem 1)"
proof -
  have a: "alloc_request (demo_mem 1) = (demo_mem 1)\<lparr>p_src_ipaddr := zero_ipaddr\<lparr>ip_af := AF_INET\<rparr>\<rparr>"
    by (simp add: alloc_request_def demo_mem_def zero_ipaddr_def AF_UNSPEC_def demo_addr_def)
  have s: "fr_inaddr_any (zero_ipaddr\<lparr>ip_af := AF_INET\<rparr>) = 1"
    by (simp add: fr_inaddr_any_def zero_ipaddr_def s_addr_def le_word_def AF_INET_def)
  show "usable_for IPPROTO_UDP (demo_mem 1) demo_socket"
    unfolding a by (simp add: s socket_usable_def demo_socket_def demo_mem_def demo_addr_def zero_socket_def
        s_addr_def le_word_def)
  show "\<not> alloc_refused (demo_mem 1)"
    unfolding alloc_refused_def a using s demo_any(3)
    by (simp add: demo_mem_def AF_UNSPEC_def) (simp add: demo_addr_def AF_INET_def)
qed

lemma demo_sent_facts:
  obtains m pl i where "demo_sent = (m, pl, Some 5)" "pl_reach m pl" "pl_elems pl = [1]"
    "i \<in> live pl" "sent_by (m 1) (sock pl i)" "ps_proto (sock pl i) = IPPROTO_UDP" "ps_src_any (sock pl i) = 0"
proof -
  note D = demo_list_facts
  have inv: "pl_inv demo_mem demo_list" using pl_reach_inv D(1) .
  have new: "1 \<notin> set (pl_elems demo_list)" using D(2) by simp
  have wf: "length (ip_addr (p_dst_ipaddr (demo_mem 1))) = 16" by (simp add: demo_mem_def demo_addr_def)
  show thesis
  proof (rule id_alloc_cases [OF inv new wf, of "\<lambda>_. 0" True IPPROTO_UDP], goal_cases)
    case 1
    then show ?case using demo_usable D(3,4) by auto
  next
    case (2 m pl i n)
    then have i: "sock demo_list i = demo_socket" using D(5) by simp
    have "pl_reach m pl" using pl_reach.alloc [OF D(1) new wf 2(1)] .
    moreover have "mset (pl_elems pl) = {#1#}" using 2(10) D(2) by simp
    then have "pl_elems pl = [1]" by simp
    moreover have "demo_sent = (m, pl, Some 5)" using 2(1) i by (simp add: demo_sent_def demo_socket_def)
    ultimately show ?case using 2(14-17) i by (intro that) (simp_all add: demo_socket_def zero_socket_def)
  qed
qed

section \<open>Properties\<close>



text \<open>
  C8: An allocation always returns. It succeeds exactly when there is memory, the request is not
  refused and a socket in use will carry it; then the request has the address of such a socket and
  an identifier that no other request of the socket has, and is inserted. Otherwise the list is
  unchanged. Other packets are never written to.
\<close>

theorem id_alloc_exact:
  assumes "pl_inv mem pl" "r \<notin> set (pl_elems pl)" "length (ip_addr (p_dst_ipaddr (mem r))) = 16"
  shows "\<exists>mem' pl' res. fr_packet_list_id_alloc rnd ok mem pl proto r = Some (mem', pl', res) \<and>
    pl_inv mem' pl' \<and> (\<forall>q. q \<noteq> r \<longrightarrow> mem' q = mem q) \<and> (res = None \<longrightarrow> pl' = pl) \<and>
    (res \<noteq> None \<longleftrightarrow> ok \<and> \<not> alloc_refused (mem r) \<and> (\<exists>i \<in> live pl. usable_for proto (mem r) (sock pl i))) \<and>
    (\<forall>ctx. res = Some ctx \<longrightarrow>
      (\<exists>i \<in> live pl. ctx = ps_ctx (sock pl i) \<and> usable_for proto (mem r) (sock pl i) \<and> sent_by (mem' r) (sock pl i) \<and>
        (\<forall>q \<in> carried mem pl i. p_id (mem q) \<noteq> p_id (mem' r)) \<and>
        p_dst_ipaddr (mem' r) = p_dst_ipaddr (mem r) \<and> p_dst_port (mem' r) = p_dst_port (mem r) \<and>
        mset (pl_elems pl') = add_mset r (mset (pl_elems pl)) \<and>
        used_ids (sock pl' i) = insert (nat (p_id (mem' r))) (used_ids (sock pl i))))"
proof (rule id_alloc_cases [OF assms, of rnd ok proto], goal_cases)
  case (1 mem')
  have "pl_inv mem' pl" using 1(2) assms(2) by (intro pl_inv_mem [OF assms(1)]) auto
  with 1 show ?case by (intro exI [of _ mem'] exI [of _ pl] exI [of _ None]) auto
next
  case (2 mem' pl' i n)
  have "used_ids (sock pl i) = (\<lambda>q. nat (p_id (mem q))) ` carried mem pl i"
    using pl_invD(5) [OF assms(1) 2(4)] by (simp add: ids_ok_def)
  then have "\<forall>q \<in> carried mem pl i. p_id (mem q) \<noteq> p_id (mem' r)" using 2(7,8) by (metis image_eqI nat_int)
  then show ?case using 2
    by (intro exI [of _ mem'] exI [of _ pl'] exI [of _ "Some (ps_ctx (sock pl i))"]) auto
qed

theorem id_alloc_exact_witness: "\<exists>m pl. demo_sent = (m, pl, Some 5) \<and> p_sockfd (m 1) = 7 \<and> pl_inv m pl"
proof -
  note D = demo_list_facts
  have inv: "pl_inv demo_mem demo_list" using pl_reach_inv D(1) .
  have new: "1 \<notin> set (pl_elems demo_list)" using D(2) by simp
  have wf: "length (ip_addr (p_dst_ipaddr (demo_mem 1))) = 16" by (simp add: demo_mem_def demo_addr_def)
  have u: "\<exists>i \<in> live demo_list. usable_for IPPROTO_UDP (demo_mem 1) (sock demo_list i)"
    using D(3) demo_usable(1) unfolding D(4) [symmetric] by blast
  from id_alloc_exact [OF inv new wf, of "\<lambda>_. 0" True IPPROTO_UDP] obtain m pl res where
    A: "fr_packet_list_id_alloc (\<lambda>_. 0) True demo_mem demo_list IPPROTO_UDP 1 = Some (m, pl, res)" "pl_inv m pl"
    "res \<noteq> None" "\<forall>ctx. res = Some ctx \<longrightarrow>
      (\<exists>i \<in> live demo_list. ctx = ps_ctx (sock demo_list i) \<and> sent_by (m 1) (sock demo_list i))"
    using u demo_usable(2) by (elim exE conjE) (rule that, blast+)
  then obtain i where "i \<in> live demo_list" "res = Some (ps_ctx (sock demo_list i))" "sent_by (m 1) (sock demo_list i)" by blast
  with D(5) A show ?thesis by (simp add: demo_sent_def sent_by_def demo_socket_def)
qed

text \<open>
  C9: A reply to a request in the list, received on its socket, is matched to this request and
  no other; once the request is freed the same reply matches nothing, and the list is consistent.
\<close>

theorem reply_finds_request:
  assumes "pl_inv mem pl" "r \<in> set (pl_elems pl)" "i \<in> live pl" "sent_by (mem r) (sock pl i)"
    and "answers (mem r) (mem reply) (sock pl i)" "local \<notin> set (pl_elems pl)" "reply \<notin> set (pl_elems pl)"
  shows "snd (fr_packet_list_find_byreply local mem pl reply) = Some r \<and>
    (\<exists>mem' pl'. fr_packet_list_id_free mem pl r True = Some (mem', pl', True) \<and> pl_inv mem' pl' \<and>
       snd (fr_packet_list_find_byreply local mem' pl' reply) = None)"
proof
  show "snd (fr_packet_list_find_byreply local mem pl reply) = Some r"
    using byreply_found [OF assms(1,3) pl_elems_ok [OF assms(1,2)] assms(4-7)] assms(2) by blast
next
  from id_free_ok [OF assms(1,2)] obtain mem' pl' j n ids where
    F: "fr_packet_list_id_free mem pl r True = Some (mem', pl', True)" "pl_inv mem' pl'" "j \<in> live pl"
    "sent_by (mem r) (sock pl j)" "mset (pl_elems pl') = mset (pl_elems pl) - {#r#}" "\<forall>q. q \<noteq> r \<longrightarrow> mem' q = mem q"
    "j \<in> live pl'" "sock pl' j = (sock pl j)\<lparr>ps_num_outgoing := n, ps_id := ids\<rparr>" by blast
  have "i = j" using F(3,4) assms(3,4) pl_invD(3) [OF assms(1)] by (auto simp: socks_ok_def sent_by_def dest: inj_onD)
  have "distinct (pl_elems pl)" using in_order_distinct rb.ordered [OF pl_invD(1) [OF assms(1)]] by blast
  then have e: "set (pl_elems pl') \<subseteq> set (pl_elems pl) - {r}"
    using mset_eq_setD [OF F(5) [folded mset_remove1]] by simp
  have "mem' reply = mem reply" using F(6) assms(2,7) by metis
  then have "sent_by (mem r) (sock pl' j)" "answers (mem r) (mem' reply) (sock pl' j)"
    using F(4,8) assms(5) \<open>i = j\<close> by (simp_all add: sent_by_def answers_def)
  moreover have "local \<notin> set (pl_elems pl')" "reply \<notin> set (pl_elems pl')" using e assms(6,7) by auto
  ultimately have "snd (fr_packet_list_find_byreply local mem' pl' reply) = None"
    using reply_gone [OF assms(1,2) F(2,7) e F(6)] by blast
  with F(1,2) show "\<exists>mem' pl'. fr_packet_list_id_free mem pl r True = Some (mem', pl', True) \<and> pl_inv mem' pl' \<and>
       snd (fr_packet_list_find_byreply local mem' pl' reply) = None" by blast
qed

theorem reply_finds_request_witness:
  "\<exists>m pl. demo_sent = (m, pl, Some 5) \<and>
     snd (fr_packet_list_find_byreply 3 (m(2 := fr_request_from_reply (m 1) (m 1))) pl 2) = Some 1"
proof (rule demo_sent_facts)
  fix m pl i
  assume d: "demo_sent = (m, pl, Some 5)" "pl_reach m pl" "pl_elems pl = [1]" and i: "i \<in> live pl"
    and s: "sent_by (m 1) (sock pl i)" "ps_proto (sock pl i) = IPPROTO_UDP" "ps_src_any (sock pl i) = 0"
  let ?m = "m(2 := fr_request_from_reply (m 1) (m 1))"
  have inv: "pl_inv ?m pl" using d(3) by (intro pl_reach_inv pl_reach.store [OF d(2)]) simp
  have a: "answers (?m 1) (?m 2) (sock pl i)" using s
    by (simp add: answers_def fr_request_from_reply_def IPPROTO_TCP_def IPPROTO_UDP_def)
  have "snd (fr_packet_list_find_byreply 3 ?m pl 2) = Some 1"
    using conjunct1 [OF reply_finds_request [OF inv _ i _ a, of 3]] d(3) s(1) by (simp del: fun_upd_apply) simp
  with d(1) show ?thesis by blast
qed

end
