(* ===== verification/Heap.thy ===== *)
theory Heap
  imports Prelude
begin

text \<open>
  The binary heap of \<^verbatim>\<open>lib/heap.c\<close>: an array \<open>p\<close> of element pointers with the children of
  \<open>i\<close> at \<open>2i+1\<close> and \<open>2i+2\<close>. When \<open>offset\<close> is not 0 every element carries, at that offset of
  its own memory, the index of its array cell; \<open>hp_pos\<close> is that memory. The comparison
  callback reads the elements, so it is an argument of the operations that call it. The
  results of \<open>malloc\<close> and the indeterminate cells of a fresh array are arguments too. The
  NULL-heap guards of the source are left to the callers' types: a heap is the struct.
\<close>

section \<open>State and operations\<close>

record 'e heap =
  hp_size :: nat
  hp_num :: nat
  hp_offset :: nat
  hp_p :: "nat \<Rightarrow> 'e"
  hp_pos :: "'e \<Rightarrow> int"

definition HEAP_PARENT :: "nat \<Rightarrow> nat" where
  "HEAP_PARENT x = (x - 1) div 2"

definition HEAP_LEFT :: "nat \<Rightarrow> nat" where
  "HEAP_LEFT x = 2 * x + 1"

definition HEAP_SWAP :: "'e heap \<Rightarrow> nat \<Rightarrow> nat \<Rightarrow> 'e heap" where
  "HEAP_SWAP hp a b = hp\<lparr>hp_p := (hp_p hp)(a := hp_p hp b, b := hp_p hp a)\<rparr>"

definition SET_OFFSET :: "'e heap \<Rightarrow> nat \<Rightarrow> 'e heap" where
  "SET_OFFSET hp node =
     (if hp_offset hp \<noteq> 0 then hp\<lparr>hp_pos := (hp_pos hp)(hp_p hp node := int node)\<rparr> else hp)"

definition RESET_OFFSET :: "'e heap \<Rightarrow> nat \<Rightarrow> 'e heap" where
  "RESET_OFFSET hp node =
     (if hp_offset hp \<noteq> 0 then hp\<lparr>hp_pos := (hp_pos hp)(hp_p hp node := -1)\<rparr> else hp)"

definition fr_heap_create ::
  "bool \<Rightarrow> bool \<Rightarrow> bool \<Rightarrow> nat \<Rightarrow> (nat \<Rightarrow> 'e) \<Rightarrow> ('e \<Rightarrow> int) \<Rightarrow> 'e heap option" where
  "fr_heap_create cmp malloc_hp malloc_p offset junk pos =
     (if \<not> cmp then None
      else if \<not> malloc_hp then None
      else if \<not> malloc_p then None
      else Some \<lparr>hp_size = 2048, hp_num = 0, hp_offset = offset, hp_p = junk, hp_pos = pos\<rparr>)"

function fr_heap_bubble :: "'e cmp \<Rightarrow> 'e heap \<Rightarrow> nat \<Rightarrow> 'e heap" where
  "fr_heap_bubble cmp hp child =
     (if child > 0 then
        let parent = HEAP_PARENT child in
        if cmp (hp_p hp parent) (hp_p hp child) < 0 then SET_OFFSET hp child
        else fr_heap_bubble cmp (SET_OFFSET (HEAP_SWAP hp child parent) child) parent
      else SET_OFFSET hp child)"
  by pat_completeness auto
termination
  by (relation "measure (\<lambda>(cmp, hp, child). child)") (auto simp: HEAP_PARENT_def)

declare fr_heap_bubble.simps [simp del]

definition fr_heap_insert ::
  "'e cmp \<Rightarrow> bool \<Rightarrow> (nat \<Rightarrow> 'e) \<Rightarrow> 'e heap \<Rightarrow> 'e \<Rightarrow> 'e heap \<times> int" where
  "fr_heap_insert cmp malloc_ok junk hp data =
     (let child = hp_num hp in
      if child = hp_size hp \<and> \<not> malloc_ok then (hp, 0)
      else
        let hp1 = (if child = hp_size hp
                   then hp\<lparr>hp_p := (\<lambda>i. if i < hp_size hp then hp_p hp i else junk i),
                          hp_size := 2 * hp_size hp\<rparr>
                   else hp);
            hp2 = hp1\<lparr>hp_p := (hp_p hp1)(child := data), hp_num := Suc (hp_num hp1)\<rparr>
        in (fr_heap_bubble cmp hp2 child, 1))"

text \<open>
  The loop of \<^verbatim>\<open>fr_heap_extract\<close>: move the smaller child into the hole \<open>parent\<close> until the hole
  is a leaf; the result is the heap and the final hole.
\<close>

function heap_sift :: "'e cmp \<Rightarrow> 'e heap \<Rightarrow> nat \<Rightarrow> nat \<Rightarrow> 'e heap \<times> nat" where
  "heap_sift cmp hp maxi parent =
     (let child = HEAP_LEFT parent in
      if child \<le> maxi then
        let child' = (if child \<noteq> maxi \<and> cmp (hp_p hp (child + 1)) (hp_p hp child) < 0
                      then child + 1 else child);
            hp' = SET_OFFSET (hp\<lparr>hp_p := (hp_p hp)(parent := hp_p hp child')\<rparr>) parent
        in heap_sift cmp hp' maxi child'
      else (hp, parent))"
  by pat_completeness auto
termination
  by (relation "measure (\<lambda>(cmp, hp, maxi, parent). Suc maxi - parent)")
     (auto simp: HEAP_LEFT_def)

declare heap_sift.simps [simp del]

definition heap_remove_at :: "'e cmp \<Rightarrow> 'e heap \<Rightarrow> nat \<Rightarrow> 'e heap" where
  "heap_remove_at cmp hp parent =
     (let maxi = hp_num hp - 1;
          (hp1, hole) = heap_sift cmp (RESET_OFFSET hp parent) maxi parent;
          hp2 = hp1\<lparr>hp_num := hp_num hp1 - 1\<rparr>
      in if hole \<noteq> maxi
         then fr_heap_bubble cmp (hp2\<lparr>hp_p := (hp_p hp2)(hole := hp_p hp2 maxi)\<rparr>) hole
         else hp2)"

definition fr_heap_extract :: "'e cmp \<Rightarrow> 'e heap \<Rightarrow> 'e option \<Rightarrow> 'e heap \<times> int" where
  "fr_heap_extract cmp hp data =
     (if hp_num hp = 0 then (hp, 0)
      else case data of
        None \<Rightarrow> (heap_remove_at cmp hp 0, 1)
      | Some x \<Rightarrow>
          if hp_offset hp = 0 then (hp, 0)
          else let parent = hp_pos hp x in
            if parent < 0 \<or> parent \<ge> int (hp_num hp) then (hp, 0)
            else (heap_remove_at cmp hp (nat parent), 1))"

definition fr_heap_peek :: "'e heap \<Rightarrow> 'e option" where
  "fr_heap_peek hp = (if hp_num hp = 0 then None else Some (hp_p hp 0))"

definition fr_heap_num_elements :: "'e heap \<Rightarrow> nat" where
  "fr_heap_num_elements hp = hp_num hp"

section \<open>Comparison callbacks and the heap invariant\<close>

definition cmp_order :: "'e cmp \<Rightarrow> bool" where
  "cmp_order cmp \<longleftrightarrow>
     (\<forall>x y. cmp x y < 0 \<longrightarrow> \<not> cmp y x < 0) \<and>
     (\<forall>x y z. cmp x z < 0 \<longrightarrow> cmp x y < 0 \<or> cmp y z < 0)"

definition not_after :: "'e cmp \<Rightarrow> 'e \<Rightarrow> 'e \<Rightarrow> bool" where
  "not_after cmp a b \<longleftrightarrow> \<not> cmp b a < 0"

lemma not_after_refl: "cmp_order cmp \<Longrightarrow> not_after cmp a a"
  by (auto simp: cmp_order_def not_after_def)

lemma not_after_trans:
  "cmp_order cmp \<Longrightarrow> not_after cmp a b \<Longrightarrow> not_after cmp b c \<Longrightarrow> not_after cmp a c"
  unfolding cmp_order_def not_after_def by blast

lemma not_after_less: "cmp_order cmp \<Longrightarrow> cmp a b < 0 \<Longrightarrow> not_after cmp a b"
  by (auto simp: cmp_order_def not_after_def)

lemma not_after_swap: "\<not> cmp a b < 0 \<Longrightarrow> not_after cmp b a"
  by (auto simp: not_after_def)

definition heap_order :: "'e cmp \<Rightarrow> (nat \<Rightarrow> 'e) \<Rightarrow> nat \<Rightarrow> bool" where
  "heap_order cmp p n \<longleftrightarrow> (\<forall>i. 0 < i \<and> i < n \<longrightarrow> not_after cmp (p (HEAP_PARENT i)) (p i))"

definition heap_index :: "'e heap \<Rightarrow> bool" where
  "heap_index hp \<longleftrightarrow> (\<forall>i < hp_num hp. hp_pos hp (hp_p hp i) = int i)"

definition heap_elems :: "'e heap \<Rightarrow> 'e multiset" where
  "heap_elems hp = mset (cells (hp_p hp) (hp_num hp))"

definition heap_inv :: "'e cmp \<Rightarrow> 'e heap \<Rightarrow> bool" where
  "heap_inv cmp hp \<longleftrightarrow>
     heap_order cmp (hp_p hp) (hp_num hp) \<and> hp_num hp \<le> hp_size hp \<and> 0 < hp_size hp \<and>
     (hp_offset hp \<noteq> 0 \<longrightarrow> heap_index hp)"

lemma heap_index_inj: "heap_index hp \<Longrightarrow> inj_on (hp_p hp) {..<hp_num hp}"
  by (rule inj_onI) (metis heap_index_def lessThan_iff of_nat_eq_iff)

lemma parent_less [simp]: "0 < i \<Longrightarrow> HEAP_PARENT i < i"
  by (auto simp: HEAP_PARENT_def)

lemma parent_le: "HEAP_PARENT i \<le> i"
  by (simp add: HEAP_PARENT_def)

lemma parent_eq_iff:
  "0 < i \<Longrightarrow> HEAP_PARENT i = j \<longleftrightarrow> i = HEAP_LEFT j \<or> i = Suc (HEAP_LEFT j)"
  by (auto simp: HEAP_PARENT_def HEAP_LEFT_def)

lemma offset_simps [simp]:
  "hp_p (SET_OFFSET hp i) = hp_p hp" "hp_p (RESET_OFFSET hp i) = hp_p hp"
  "hp_num (SET_OFFSET hp i) = hp_num hp" "hp_num (RESET_OFFSET hp i) = hp_num hp"
  "hp_size (SET_OFFSET hp i) = hp_size hp" "hp_size (RESET_OFFSET hp i) = hp_size hp"
  "hp_offset (SET_OFFSET hp i) = hp_offset hp" "hp_offset (RESET_OFFSET hp i) = hp_offset hp"
  "hp_offset hp \<noteq> 0 \<Longrightarrow> hp_pos (SET_OFFSET hp i) = (hp_pos hp)(hp_p hp i := int i)"
  "hp_offset hp \<noteq> 0 \<Longrightarrow> hp_pos (RESET_OFFSET hp i) = (hp_pos hp)(hp_p hp i := -1)"
  by (auto simp: SET_OFFSET_def RESET_OFFSET_def)

lemma swap_simps [simp]:
  "hp_p (HEAP_SWAP hp i j) = (hp_p hp)(i := hp_p hp j, j := hp_p hp i)"
  "hp_num (HEAP_SWAP hp i j) = hp_num hp" "hp_size (HEAP_SWAP hp i j) = hp_size hp"
  "hp_offset (HEAP_SWAP hp i j) = hp_offset hp" "hp_pos (HEAP_SWAP hp i j) = hp_pos hp"
  by (auto simp: HEAP_SWAP_def)

section \<open>Bubbling up\<close>

text \<open>
  Before bubbling from \<open>child\<close> the order may fail only between \<open>child\<close> and its parent, and
  \<open>child\<close>'s children are already in order with that parent.
\<close>

definition bubble_pre :: "'e cmp \<Rightarrow> (nat \<Rightarrow> 'e) \<Rightarrow> nat \<Rightarrow> nat \<Rightarrow> bool" where
  "bubble_pre cmp p n child \<longleftrightarrow>
     (\<forall>i. 0 < i \<and> i < n \<and> i \<noteq> child \<longrightarrow> not_after cmp (p (HEAP_PARENT i)) (p i)) \<and>
     (\<forall>i. 0 < i \<and> i < n \<and> HEAP_PARENT i = child \<and> 0 < child \<longrightarrow>
        not_after cmp (p (HEAP_PARENT child)) (p i))"

lemma bubble_pre_swap:
  assumes ord: "cmp_order cmp" and pre: "bubble_pre cmp p n child" and c: "0 < child" "child < n"
    and ge: "\<not> cmp (p (HEAP_PARENT child)) (p child) < 0"
  shows "bubble_pre cmp (p(child := p (HEAP_PARENT child), HEAP_PARENT child := p child))
           n (HEAP_PARENT child)"
proof -
  let ?q = "HEAP_PARENT child"
  let ?p = "p(child := p ?q, ?q := p child)"
  have q: "?q < child" using c by simp
  have le: "not_after cmp (p child) (p ?q)" using ge by (rule not_after_swap)
  have old: "not_after cmp (p (HEAP_PARENT i)) (p i)" if "0 < i" "i < n" "i \<noteq> child" for i
    using pre that by (auto simp: bubble_pre_def)
  have kids: "not_after cmp (p ?q) (p i)" if "0 < i" "i < n" "HEAP_PARENT i = child" for i
    using pre that c by (auto simp: bubble_pre_def)
  have one: "not_after cmp (?p (HEAP_PARENT i)) (?p i)" if i: "0 < i" "i < n" "i \<noteq> ?q" for i
  proof (cases "i = child")
    case True
    then show ?thesis using le q by simp
  next
    case False
    consider "HEAP_PARENT i = child" | "HEAP_PARENT i = ?q" | "HEAP_PARENT i \<noteq> child" "HEAP_PARENT i \<noteq> ?q"
      by blast
    then show ?thesis
    proof cases
      case 1
      with kids [OF i(1,2)] False i(3) q show ?thesis by simp
    next
      case 2
      with old [OF i(1,2) False] le False i(3) q show ?thesis
        by (auto intro: not_after_trans [OF ord])
    next
      case 3
      with old [OF i(1,2) False] False i(3) show ?thesis by simp
    qed
  qed
  have two: "not_after cmp (?p (HEAP_PARENT ?q)) (?p i)"
    if i: "0 < i" "i < n" "HEAP_PARENT i = ?q" "0 < ?q" for i
  proof -
    have qq: "HEAP_PARENT ?q < ?q" using i by simp
    then have up: "not_after cmp (p (HEAP_PARENT ?q)) (p ?q)"
      using old [of ?q] i q c by auto
    have "i \<noteq> ?q" using i by (metis less_irrefl parent_less)
    then show ?thesis
      using up qq q old [OF i(1,2)] i(3)
      by (cases "i = child") (auto intro: not_after_trans [OF ord])
  qed
  show ?thesis using one two unfolding bubble_pre_def by blast
qed

lemma bubble_frame [simp]:
  "hp_num (fr_heap_bubble cmp hp child) = hp_num hp"
  "hp_size (fr_heap_bubble cmp hp child) = hp_size hp"
  "hp_offset (fr_heap_bubble cmp hp child) = hp_offset hp"
  by (induction cmp hp child rule: fr_heap_bubble.induct)
     (subst fr_heap_bubble.simps, simp add: Let_def)+

lemma bubble_order:
  assumes "cmp_order cmp" "child < hp_num hp" "bubble_pre cmp (hp_p hp) (hp_num hp) child"
  shows "heap_order cmp (hp_p (fr_heap_bubble cmp hp child)) (hp_num hp) \<and>
         heap_elems (fr_heap_bubble cmp hp child) = heap_elems hp"
  using assms
proof (induction cmp hp child rule: fr_heap_bubble.induct)
  case (1 cmp hp child)
  let ?q = "HEAP_PARENT child"
  show ?case
  proof (cases "0 < child \<and> \<not> cmp (hp_p hp ?q) (hp_p hp child) < 0")
    case True
    let ?hp = "SET_OFFSET (HEAP_SWAP hp child ?q) child"
    have "?q < child" using True by simp
    then have "?q < hp_num hp" using "1.prems"(2) by linarith
    moreover have "heap_elems ?hp = heap_elems hp"
      using \<open>?q < hp_num hp\<close> "1.prems"(2) by (simp add: heap_elems_def mset_cells_swap)
    moreover have "heap_order cmp (hp_p (fr_heap_bubble cmp ?hp ?q)) (hp_num ?hp) \<and>
         heap_elems (fr_heap_bubble cmp ?hp ?q) = heap_elems ?hp"
      using True \<open>?q < hp_num hp\<close> bubble_pre_swap [OF "1.prems"(1,3) _ "1.prems"(2)] "1.prems"(1)
      by (intro "1.IH") (auto simp del: fun_upd_apply)
    ultimately show ?thesis
      using True by (simp add: fr_heap_bubble.simps [of cmp hp child] Let_def)
  next
    case False
    then have "heap_order cmp (hp_p hp) (hp_num hp)"
      using "1.prems" not_after_less [OF "1.prems"(1)]
      unfolding heap_order_def bubble_pre_def by (metis gr0I)
    with False show ?thesis
      by (auto simp: fr_heap_bubble.simps [of cmp hp child] Let_def heap_elems_def)
  qed
qed

lemma bubble_index:
  assumes "hp_offset hp \<noteq> 0" "child < hp_num hp" "inj_on (hp_p hp) {..<hp_num hp}"
    and "\<And>i. i < hp_num hp \<Longrightarrow> i \<noteq> child \<Longrightarrow> hp_pos hp (hp_p hp i) = int i"
  shows "heap_index (fr_heap_bubble cmp hp child) \<and>
         (\<forall>x. x \<notin> set_mset (heap_elems hp) \<longrightarrow> hp_pos (fr_heap_bubble cmp hp child) x = hp_pos hp x)"
  using assms
proof (induction cmp hp child rule: fr_heap_bubble.induct)
  case (1 cmp hp child)
  let ?q = "HEAP_PARENT child"
  have eq: "hp_p hp i = hp_p hp j \<longleftrightarrow> i = j" if "i < hp_num hp" "j < hp_num hp" for i j
    using "1.prems"(3) that by (auto simp: inj_on_eq_iff)
  show ?case
  proof (cases "0 < child \<and> \<not> cmp (hp_p hp ?q) (hp_p hp child) < 0")
    case True
    let ?hp = "SET_OFFSET (HEAP_SWAP hp child ?q) child"
    have q: "?q < child" using True by simp
    with "1.prems"(2) have q: "?q < child" "?q < hp_num hp" by auto
    have inj: "inj_on (hp_p ?hp) {..<hp_num hp}"
      using eq q "1.prems"(2) by (auto simp: inj_on_def)
    have pos: "hp_pos ?hp (hp_p ?hp i) = int i" if "i < hp_num ?hp" "i \<noteq> ?q" for i
      using that q "1.prems" eq by auto
    have elems: "heap_elems ?hp = heap_elems hp"
      using q "1.prems"(2) by (simp add: heap_elems_def mset_cells_swap)
    have "heap_index (fr_heap_bubble cmp ?hp ?q) \<and>
         (\<forall>x. x \<notin> set_mset (heap_elems ?hp) \<longrightarrow> hp_pos (fr_heap_bubble cmp ?hp ?q) x = hp_pos ?hp x)"
      using True q inj pos "1.prems"(1) by (intro "1.IH") (auto simp del: fun_upd_apply)
    moreover have "hp_pos ?hp x = hp_pos hp x" if "x \<notin> set_mset (heap_elems hp)" for x
      using that q "1.prems"(1) by (auto simp: heap_elems_def set_cells)
    ultimately show ?thesis
      using True elems by (simp add: fr_heap_bubble.simps [of cmp hp child] Let_def)
  next
    case False
    then have "fr_heap_bubble cmp hp child = SET_OFFSET hp child"
      by (auto simp: fr_heap_bubble.simps [of cmp hp child] Let_def)
    then show ?thesis
      using "1.prems" eq by (auto simp: heap_index_def heap_elems_def set_cells)
  qed
qed

section \<open>Sifting the hole down\<close>

text \<open>
  While the hole moves down, the order holds between all cells other than the hole, and the
  hole's children are in order with the hole's parent.
\<close>

definition sift_pre :: "'e cmp \<Rightarrow> (nat \<Rightarrow> 'e) \<Rightarrow> nat \<Rightarrow> nat \<Rightarrow> bool" where
  "sift_pre cmp p n h \<longleftrightarrow>
     (\<forall>i. 0 < i \<and> i < n \<and> i \<noteq> h \<and> HEAP_PARENT i \<noteq> h \<longrightarrow>
        not_after cmp (p (HEAP_PARENT i)) (p i)) \<and>
     (\<forall>i. 0 < i \<and> i < n \<and> HEAP_PARENT i = h \<and> 0 < h \<longrightarrow>
        not_after cmp (p (HEAP_PARENT h)) (p i))"

definition smaller_child :: "'e cmp \<Rightarrow> (nat \<Rightarrow> 'e) \<Rightarrow> nat \<Rightarrow> nat \<Rightarrow> nat" where
  "smaller_child cmp p maxi h =
     (if HEAP_LEFT h \<noteq> maxi \<and> cmp (p (HEAP_LEFT h + 1)) (p (HEAP_LEFT h)) < 0
      then HEAP_LEFT h + 1 else HEAP_LEFT h)"

lemma smaller_child_props:
  fixes cmp :: "'e cmp" and p :: "nat \<Rightarrow> 'e"
  assumes ord: "cmp_order cmp" and le: "HEAP_LEFT h < n"
  defines "c \<equiv> smaller_child cmp p (n - 1) h"
  shows "h < c" "c < n" "HEAP_PARENT c = h"
    and "\<And>i. 0 < i \<Longrightarrow> i < n \<Longrightarrow> HEAP_PARENT i = h \<Longrightarrow> not_after cmp (p c) (p i)"
proof -
  show "h < c" "c < n" "HEAP_PARENT c = h"
    using le by (auto simp: c_def smaller_child_def HEAP_LEFT_def HEAP_PARENT_def)
  fix i assume "0 < i" "i < n" "HEAP_PARENT i = h"
  then show "not_after cmp (p c) (p i)"
    using le not_after_refl [OF ord] not_after_less [OF ord]
    by (auto simp: parent_eq_iff c_def smaller_child_def not_after_swap)
qed

lemma sift_pre_step:
  fixes cmp :: "'e cmp" and p :: "nat \<Rightarrow> 'e"
  assumes ord: "cmp_order cmp" and pre: "sift_pre cmp p n h" and le: "HEAP_LEFT h < n"
  defines "c \<equiv> smaller_child cmp p (n - 1) h"
  shows "sift_pre cmp (p(h := p c)) n c"
proof -
  note c = smaller_child_props [OF ord le, where p = p, folded c_def]
  have old: "not_after cmp (p (HEAP_PARENT i)) (p i)"
    if "0 < i" "i < n" "i \<noteq> h" "HEAP_PARENT i \<noteq> h" for i
    using pre that by (auto simp: sift_pre_def)
  have up: "not_after cmp (p (HEAP_PARENT h)) (p c)" if "0 < h"
    using pre that c by (auto simp: sift_pre_def)
  let ?p = "p(h := p c)"
  have "not_after cmp (?p (HEAP_PARENT i)) (?p i)"
    if i: "0 < i" "i < n" "i \<noteq> c" "HEAP_PARENT i \<noteq> c" for i
  proof (cases "i = h")
    case True
    then have "HEAP_PARENT i \<noteq> h" using i(1) by (metis less_irrefl parent_less)
    with True up i(1) show ?thesis by simp
  next
    case False
    then show ?thesis
      using old [OF i(1,2)] c(4) [OF i(1,2)] by (cases "HEAP_PARENT i = h") auto
  qed
  moreover have "not_after cmp (?p (HEAP_PARENT c)) (?p i)"
    if i: "0 < i" "i < n" "HEAP_PARENT i = c" for i
  proof -
    have "c \<le> i" using i(1,3) by (metis parent_le)
    then show ?thesis using old [OF i(1,2)] i(3) c(1,3) by auto
  qed
  ultimately show ?thesis unfolding sift_pre_def by blast
qed

definition hole_index :: "'e heap \<Rightarrow> nat \<Rightarrow> bool" where
  "hole_index hp h \<longleftrightarrow> (\<forall>i < hp_num hp. i \<noteq> h \<longrightarrow> hp_pos hp (hp_p hp i) = int i)"

lemma heap_sift_step:
  fixes cmp :: "'e cmp" and hp :: "'e heap"
  assumes "HEAP_LEFT h < hp_num hp"
  defines "c \<equiv> smaller_child cmp (hp_p hp) (hp_num hp - 1) h"
  shows "heap_sift cmp hp (hp_num hp - 1) h =
     heap_sift cmp (SET_OFFSET (hp\<lparr>hp_p := (hp_p hp)(h := hp_p hp c)\<rparr>) h) (hp_num hp - 1) c"
  using assms by (subst heap_sift.simps) (auto simp: Let_def smaller_child_def)

lemma heap_sift_correct:
  assumes "cmp_order cmp" "h < hp_num hp" "sift_pre cmp (hp_p hp) (hp_num hp) h"
    and "heap_sift cmp hp (hp_num hp - 1) h = (hp', h')"
  shows "hp_num hp' = hp_num hp \<and> hp_size hp' = hp_size hp \<and> hp_offset hp' = hp_offset hp \<and>
     h' < hp_num hp \<and> hp_num hp \<le> HEAP_LEFT h' \<and> sift_pre cmp (hp_p hp') (hp_num hp) h' \<and>
     mset (cells (hp_p hp') (hp_num hp)) - {#hp_p hp' h'#} =
       mset (cells (hp_p hp) (hp_num hp)) - {#hp_p hp h#} \<and>
     (hp_offset hp \<noteq> 0 \<longrightarrow> hole_index hp h \<longrightarrow>
        hole_index hp' h' \<and>
        (\<forall>x. x \<notin> hp_p hp ` ({..<hp_num hp} - {h}) \<longrightarrow> hp_pos hp' x = hp_pos hp x))"
  using assms
proof (induction "hp_num hp - h" arbitrary: hp h rule: less_induct)
  case less
  let ?n = "hp_num hp" and ?p = "hp_p hp"
  show ?case
  proof (cases "HEAP_LEFT h < ?n")
    case False
    moreover from this have "\<not> HEAP_LEFT h \<le> ?n - 1" using less.prems(2) by linarith
    ultimately have "hp' = hp" "h' = h"
      using less.prems(4) by (simp_all add: heap_sift.simps [of cmp hp])
    with False less.prems show ?thesis by auto
  next
    case True
    define c where "c = smaller_child cmp ?p (?n - 1) h"
    note c = smaller_child_props [OF less.prems(1) True, where p = ?p, folded c_def]
    let ?hp = "SET_OFFSET (hp\<lparr>hp_p := ?p(h := ?p c)\<rparr>) h"
    have run: "heap_sift cmp ?hp (?n - 1) c = (hp', h')"
      using less.prems(4) heap_sift_step [OF True, where cmp = cmp] by (simp add: c_def)
    have IH: "hp_num hp' = ?n \<and> hp_size hp' = hp_size hp \<and> hp_offset hp' = hp_offset hp \<and>
       h' < ?n \<and> ?n \<le> HEAP_LEFT h' \<and> sift_pre cmp (hp_p hp') ?n h' \<and>
       mset (cells (hp_p hp') ?n) - {#hp_p hp' h'#} = mset (cells (hp_p ?hp) ?n) - {#hp_p ?hp c#} \<and>
       (hp_offset hp \<noteq> 0 \<longrightarrow> hole_index ?hp c \<longrightarrow> hole_index hp' h' \<and>
        (\<forall>x. x \<notin> hp_p ?hp ` ({..<?n} - {c}) \<longrightarrow> hp_pos hp' x = hp_pos ?hp x))"
      using less.hyps [of ?hp c] less.prems(1,2) run c(1,2)
        sift_pre_step [OF less.prems(1,3) True, folded c_def]
      by (auto simp del: fun_upd_apply)
    have elems: "mset (cells (hp_p ?hp) ?n) - {#hp_p ?hp c#} = mset (cells ?p ?n) - {#?p h#}"
      using c(1) less.prems(2) by (simp add: mset_cells_upd)
    have img: "hp_p ?hp ` ({..<?n} - {c}) = ?p ` ({..<?n} - {h})"
      using c(1,2) less.prems(2) by (auto simp: image_iff split: if_splits)
    have idx: "hole_index ?hp c" if "hp_offset hp \<noteq> 0" "hole_index hp h"
      using that c(1,2) less.prems(2) unfolding hole_index_def
      by (auto simp: ) (metis less_irrefl of_nat_eq_iff)
    have "hp_pos ?hp x = hp_pos hp x"
      if "hp_offset hp \<noteq> 0" "x \<notin> ?p ` ({..<?n} - {h})" for x
      using that c(1,2) by auto
    with IH elems img idx show ?thesis by (auto simp del: fun_upd_apply)
  qed
qed

section \<open>Correctness of the operations\<close>


lemma sift_pre_heap:
  assumes "cmp_order cmp" "heap_order cmp p n" "h < n"
  shows "sift_pre cmp p n h"
  unfolding sift_pre_def
proof (intro conjI allI impI)
  fix i assume i: "0 < i \<and> i < n \<and> HEAP_PARENT i = h \<and> 0 < h"
  then have "not_after cmp (p (HEAP_PARENT h)) (p h)" "not_after cmp (p h) (p i)"
    using assms by (auto simp: heap_order_def)
  then show "not_after cmp (p (HEAP_PARENT h)) (p i)" by (rule not_after_trans [OF assms(1)])
qed (use assms in \<open>auto simp: heap_order_def\<close>)

lemma bubble_pre_hole:
  assumes "sift_pre cmp p n k" "k < n - 1" "n \<le> HEAP_LEFT k"
  shows "bubble_pre cmp (p(k := p (n - 1))) (n - 1) k"
proof -
  have no_kid: "HEAP_PARENT i \<noteq> k" if "0 < i" "i < n" for i
    using that assms(3) parent_eq_iff [OF that(1), of k] by linarith
  have "not_after cmp (p (HEAP_PARENT i)) (p i)" if "0 < i" "i < n" "i \<noteq> k" for i
    using assms(1) no_kid [OF that(1,2)] that by (auto simp: sift_pre_def)
  moreover have "HEAP_PARENT i \<noteq> k \<and> i < n" if "0 < i" "i < n - 1" for i
    using no_kid [of i] that by linarith
  ultimately show ?thesis unfolding bubble_pre_def by (metis fun_upd_apply)
qed

lemma heap_order_hole:
  assumes "sift_pre cmp p n (n - 1)"
  shows "heap_order cmp p (n - 1)"
proof -
  have "HEAP_PARENT i \<noteq> n - 1" if "i < n - 1" for i using that parent_le [of i] by linarith
  then show ?thesis using assms by (auto simp: heap_order_def sift_pre_def)
qed

lemma heap_remove_at_order:
  assumes ord: "cmp_order cmp" and inv: "heap_inv cmp hp" and h: "h < hp_num hp"
  defines "hp' \<equiv> heap_remove_at cmp hp h"
  shows "heap_order cmp (hp_p hp') (hp_num hp') \<and> hp_num hp' = hp_num hp - 1 \<and>
     hp_size hp' = hp_size hp \<and> hp_offset hp' = hp_offset hp \<and>
     heap_elems hp' = heap_elems hp - {#hp_p hp h#}"
proof -
  let ?n = "hp_num hp" and ?hp = "RESET_OFFSET hp h"
  obtain hp1 k where run: "heap_sift cmp ?hp (hp_num ?hp - 1) h = (hp1, k)" by force
  have "sift_pre cmp (hp_p ?hp) (hp_num ?hp) h"
    using sift_pre_heap [OF ord _ h] inv by (simp add: heap_inv_def)
  note sift = heap_sift_correct [OF ord _ this run, simplified, OF h]
  show ?thesis
  proof (cases "k = ?n - 1")
    case True
    then have "hp' = hp1\<lparr>hp_num := ?n - 1\<rparr>"
      using run sift by (simp add: hp'_def heap_remove_at_def Let_def)
    with True sift h show ?thesis
      using heap_order_hole [of cmp "hp_p hp1" ?n] mset_cells_pred [of ?n "hp_p hp1"]
      by (simp add: heap_elems_def)
  next
    case False
    then have k: "k < ?n - 1" using sift by linarith
    let ?hp2 = "hp1\<lparr>hp_num := ?n - 1, hp_p := (hp_p hp1)(k := hp_p hp1 (?n - 1))\<rparr>"
    have eq: "hp' = fr_heap_bubble cmp ?hp2 k"
      using run sift k by (simp add: hp'_def heap_remove_at_def Let_def)
    have "heap_elems ?hp2 = heap_elems hp - {#hp_p hp h#}"
      using sift mset_cells_fill [OF k, of "hp_p hp1"] by (simp add: heap_elems_def del: One_nat_def)
    moreover have "bubble_pre cmp (hp_p ?hp2) (hp_num ?hp2) k"
      using bubble_pre_hole [of cmp "hp_p hp1" ?n k] sift k by simp
    ultimately show ?thesis
      using bubble_order [OF ord, of k ?hp2] k sift unfolding eq by simp
  qed
qed

lemma heap_remove_at_index:
  assumes ord: "cmp_order cmp" and inv: "heap_inv cmp hp" and h: "h < hp_num hp"
    and off: "hp_offset hp \<noteq> 0"
  defines "hp' \<equiv> heap_remove_at cmp hp h"
  shows "heap_index hp' \<and> hp_pos hp' (hp_p hp h) = -1 \<and>
     (\<forall>x. x \<notin># heap_elems hp \<longrightarrow> hp_pos hp' x = hp_pos hp x)"
proof -
  let ?n = "hp_num hp" and ?hp = "RESET_OFFSET hp h" and ?x = "hp_p hp h"
  have idx: "heap_index hp" using inv off by (simp add: heap_inv_def)
  have eq: "hp_p hp i = ?x \<longleftrightarrow> i = h" if "i < ?n" for i
    using heap_index_inj [OF idx] that h by (auto simp: inj_on_eq_iff)
  have xout: "?x \<notin> hp_p hp ` ({..<?n} - {h})"
  proof
    assume "?x \<in> hp_p hp ` ({..<?n} - {h})"
    then obtain i where "?x = hp_p hp i" "i < ?n" "i \<noteq> h" by blast
    with eq [of i] show False by simp
  qed
  obtain hp1 k where run: "heap_sift cmp ?hp (hp_num ?hp - 1) h = (hp1, k)" by force
  have pre: "sift_pre cmp (hp_p ?hp) (hp_num ?hp) h"
    using sift_pre_heap [OF ord _ h] inv by (simp add: heap_inv_def)
  have hole: "hole_index ?hp h"
    using idx off eq by (auto simp: hole_index_def heap_index_def)
  note sift = heap_sift_correct [OF ord _ pre run, simplified, OF h]
  have hole1: "hole_index hp1 k" and n1: "hp_num hp1 = ?n" "hp_offset hp1 \<noteq> 0" and k: "k < ?n"
    and frame: "\<And>x. x \<notin> hp_p hp ` ({..<?n} - {h}) \<Longrightarrow> hp_pos hp1 x = hp_pos ?hp x"
    using sift hole off by auto
  have inj1: "inj_on (hp_p hp1) ({..<?n} - {k})"
    by (rule inj_onI) (metis DiffE hole1 n1(1) hole_index_def insertCI lessThan_iff of_nat_eq_iff)
  have x1: "hp_pos hp1 ?x = -1" using frame [OF xout] off by simp
  have xout1: "hp_p hp1 i \<noteq> ?x" if "i < ?n" "i \<noteq> k" for i
    using hole1 that x1 n1(1) by (metis hole_index_def of_nat_0_le_iff not_one_le_zero neg_0_le_iff_le)
  have old: "hp_pos hp1 x = hp_pos hp x" if "x \<notin># heap_elems hp" for x
  proof -
    have "x \<notin> hp_p hp ` ({..<?n} - {h})" "x \<noteq> ?x"
      using that h by (auto simp: heap_elems_def set_cells)
    then show ?thesis using frame off by simp
  qed
  show ?thesis
  proof (cases "k = ?n - 1")
    case True
    then have "hp' = hp1\<lparr>hp_num := ?n - 1\<rparr>"
      using run n1 by (simp add: hp'_def heap_remove_at_def Let_def)
    with True hole1 n1 x1 old show ?thesis by (auto simp: heap_index_def hole_index_def)
  next
    case False
    with k have k': "k < ?n - 1" by linarith
    let ?hp2 = "hp1\<lparr>hp_num := ?n - 1, hp_p := (hp_p hp1)(k := hp_p hp1 (?n - 1))\<rparr>"
    have hp': "hp' = fr_heap_bubble cmp ?hp2 k"
      using run n1 k' by (simp add: hp'_def heap_remove_at_def Let_def)
    have e1: "i = j" if "hp_p hp1 i = hp_p hp1 j" "i < ?n" "j < ?n" "i \<noteq> k" "j \<noteq> k" for i j
      using inj1 that by (auto simp: inj_on_def)
    have lst: "hp_p hp1 (?n - 1) \<noteq> hp_p hp1 i" if "i < ?n - 1" "i \<noteq> k" for i
      using e1 [of "?n - 1" i] that k' by linarith
    have inj2: "inj_on (hp_p ?hp2) {..<hp_num ?hp2}"
    proof (rule inj_onI)
      fix i j assume "i \<in> {..<hp_num ?hp2}" "j \<in> {..<hp_num ?hp2}" "hp_p ?hp2 i = hp_p ?hp2 j"
      then show "i = j" using e1 [of i j] lst [of i] lst [of j] by (auto split: if_splits)
    qed
    have pos2: "hp_pos ?hp2 (hp_p ?hp2 i) = int i" if "i < hp_num ?hp2" "i \<noteq> k" for i
      using that hole1 n1 by (auto simp: hole_index_def)
    have sub: "x \<notin># heap_elems ?hp2" if "x = ?x \<or> x \<notin># heap_elems hp" for x
    proof -
      have "heap_elems ?hp2 = heap_elems hp - {#?x#}"
        using sift mset_cells_fill [OF k', of "hp_p hp1"] by (simp add: heap_elems_def del: One_nat_def)
      moreover have "hp_p ?hp2 i \<noteq> ?x" if "i < ?n - 1" for i
        using xout1 [of i] xout1 [of "?n - 1"] that k' by simp
      then have "?x \<notin># heap_elems ?hp2"
        unfolding heap_elems_def set_mset_mset by (intro not_in_cells) simp
      ultimately show ?thesis using that by (metis in_diffD)
    qed
    show ?thesis
      using bubble_index [of ?hp2 k cmp] n1 k' inj2 pos2 sub x1 old unfolding hp' by auto
  qed
qed

lemma heap_remove_at_inv:
  assumes "cmp_order cmp" "heap_inv cmp hp" "h < hp_num hp"
  shows "heap_inv cmp (heap_remove_at cmp hp h)"
  using heap_remove_at_order [OF assms] heap_remove_at_index [OF assms] assms(2)
  by (auto simp: heap_inv_def)

lemma heap_insert_correct:
  assumes ord: "cmp_order cmp" and inv: "heap_inv cmp hp"
    and new: "hp_offset hp \<noteq> 0 \<Longrightarrow> x \<notin># heap_elems hp"
    and ins: "fr_heap_insert cmp ok junk hp x = (hp', r)" and room: "ok \<or> hp_num hp < hp_size hp"
  shows "r = 1 \<and> heap_inv cmp hp' \<and> heap_elems hp' = add_mset x (heap_elems hp) \<and>
     hp_offset hp' = hp_offset hp"
proof -
  let ?n = "hp_num hp"
  define hp1 where "hp1 = (if ?n = hp_size hp
      then hp\<lparr>hp_p := (\<lambda>i. if i < hp_size hp then hp_p hp i else junk i), hp_size := 2 * hp_size hp\<rparr>
      else hp)"
  define hp2 where "hp2 = hp1\<lparr>hp_p := (hp_p hp1)(?n := x), hp_num := Suc (hp_num hp1)\<rparr>"
  have hp': "hp' = fr_heap_bubble cmp hp2 ?n" "r = 1"
    using ins room by (auto simp: fr_heap_insert_def Let_def hp1_def hp2_def)
  have cell: "hp_p hp1 i = hp_p hp i" if "i < ?n" for i
    using that by (simp add: hp1_def)
  have f: "hp_num hp2 = Suc ?n" "hp_offset hp2 = hp_offset hp" "hp_pos hp2 = hp_pos hp"
    "Suc ?n \<le> hp_size hp2" "0 < hp_size hp2" "hp_p hp2 ?n = x" "\<And>i. i < ?n \<Longrightarrow> hp_p hp2 i = hp_p hp i"
    using inv cell by (auto simp: hp1_def hp2_def heap_inv_def)
  have cells2: "cells (hp_p hp2) (Suc ?n) = cells (hp_p hp) ?n @ [x]"
    using f by (auto simp: cells_def)
  then have elems: "heap_elems hp2 = add_mset x (heap_elems hp)" by (simp add: heap_elems_def f)
  have par: "HEAP_PARENT i < ?n" if "i \<le> ?n" "0 < i" for i
    using parent_less [OF that(2)] that(1) by linarith
  have "not_after cmp (hp_p hp2 (HEAP_PARENT i)) (hp_p hp2 i)" if "0 < i" "i < ?n" for i
    using inv that par [of i] f(7) by (simp add: heap_inv_def heap_order_def)
  moreover have "HEAP_PARENT i \<noteq> ?n" if "0 < i" "i < Suc ?n" for i
    using par [of i] that by simp
  ultimately have "bubble_pre cmp (hp_p hp2) (hp_num hp2) ?n"
    unfolding bubble_pre_def f(1) by (metis less_antisym)
  then have order: "heap_order cmp (hp_p hp') (Suc ?n)" "heap_elems hp' = heap_elems hp2"
    using bubble_order [OF ord, of ?n hp2] f hp' by auto
  have "heap_index hp'" if off: "hp_offset hp \<noteq> 0"
  proof -
    have idx: "heap_index hp" using inv off by (simp add: heap_inv_def)
    have "distinct (cells (hp_p hp) ?n)" using heap_index_inj [OF idx] by (simp add: distinct_cells)
    moreover have "x \<notin> set (cells (hp_p hp) ?n)" using new [OF off] by (simp add: heap_elems_def)
    ultimately have "inj_on (hp_p hp2) {..<Suc ?n}" by (simp add: cells2 flip: distinct_cells)
    then show ?thesis
      using bubble_index [of hp2 ?n cmp] f off idx hp' by (auto simp: heap_index_def)
  qed
  then show ?thesis using order elems f hp' by (simp add: heap_inv_def)
qed

lemma heap_insert_frame:
  assumes "heap_inv cmp hp" "hp_offset hp \<noteq> 0" "y \<notin># heap_elems hp" "x \<notin># heap_elems hp" "x \<noteq> y"
  shows "hp_pos (fst (fr_heap_insert cmp ok junk hp y)) x = hp_pos hp x"
proof -
  let ?n = "hp_num hp"
  define hp1 where "hp1 = (if ?n = hp_size hp
      then hp\<lparr>hp_p := (\<lambda>i. if i < hp_size hp then hp_p hp i else junk i), hp_size := 2 * hp_size hp\<rparr>
      else hp)"
  define hp2 where "hp2 = hp1\<lparr>hp_p := (hp_p hp1)(?n := y), hp_num := Suc (hp_num hp1)\<rparr>"
  have f: "hp_num hp2 = Suc ?n" "hp_offset hp2 = hp_offset hp" "hp_pos hp2 = hp_pos hp"
    "hp_p hp2 ?n = y" "\<And>i. i < ?n \<Longrightarrow> hp_p hp2 i = hp_p hp i"
    using assms(1) by (auto simp: hp1_def hp2_def heap_inv_def)
  have cells2: "cells (hp_p hp2) (Suc ?n) = cells (hp_p hp) ?n @ [y]"
    using f by (auto simp: cells_def)
  have idx: "heap_index hp" using assms by (simp add: heap_inv_def)
  have "distinct (cells (hp_p hp) ?n)" using heap_index_inj [OF idx] by (simp add: distinct_cells)
  with assms(3) have inj: "inj_on (hp_p hp2) {..<Suc ?n}"
    by (simp add: cells2 heap_elems_def flip: distinct_cells)
  have "x \<notin># heap_elems hp2" using assms(4,5) by (simp add: heap_elems_def f cells2)
  then have "hp_pos (fr_heap_bubble cmp hp2 ?n) x = hp_pos hp x"
    using bubble_index [of hp2 ?n cmp] inj f assms(2) idx by (auto simp: heap_index_def)
  then show ?thesis by (auto simp: fr_heap_insert_def Let_def hp1_def hp2_def)
qed

lemma heap_peek_min:
  assumes ord: "cmp_order cmp" and inv: "heap_inv cmp hp" and pk: "fr_heap_peek hp = Some x"
  shows "x = hp_p hp 0 \<and> 0 < hp_num hp \<and> (\<forall>y \<in># heap_elems hp. not_after cmp x y)"
proof -
  have x: "x = hp_p hp 0" "0 < hp_num hp" using pk by (auto simp: fr_heap_peek_def split: if_splits)
  have "not_after cmp (hp_p hp 0) (hp_p hp i)" if "i < hp_num hp" for i
    using that
  proof (induction i rule: less_induct)
    case (less i)
    show ?case
    proof (cases "i = 0")
      case True
      then show ?thesis using not_after_refl [OF ord] by simp
    next
      case False
      then have "HEAP_PARENT i < i" by simp
      with less have "not_after cmp (hp_p hp 0) (hp_p hp (HEAP_PARENT i))" by simp
      moreover have "not_after cmp (hp_p hp (HEAP_PARENT i)) (hp_p hp i)"
        using inv False less.prems by (simp add: heap_inv_def heap_order_def)
      ultimately show ?thesis by (rule not_after_trans [OF ord])
    qed
  qed
  then show ?thesis using x by (auto simp: heap_elems_def set_cells)
qed

section \<open>The indexed-heap interface\<close>

text \<open>
  What the event list and the connection pool rely on: a set of elements, each inserted at most
  once, from which any member can be extracted by pointer and whose peek is a minimum of the
  callback. \<open>out h x\<close> says that \<open>x\<close> is marked as not being in the heap.
\<close>

datatype 'e heap_op = Insert 'e | Remove 'e | PopMin

datatype 'e heap_out = Code int | Top "'e option"

inductive pq_step :: "'e cmp \<Rightarrow> 'e set \<Rightarrow> 'e heap_op \<Rightarrow> 'e heap_out \<Rightarrow> 'e set \<Rightarrow> bool" for c where
  insert: "x \<notin> E \<Longrightarrow> pq_step c E (Insert x) (Code 1) (Set.insert x E)"
| remove: "x \<in> E \<Longrightarrow> pq_step c E (Remove x) (Code 1) (E - {x})"
| absent: "x \<notin> E \<Longrightarrow> pq_step c E (Remove x) (Code 0) E"
| empty: "pq_step c {} PopMin (Top None) {}"
| pop: "x \<in> E \<Longrightarrow> \<forall>y \<in> E. not_after c x y \<Longrightarrow> pq_step c E PopMin (Top (Some x)) (E - {x})"

inductive pq_run :: "'e cmp \<Rightarrow> 'e set \<Rightarrow> 'e heap_op list \<Rightarrow> 'e heap_out list \<Rightarrow> 'e set \<Rightarrow> bool" for c where
  stop: "pq_run c E [] [] E"
| more: "pq_step c E op out E' \<Longrightarrow> pq_run c E' ops outs E'' \<Longrightarrow> pq_run c E (op # ops) (out # outs) E''"

fun used_well :: "'e set \<Rightarrow> 'e heap_op list \<Rightarrow> 'e heap_out list \<Rightarrow> bool" where
  "used_well E (Insert x # ops) (_ # outs) \<longleftrightarrow> x \<notin> E \<and> used_well (Set.insert x E) ops outs"
| "used_well E (Remove x # ops) (_ # outs) \<longleftrightarrow> used_well (E - {x}) ops outs"
| "used_well E (PopMin # ops) (Top (Some x) # outs) \<longleftrightarrow> used_well (E - {x}) ops outs"
| "used_well E (PopMin # ops) (_ # outs) \<longleftrightarrow> used_well E ops outs"
| "used_well E _ _ \<longleftrightarrow> True"

fun pq_exec ::
  "('e cmp \<Rightarrow> bool \<Rightarrow> (nat \<Rightarrow> 'e) \<Rightarrow> 'h \<Rightarrow> 'e \<Rightarrow> 'h \<times> int) \<Rightarrow>
   ('e cmp \<Rightarrow> 'h \<Rightarrow> 'e option \<Rightarrow> 'h \<times> int) \<Rightarrow> ('h \<Rightarrow> 'e option) \<Rightarrow> 'e cmp \<Rightarrow> (nat \<Rightarrow> 'e) \<Rightarrow>
   'h \<Rightarrow> 'e heap_op list \<Rightarrow> 'h \<times> 'e heap_out list" where
  "pq_exec ins ext pk c junk h [] = (h, [])"
| "pq_exec ins ext pk c junk h (op # ops) =
     (let (h', out) =
        (case op of
           Insert x \<Rightarrow> (let (h', r) = ins c True junk h x in (h', Code r))
         | Remove x \<Rightarrow> (let (h', r) = ext c h (Some x) in (h', Code r))
         | PopMin \<Rightarrow> (case pk h of None \<Rightarrow> (h, Top None) | Some x \<Rightarrow> (fst (ext c h None), Top (Some x))));
        (h'', outs) = pq_exec ins ext pk c junk h' ops
      in (h'', out # outs))"

locale indexed_heap =
  fixes inv :: "'e cmp \<Rightarrow> 'h \<Rightarrow> bool"
    and elems :: "'h \<Rightarrow> 'e set"
    and out :: "'h \<Rightarrow> 'e \<Rightarrow> bool"
    and ins :: "'e cmp \<Rightarrow> bool \<Rightarrow> (nat \<Rightarrow> 'e) \<Rightarrow> 'h \<Rightarrow> 'e \<Rightarrow> 'h \<times> int"
    and ext :: "'e cmp \<Rightarrow> 'h \<Rightarrow> 'e option \<Rightarrow> 'h \<times> int"
    and pk :: "'h \<Rightarrow> 'e option"
    and cap :: "'h \<Rightarrow> nat"
  assumes finite_elems: "finite (elems h)"
    and ins_room: "\<lbrakk>inv c h; card (elems h) < cap h\<rbrakk> \<Longrightarrow> snd (ins c ok junk h x) = 1"
    and ins_cap: "cap h \<le> cap (fst (ins c ok junk h x))"
    and ext_cap: "cap (fst (ext c h d)) = cap h"
    and ins_ok: "\<lbrakk>cmp_order c; inv c h; x \<notin> elems h; ins c True junk h x = (h', r)\<rbrakk>
      \<Longrightarrow> r = 1 \<and> inv c h' \<and> elems h' = Set.insert x (elems h)"
    and ins_fail: "\<lbrakk>ins c ok junk h x = (h', r); r = 0\<rbrakk> \<Longrightarrow> h' = h"
    and ins_mono: "ins c ok junk h x = (h', r) \<Longrightarrow> r \<noteq> 0 \<Longrightarrow> ins c True junk h x = (h', r)"
    and ins_out: "\<lbrakk>inv c h; x \<notin> elems h; y \<notin> elems h; y \<noteq> x; out h y\<rbrakk>
      \<Longrightarrow> out (fst (ins c ok junk h x)) y"
    and ext_mem: "\<lbrakk>cmp_order c; inv c h; x \<in> elems h; ext c h (Some x) = (h', r)\<rbrakk>
      \<Longrightarrow> r = 1 \<and> inv c h' \<and> elems h' = elems h - {x} \<and> out h' x"
    and ext_absent: "\<lbrakk>inv c h; out h x\<rbrakk> \<Longrightarrow> ext c h (Some x) = (h, 0)"
    and ext_out: "\<lbrakk>cmp_order c; inv c h; x \<in> elems h; y \<notin> elems h; out h y\<rbrakk>
      \<Longrightarrow> out (fst (ext c h (Some x))) y"
    and ext_top: "\<lbrakk>inv c h; pk h = Some x\<rbrakk> \<Longrightarrow> ext c h None = ext c h (Some x)"
    and pk_None: "inv c h \<Longrightarrow> pk h = None \<longleftrightarrow> elems h = {}"
    and pk_min: "\<lbrakk>cmp_order c; inv c h; pk h = Some x\<rbrakk>
      \<Longrightarrow> x \<in> elems h \<and> (\<forall>y \<in> elems h. not_after c x y)"
    and inv_cong: "\<lbrakk>inv c h; \<And>x y. x \<in> elems h \<Longrightarrow> y \<in> elems h \<Longrightarrow> c' x y = c x y\<rbrakk> \<Longrightarrow> inv c' h"
begin

lemma ins_member:
  assumes "cmp_order c" "inv c h" "x \<notin> elems h" "card (elems h) < cap h"
    and "ins c ok junk h x = (h', r)"
  shows "r = 1 \<and> inv c h' \<and> elems h' = Set.insert x (elems h) \<and> cap h \<le> cap h'"
  using ins_ok [OF assms(1-3) ins_mono [OF assms(5)]] ins_room [OF assms(2,4), of ok junk x]
    ins_cap [of h c ok junk x] assms(5)
  by auto

lemma ext_member:
  assumes "cmp_order c" "inv c h" "x \<in> elems h" "ext c h (Some x) = (h', r)"
  shows "r = 1 \<and> inv c h' \<and> elems h' = elems h - {x} \<and> cap h' = cap h"
  using ext_mem [OF assms] ext_cap [of c h "Some x"] assms(4) by auto

lemma exec_simulates:
  assumes "cmp_order c" "inv c h" "\<forall>x. x \<notin> elems h \<longrightarrow> out h x"
    and "pq_exec ins ext pk c junk h ops = (h', outs)" "used_well (elems h) ops outs"
  shows "inv c h' \<and> pq_run c (elems h) ops outs (elems h')"
  using assms
proof (induction ops arbitrary: h outs)
  case Nil
  then show ?case by (auto intro: pq_run.stop)
next
  case (Cons op ops)
  have main: ?case
    if "inv c h1" "\<forall>x. x \<notin> elems h1 \<longrightarrow> out h1 x" "pq_step c (elems h) op o1 (elems h1)"
      "pq_exec ins ext pk c junk h1 ops = (h', outs1)" "outs = o1 # outs1"
      "used_well (elems h1) ops outs1" for h1 o1 outs1
    using Cons.IH [OF Cons.prems(1) that(1,2,4,6)] that(3,5) by (auto intro: pq_run.more)
  show ?case
  proof (cases op)
    case (Insert x)
    obtain h1 r where i: "ins c True junk h x = (h1, r)" by force
    obtain outs1 where e: "pq_exec ins ext pk c junk h1 ops = (h', outs1)" "outs = Code r # outs1"
      using Cons.prems(4) Insert i by (auto split: prod.splits)
    have x: "x \<notin> elems h" using Cons.prems(5) Insert e by simp
    note ok = ins_ok [OF Cons.prems(1,2) x i]
    show ?thesis
      using ok e x i Insert Cons.prems ins_out [OF Cons.prems(2) x, of _ True junk]
      by (intro main [of h1 "Code r" outs1]) (auto intro: pq_step.insert)
  next
    case (Remove x)
    obtain h1 r where i: "ext c h (Some x) = (h1, r)" by force
    obtain outs1 where e: "pq_exec ins ext pk c junk h1 ops = (h', outs1)" "outs = Code r # outs1"
      using Cons.prems(4) Remove i by (auto split: prod.splits)
    show ?thesis
    proof (cases "x \<in> elems h")
      case True
      note ok = ext_mem [OF Cons.prems(1,2) True i]
      show ?thesis
        using ok e True i Remove Cons.prems ext_out [OF Cons.prems(1,2) True]
        by (intro main [of h1 "Code r" outs1]) (auto intro: pq_step.remove)
    next
      case False
      then have "h1 = h" "r = 0" using ext_absent [OF Cons.prems(2)] Cons.prems(3) i by auto
      then show ?thesis
        using e False Remove Cons.prems
        by (intro main [of h1 "Code r" outs1]) (auto intro: pq_step.absent)
    qed
  next
    case PopMin
    show ?thesis
    proof (cases "pk h")
      case None
      obtain outs1 where e: "pq_exec ins ext pk c junk h ops = (h', outs1)" "outs = Top None # outs1"
        using Cons.prems(4) PopMin None by (auto split: prod.splits)
      show ?thesis
        using e PopMin Cons.prems pk_None [OF Cons.prems(2)] None
        by (intro main [of h "Top None" outs1]) (auto intro: pq_step.empty)
    next
      case (Some x)
      obtain h1 r where i: "ext c h (Some x) = (h1, r)" by force
      obtain outs1 where e: "pq_exec ins ext pk c junk h1 ops = (h', outs1)" "outs = Top (Some x) # outs1"
        using Cons.prems(4) PopMin Some i ext_top [OF Cons.prems(2) Some] by (auto split: prod.splits)
      note top = pk_min [OF Cons.prems(1,2) Some]
      note ok = ext_mem [OF Cons.prems(1,2) _ i]
      show ?thesis
        using top ok e i PopMin Cons.prems ext_out [OF Cons.prems(1,2), of x]
        by (intro main [of h1 "Top (Some x)" outs1]) (auto intro: pq_step.pop)
    qed
  qed
qed

end

section \<open>The heap provides the interface\<close>

definition tracked_inv :: "'e cmp \<Rightarrow> 'e heap \<Rightarrow> bool" where
  "tracked_inv cmp hp \<longleftrightarrow> heap_inv cmp hp \<and> hp_offset hp \<noteq> 0"

definition heap_set :: "'e heap \<Rightarrow> 'e set" where
  "heap_set hp = set_mset (heap_elems hp)"

definition heap_out :: "'e heap \<Rightarrow> 'e \<Rightarrow> bool" where
  "heap_out hp x \<longleftrightarrow> hp_pos hp x < 0"

lemma tracked_distinct:
  assumes "tracked_inv cmp hp"
  shows "heap_set (hp\<lparr>hp_pos := q\<rparr>) = heap_set hp" "set_mset (heap_elems hp - {#x#}) = heap_set hp - {x}"
proof -
  have "distinct (cells (hp_p hp) (hp_num hp))"
    using assms heap_index_inj by (auto simp: tracked_inv_def heap_inv_def distinct_cells)
  then show "set_mset (heap_elems hp - {#x#}) = heap_set hp - {x}"
    by (simp add: heap_elems_def heap_set_def set_remove1_eq flip: mset_remove1)
qed (simp add: heap_set_def heap_elems_def)

lemma heap_extract_member:
  assumes ord: "cmp_order cmp" and inv: "tracked_inv cmp hp" and x: "x \<in> heap_set hp"
  shows "\<exists>hp'. fr_heap_extract cmp hp (Some x) = (hp', 1) \<and> tracked_inv cmp hp' \<and>
     heap_set hp' = heap_set hp - {x} \<and> hp_pos hp' x = -1 \<and>
     (\<forall>y. y \<notin> heap_set hp \<longrightarrow> hp_pos hp' y = hp_pos hp y)"
proof -
  have hinv: "heap_inv cmp hp" "hp_offset hp \<noteq> 0" "heap_index hp"
    using inv by (auto simp: tracked_inv_def heap_inv_def)
  obtain h where h: "h < hp_num hp" "hp_p hp h = x"
    using x by (auto simp: heap_set_def heap_elems_def set_cells)
  then have pos: "hp_pos hp x = int h" using hinv by (auto simp: heap_index_def)
  then have ex: "fr_heap_extract cmp hp (Some x) = (heap_remove_at cmp hp h, 1)"
    using h hinv by (simp add: fr_heap_extract_def)
  have "heap_set (heap_remove_at cmp hp h) = heap_set hp - {x}"
    using heap_remove_at_order [OF ord hinv(1) h(1)] tracked_distinct(2) [OF inv, of x] h
    by (simp add: heap_set_def)
  then show ?thesis
    using ex heap_remove_at_inv [OF ord hinv(1) h(1)] heap_remove_at_order [OF ord hinv(1) h(1)]
      heap_remove_at_index [OF ord hinv(1) h(1) hinv(2)] hinv h
    by (auto simp: tracked_inv_def heap_set_def)
qed

lemma heap_extract_top:
  assumes "tracked_inv cmp hp" "fr_heap_peek hp = Some x"
  shows "fr_heap_extract cmp hp None = fr_heap_extract cmp hp (Some x)"
proof -
  have "hp_num hp \<noteq> 0" "x = hp_p hp 0" using assms(2) by (auto simp: fr_heap_peek_def split: if_splits)
  moreover from this have "hp_pos hp x = 0" "hp_offset hp \<noteq> 0"
    using assms(1) by (auto simp: tracked_inv_def heap_inv_def heap_index_def)
  ultimately show ?thesis by (simp add: fr_heap_extract_def)
qed

lemma heap_insert_tracked:
  assumes "cmp_order c" "tracked_inv c h" "x \<notin> heap_set h" "fr_heap_insert c True junk h x = (h', r)"
  shows "r = 1 \<and> tracked_inv c h' \<and> heap_set h' = Set.insert x (heap_set h)"
  using heap_insert_correct [OF assms(1) _ _ assms(4)] assms
  by (auto simp: tracked_inv_def heap_set_def)

lemma heap_set_card:
  assumes "tracked_inv c h"
  shows "card (heap_set h) = hp_num h"
proof -
  have "distinct (cells (hp_p h) (hp_num h))"
    using assms heap_index_inj by (auto simp: tracked_inv_def heap_inv_def distinct_cells)
  then show ?thesis by (simp add: heap_set_def heap_elems_def distinct_card)
qed

lemma heap_sift_size [simp]: "hp_size (fst (heap_sift cmp hp m h)) = hp_size hp"
  by (induction cmp hp m h rule: heap_sift.induct) (subst heap_sift.simps, simp add: Let_def)

lemma heap_extract_size [simp]: "hp_size (fst (fr_heap_extract cmp hp d)) = hp_size hp"
  by (auto simp: fr_heap_extract_def heap_remove_at_def Let_def split_beta split: option.splits)

interpretation hp: indexed_heap
  tracked_inv heap_set heap_out fr_heap_insert fr_heap_extract fr_heap_peek hp_size
proof unfold_locales
  show "finite (heap_set h)" for h :: "'a heap" by (simp add: heap_set_def)
next
  fix c :: "'a cmp" and h :: "'a heap" and ok junk x
  assume "tracked_inv c h" "card (heap_set h) < hp_size h"
  then show "snd (fr_heap_insert c ok junk h x) = 1"
    by (simp add: heap_set_card fr_heap_insert_def Let_def)
next
  fix c :: "'a cmp" and h :: "'a heap" and ok junk x
  show "hp_size h \<le> hp_size (fst (fr_heap_insert c ok junk h x))"
    by (simp add: fr_heap_insert_def Let_def)
next
  fix c :: "'a cmp" and h :: "'a heap" and d
  show "hp_size (fst (fr_heap_extract c h d)) = hp_size h" by simp
next
  fix c :: "'a cmp" and ok :: bool and junk and h :: "'a heap" and x h' r
  assume "fr_heap_insert c ok junk h x = (h', r)" "r = 0"
  then show "h' = h" by (auto simp: fr_heap_insert_def Let_def split: if_splits)
next
  fix c :: "'a cmp" and ok :: bool and junk and h :: "'a heap" and x h' r
  assume "fr_heap_insert c ok junk h x = (h', r)" "r \<noteq> 0"
  then show "fr_heap_insert c True junk h x = (h', r)"
    by (auto simp: fr_heap_insert_def Let_def split: if_splits)
next
  fix c :: "'a cmp" and ok junk and h :: "'a heap" and x y
  assume "tracked_inv c h" "x \<notin> heap_set h" "y \<notin> heap_set h" "y \<noteq> x" "heap_out h y"
  then show "heap_out (fst (fr_heap_insert c ok junk h x)) y"
    using heap_insert_frame [of c h x y ok junk] by (auto simp: tracked_inv_def heap_set_def heap_out_def)
next
  fix c :: "'a cmp" and h :: "'a heap" and x h' r
  assume "cmp_order c" "tracked_inv c h" "x \<in> heap_set h" "fr_heap_extract c h (Some x) = (h', r)"
  then show "r = 1 \<and> tracked_inv c h' \<and> heap_set h' = heap_set h - {x} \<and> heap_out h' x"
    using heap_extract_member [of c h x] by (auto simp: heap_out_def)
next
  fix c :: "'a cmp" and h :: "'a heap" and x
  assume "tracked_inv c h" "heap_out h x"
  then show "fr_heap_extract c h (Some x) = (h, 0)"
    by (simp add: fr_heap_extract_def heap_out_def)
next
  fix c :: "'a cmp" and h :: "'a heap" and x y
  assume "cmp_order c" "tracked_inv c h" "x \<in> heap_set h" "y \<notin> heap_set h" "heap_out h y"
  then show "heap_out (fst (fr_heap_extract c h (Some x))) y"
    using heap_extract_member [of c h x] by (auto simp: heap_out_def)
next
  fix c :: "'a cmp" and h :: "'a heap"
  show "fr_heap_peek h = None \<longleftrightarrow> heap_set h = {}"
    by (auto simp: fr_heap_peek_def heap_set_def heap_elems_def set_cells)
next
  fix c :: "'a cmp" and h :: "'a heap" and x
  assume "cmp_order c" "tracked_inv c h" "fr_heap_peek h = Some x"
  then show "x \<in> heap_set h \<and> (\<forall>y\<in>heap_set h. not_after c x y)"
    using heap_peek_min [of c h x] by (auto simp: tracked_inv_def heap_set_def heap_elems_def set_cells)
next
  fix c c' :: "'a cmp" and h :: "'a heap"
  assume "tracked_inv c h" and same: "\<And>x y. x \<in> heap_set h \<Longrightarrow> y \<in> heap_set h \<Longrightarrow> c' x y = c x y"
  moreover have "hp_p h i \<in> heap_set h" if "i < hp_num h" for i
    using that by (auto simp: heap_set_def heap_elems_def set_cells)
  moreover have "HEAP_PARENT i < hp_num h" if "i < hp_num h" for i
    using that parent_le [of i] by linarith
  ultimately show "tracked_inv c' h"
    by (auto simp: tracked_inv_def heap_inv_def heap_order_def not_after_def)
next
  fix c :: "'a cmp" and junk and h :: "'a heap" and x h' r
  assume "cmp_order c" "tracked_inv c h" "x \<notin> heap_set h" "fr_heap_insert c True junk h x = (h', r)"
  then show "r = 1 \<and> tracked_inv c h' \<and> heap_set h' = Set.insert x (heap_set h)"
    by (rule heap_insert_tracked)
next
  fix c :: "'a cmp" and h :: "'a heap" and x
  assume "tracked_inv c h" "fr_heap_peek h = Some x"
  then show "fr_heap_extract c h None = fr_heap_extract c h (Some x)"
    by (rule heap_extract_top)
qed

section \<open>Properties\<close>

lemma cmp_order_key: "cmp_order (\<lambda>a b. f a - f b)"
  by (auto simp: cmp_order_def)

lemma heap_create_tracked:
  assumes "fr_heap_create b m1 m2 off junk pos = Some hp" "off \<noteq> 0"
  shows "tracked_inv cmp hp" "heap_set hp = {}" "hp_pos hp = pos"
  using assms by (auto simp: fr_heap_create_def tracked_inv_def heap_inv_def heap_order_def
      heap_index_def heap_set_def heap_elems_def split: if_splits)


definition demo_cmp :: "nat cmp" where
  "demo_cmp a b = int a - int b"

definition demo_heap :: "nat heap" where
  "demo_heap = \<lparr>hp_size = 2048, hp_num = 0, hp_offset = 8, hp_p = (\<lambda>_. 0), hp_pos = (\<lambda>_. -1)\<rparr>"

definition demo_ops :: "nat heap_op list" where
  "demo_ops = [Insert 5, Insert 2, Insert 9, PopMin, Remove 9, Remove 9, PopMin, PopMin]"

lemma demo_cmp_order: "cmp_order demo_cmp"
  using cmp_order_key [of int] by (simp add: demo_cmp_def [abs_def])

lemma demo_exec:
  "snd (pq_exec fr_heap_insert fr_heap_extract fr_heap_peek demo_cmp (\<lambda>_. 0) demo_heap demo_ops) =
     [Code 1, Code 1, Code 1, Top (Some 2), Code 1, Code 0, Top (Some 5), Top None]"
  by code_simp


text \<open>
  Extracting a member by pointer succeeds, removes exactly that element, restores the order
  and every stored index, and marks the element as outside; extracting it a second time fails
  and changes nothing.
\<close>

lemma heap_extract_exact:
  assumes "cmp_order cmp" "heap_inv cmp hp" "hp_offset hp \<noteq> 0" "x \<in># heap_elems hp"
  shows "\<exists>hp'. fr_heap_extract cmp hp (Some x) = (hp', 1) \<and> heap_inv cmp hp' \<and>
     heap_elems hp' = heap_elems hp - {#x#} \<and> hp_pos hp' x = -1 \<and>
     fr_heap_extract cmp hp' (Some x) = (hp', 0)"
proof -
  have t: "tracked_inv cmp hp" "x \<in> heap_set hp" using assms by (auto simp: tracked_inv_def heap_set_def)
  then obtain h where h: "h < hp_num hp" "hp_p hp h = x"
    by (auto simp: heap_set_def heap_elems_def set_cells)
  then have "hp_pos hp x = int h" using assms by (auto simp: heap_inv_def heap_index_def)
  then have ex: "fr_heap_extract cmp hp (Some x) = (heap_remove_at cmp hp h, 1)"
    using h assms(3) by (simp add: fr_heap_extract_def)
  with heap_extract_member [OF assms(1) t] heap_remove_at_order [OF assms(1,2) h(1)] h
  show ?thesis by (auto simp: tracked_inv_def fr_heap_extract_def)
qed

end
