(* ===== verification/Event.thy ===== *)
theory Event
  imports Heap "HOL-Library.Monad_Syntax"
begin

text \<open>
  The event list of \<^verbatim>\<open>lib/event.c\<close> in its \<open>select\<close> variant: timers in a heap ordered by time, and
  a table of sockets with their handlers. An \<open>fr_event_t\<close> is known by its address, \<open>el_mem\<close> is
  the memory behind it, and its \<open>heap\<close> field is the index memory of the heap. A timer is owned
  by a variable of its user, \<open>el_vars\<close>, to which the event's \<open>parent\<close> field points back; a NULL
  variable is an unarmed timer. A call that fails \<^verbatim>\<open>fr_assert\<close> is \<open>None\<close>.

  What a callback does is an argument \<open>call\<close> from its address, its context and the list to the
  list; \<open>el_user\<close> is the rest of its state. The results of the allocator, the clock and
  \<open>select\<close> are arguments as well. The guards against a NULL list are left to the types.
\<close>

section \<open>State\<close>

record timeval =
  tv_sec :: int
  tv_usec :: int

record event =
  ev_callback :: nat
  ev_ctx :: nat
  ev_when :: timeval
  ev_parent :: "nat option"

record fd_entry =
  ef_fd :: int
  ef_handler :: nat
  ef_write_handler :: "nat option"
  ef_ctx :: nat

record 'u elist =
  el_times :: "nat heap"
  el_mem :: "nat \<Rightarrow> event"
  el_vars :: "nat \<Rightarrow> nat option"
  el_exit :: int
  el_now :: timeval
  el_dispatch :: bool
  el_num_readers :: nat
  el_max_readers :: nat
  el_max_fd :: int
  el_read_fds :: "int set"
  el_write_fds :: "int set"
  el_readers :: "fd_entry list"
  el_user :: 'u

type_synonym 'u callback = "nat \<Rightarrow> nat \<Rightarrow> 'u elist \<Rightarrow> 'u elist"

definition USEC :: int where "USEC = 1000000"

definition FR_EV_MAX_FDS :: nat where "FR_EV_MAX_FDS = 512"

definition fr_assert :: "bool \<Rightarrow> unit option" where
  "fr_assert c = (if c then Some () else None)"

section \<open>Timers\<close>

definition time_cmp :: "timeval \<Rightarrow> timeval \<Rightarrow> int" where
  "time_cmp a b =
     (if tv_sec a < tv_sec b then - 1
      else if tv_sec a > tv_sec b then 1
      else if tv_usec a < tv_usec b then - 1
      else if tv_usec a > tv_usec b then 1
      else 0)"

definition fr_event_list_time_cmp :: "(nat \<Rightarrow> event) \<Rightarrow> nat cmp" where
  "fr_event_list_time_cmp mem one two = time_cmp (ev_when (mem one)) (ev_when (mem two))"

definition zero_time :: timeval where
  "zero_time = \<lparr>tv_sec = 0, tv_usec = 0\<rparr>"

definition empty_fd :: fd_entry where
  "empty_fd = \<lparr>ef_fd = - 1, ef_handler = 0, ef_write_handler = None, ef_ctx = 0\<rparr>"

text \<open>\<open>offset\<close> is \<^verbatim>\<open>offsetof(fr_event_t, heap)\<close>; the heap's allocations may fail.\<close>

definition fr_event_list_create ::
  "bool \<Rightarrow> bool \<Rightarrow> bool \<Rightarrow> nat \<Rightarrow> (nat \<Rightarrow> nat) \<Rightarrow> (nat \<Rightarrow> int) \<Rightarrow> (nat \<Rightarrow> event) \<Rightarrow> 'u \<Rightarrow> 'u elist option" where
  "fr_event_list_create talloc_ok malloc_hp malloc_p offset junk pos mem user =
     (if \<not> talloc_ok then None
      else case fr_heap_create True malloc_hp malloc_p offset junk pos of
        None \<Rightarrow> None
      | Some heap \<Rightarrow>
          Some \<lparr>el_times = heap, el_mem = mem, el_vars = (\<lambda>_. None), el_exit = 0, el_now = zero_time,
                el_dispatch = False, el_num_readers = 0, el_max_readers = 0, el_max_fd = 0,
                el_read_fds = {}, el_write_fds = {}, el_readers = replicate FR_EV_MAX_FDS empty_fd,
                el_user = user\<rparr>)"

definition fr_event_list_num_fds :: "'u elist \<Rightarrow> nat" where
  "fr_event_list_num_fds el = el_num_readers el"

definition fr_event_list_num_elements :: "'u elist \<Rightarrow> nat" where
  "fr_event_list_num_elements el = fr_heap_num_elements (el_times el)"

definition fr_event_delete :: "'u elist \<Rightarrow> nat option \<Rightarrow> ('u elist \<times> int) option" where
  "fr_event_delete el parent =
     (case parent of
        None \<Rightarrow> Some (el, 0)
      | Some v \<Rightarrow>
          (case el_vars el v of
             None \<Rightarrow> Some (el, 0)
           | Some ev \<Rightarrow>
               do { vars \<leftarrow> (case ev_parent (el_mem el ev) of
                             None \<Rightarrow> Some (el_vars el)
                           | Some p \<Rightarrow> do { fr_assert (el_vars el p = Some ev); Some ((el_vars el)(p := None)) });
                    let (heap, ret) = fr_heap_extract (fr_event_list_time_cmp (el_mem el)) (el_times el) (Some ev)
                    in do { fr_assert (ret = 1);
                            Some (el\<lparr>el_vars := vars(v := None), el_times := heap\<rparr>, ret) } }))"

text \<open>
  A zeroed event has 0 in its \<open>heap\<close> field too. When the heap cannot take the event it is freed
  again, and the variable is left as it was.
\<close>

definition zero_event :: "nat heap \<Rightarrow> nat \<Rightarrow> nat heap" where
  "zero_event heap ev = heap\<lparr>hp_pos := (hp_pos heap)(ev := 0)\<rparr>"

definition fr_event_insert ::
  "nat option \<Rightarrow> bool \<Rightarrow> (nat \<Rightarrow> nat) \<Rightarrow> 'u elist \<Rightarrow> nat option \<Rightarrow> nat \<Rightarrow> timeval option \<Rightarrow> nat option \<Rightarrow>
   ('u elist \<times> int) option" where
  "fr_event_insert talloc malloc_ok junk el callback ctx when parent =
     (case (callback, when, parent) of
        (Some cb, Some w, Some v) \<Rightarrow>
          if tv_usec w \<ge> USEC then Some (el, 0)
          else
            (case (case el_vars el v of
                     Some ev \<Rightarrow>
                       let (heap, ret) = fr_heap_extract (fr_event_list_time_cmp (el_mem el)) (el_times el) (Some ev)
                       in do { fr_assert (ret = 1); Some (Some (ev, zero_event heap ev)) }
                   | None \<Rightarrow> Some (map_option (\<lambda>ev. (ev, zero_event (el_times el) ev)) talloc)) of
               None \<Rightarrow> None
             | Some None \<Rightarrow> Some (el, 0)
             | Some (Some (ev, heap)) \<Rightarrow>
                 let mem = (el_mem el)(ev := \<lparr>ev_callback = cb, ev_ctx = ctx, ev_when = w, ev_parent = Some v\<rparr>);
                     (heap', r) = fr_heap_insert (fr_event_list_time_cmp mem) malloc_ok junk heap ev
                 in if r = 0 then Some (el\<lparr>el_mem := mem, el_times := heap'\<rparr>, 0)
                    else Some (el\<lparr>el_mem := mem, el_times := heap', el_vars := (el_vars el)(v := Some ev)\<rparr>, 1))
      | _ \<Rightarrow> Some (el, 0))"

definition fr_event_run :: "'u callback \<Rightarrow> 'u elist \<Rightarrow> timeval \<Rightarrow> ('u elist \<times> timeval \<times> int) option" where
  "fr_event_run call el when =
     (if fr_heap_num_elements (el_times el) = 0 then Some (el, zero_time, 0)
      else case fr_heap_peek (el_times el) of
        None \<Rightarrow> Some (el, zero_time, 0)
      | Some e \<Rightarrow>
          let ev = el_mem el e
          in if tv_sec (ev_when ev) > tv_sec when \<or>
                tv_sec (ev_when ev) = tv_sec when \<and> tv_usec (ev_when ev) > tv_usec when
             then Some (el, ev_when ev, 0)
             else do { (el1, _) \<leftarrow> fr_event_delete el (ev_parent ev);
                       Some (call (ev_callback ev) (ev_ctx ev) el1, when, 1) })"

definition fr_event_now :: "'u elist option \<Rightarrow> timeval \<Rightarrow> timeval" where
  "fr_event_now el time_of_day =
     (case el of None \<Rightarrow> time_of_day | Some el \<Rightarrow> if el_dispatch el then el_now el else time_of_day)"

text \<open>\<open>ev\<close> is the local variable of the destructor, at an address of its own.\<close>

partial_function (option) event_list_free :: "nat \<Rightarrow> 'u elist \<Rightarrow> 'u elist option" where
  "event_list_free ev el =
     (case fr_heap_peek (el_times el) of
        None \<Rightarrow> Some el
      | Some e \<Rightarrow>
          (case fr_event_delete (el\<lparr>el_vars := (el_vars el)(ev := Some e)\<rparr>) (Some ev) of
             None \<Rightarrow> None
           | Some (el1, ret) \<Rightarrow> event_list_free ev el1))"

section \<open>Sockets\<close>

datatype slot = Same nat | Free nat | NoSlot

text \<open>
  The scan for the descriptor or a free entry, whichever comes first, up to \<open>max_readers\<close>; \<open>None\<close>
  is a read behind the array.
\<close>

fun find_slot :: "fd_entry list \<Rightarrow> int \<Rightarrow> nat \<Rightarrow> nat \<Rightarrow> slot option" where
  "find_slot readers fd i 0 = Some NoSlot"
| "find_slot readers fd i (Suc k) =
     (if i \<ge> length readers then None
      else if ef_fd (readers ! i) = fd then Some (Same i)
      else if ef_fd (readers ! i) < 0 then Some (Free i)
      else find_slot readers fd (Suc i) k)"

definition fr_event_fd_insert ::
  "'u elist \<Rightarrow> int \<Rightarrow> int \<Rightarrow> nat option \<Rightarrow> nat option \<Rightarrow> ('u elist \<times> int) option" where
  "fr_event_fd_insert el type fd handler ctx =
     (case (handler, ctx) of
        (Some h, Some c) \<Rightarrow>
          if fd < 0 then Some (el, 0)
          else if type \<noteq> 0 then Some (el, 0)
          else if el_num_readers el \<ge> FR_EV_MAX_FDS then Some (el, 0)
          else if fd > FD_SETSIZE then Some (el, 0)
          else (case find_slot (el_readers el) fd 0 (Suc (el_max_readers el)) of
                  None \<Rightarrow> None
                | Some (Same i) \<Rightarrow>
                    if ef_handler (el_readers el ! i) \<noteq> h \<or> ef_ctx (el_readers el ! i) \<noteq> c
                    then Some (el, 0) else Some (el, 1)
                | Some (Free i) \<Rightarrow>
                    do { rfds \<leftarrow> FD_SET fd (el_read_fds el);
                         Some (el\<lparr>el_num_readers := el_num_readers el + 1,
                                  el_max_readers := (if i = el_max_readers el then i + 1 else el_max_readers el),
                                  el_read_fds := rfds,
                                  el_max_fd := (if el_max_fd el \<le> fd then fd else el_max_fd el),
                                  el_readers := (el_readers el)[i := (el_readers el ! i)
                                      \<lparr>ef_fd := fd, ef_handler := h, ef_ctx := c\<rparr>]\<rparr>, 1) }
                | Some NoSlot \<Rightarrow> Some (el, 0))
      | _ \<Rightarrow> Some (el, 0))"

fun find_fd :: "fd_entry list \<Rightarrow> int \<Rightarrow> nat \<Rightarrow> nat \<Rightarrow> nat option" where
  "find_fd readers fd i 0 = None"
| "find_fd readers fd i (Suc k) = (if ef_fd (readers ! i) \<noteq> fd then find_fd readers fd (Suc i) k else Some i)"

definition fr_event_fd_write_handler ::
  "'u elist \<Rightarrow> int \<Rightarrow> int \<Rightarrow> nat option \<Rightarrow> ('u elist \<times> int) option" where
  "fr_event_fd_write_handler el type fd write_handler =
     (if fd < 0 then Some (el, 0)
      else if type \<noteq> 0 then Some (el, 0)
      else case find_fd (el_readers el) fd 0 (el_max_readers el) of
        None \<Rightarrow> Some (el, 0)
      | Some i \<Rightarrow>
          do { wfds \<leftarrow> FD_SET fd (el_write_fds el);
               Some (el\<lparr>el_readers := (el_readers el)[i := (el_readers el ! i)\<lparr>ef_write_handler := write_handler\<rparr>],
                        el_write_fds := wfds\<rparr>, 1) })"

definition fr_event_fd_delete :: "'u elist \<Rightarrow> int \<Rightarrow> int \<Rightarrow> 'u elist \<times> int" where
  "fr_event_fd_delete el type fd =
     (if fd < 0 then (el, 0)
      else if type \<noteq> 0 then (el, 0)
      else case find_fd (el_readers el) fd 0 (el_max_readers el) of
        None \<Rightarrow> (el, 0)
      | Some i \<Rightarrow>
          (el\<lparr>el_readers := (el_readers el)[i := (el_readers el ! i)\<lparr>ef_fd := - 1\<rparr>],
              el_num_readers := el_num_readers el - 1,
              el_max_readers := (if i + 1 = el_max_readers el then i else el_max_readers el),
              el_read_fds := el_read_fds el - {fd},
              el_write_fds := el_write_fds el - {fd}\<rparr>, 1))"

section \<open>The loop\<close>

definition fr_event_loop_exit :: "'u elist \<Rightarrow> int \<Rightarrow> 'u elist" where
  "fr_event_loop_exit el code = el\<lparr>el_exit := code\<rparr>"

definition fr_event_loop_exiting :: "'u elist \<Rightarrow> bool" where
  "fr_event_loop_exiting el \<longleftrightarrow> el_exit el \<noteq> 0"

text \<open>How long \<open>select\<close> may sleep when the first event is at \<open>w\<close>; \<open>timercmp\<close> is the test of the time.\<close>

definition loop_wake :: "timeval \<Rightarrow> timeval \<Rightarrow> timeval" where
  "loop_wake now w =
     (if time_cmp now w < 0
      then let sec = tv_sec w - tv_sec now;
               (sec1, usec1) = (if sec > 0 then (sec - 1, tv_usec w + USEC) else (0, tv_usec w));
               usec2 = usec1 - tv_usec now
           in if usec2 \<ge> USEC then \<lparr>tv_sec = sec1 + 1, tv_usec = usec2 - USEC\<rparr>
              else \<lparr>tv_sec = sec1, tv_usec = usec2\<rparr>
      else zero_time)"

text \<open>The \<open>do ... while\<close> that runs the due events; \<open>clock k\<close> is the \<open>k\<close>th reading of the clock.\<close>

partial_function (option) run_due ::
  "'u callback \<Rightarrow> (nat \<Rightarrow> timeval) \<Rightarrow> nat \<Rightarrow> 'u elist \<Rightarrow> ('u elist \<times> timeval \<times> nat) option" where
  "run_due call clock k el =
     (case fr_event_run call (el\<lparr>el_now := clock k\<rparr>) (clock k) of
        None \<Rightarrow> None
      | Some (el1, when, r) \<Rightarrow>
          if r = 1 then run_due call clock (Suc k) el1 else Some (el1, when, Suc k))"

type_synonym 'u handler = "nat \<Rightarrow> int \<Rightarrow> nat \<Rightarrow> 'u elist \<Rightarrow> 'u elist"

text \<open>Serving the sockets \<open>select\<close> reported; the handlers may change the table on the way.\<close>

function serve_fds :: "'u handler \<Rightarrow> int set \<Rightarrow> int set \<Rightarrow> nat \<Rightarrow> 'u elist \<Rightarrow> 'u elist option" where
  "serve_fds handle rfds wfds i el =
     (if i < el_max_readers el
      then if i \<ge> FR_EV_MAX_FDS then None
           else let ef = el_readers el ! i
                in if ef_fd ef < 0 then serve_fds handle rfds wfds (Suc i) el
                   else case (case ef_write_handler ef of
                                None \<Rightarrow> Some el
                              | Some w \<Rightarrow> map_option (\<lambda>b. if b then handle w (ef_fd ef) (ef_ctx ef) el else el)
                                            (FD_ISSET (ef_fd ef) wfds)) of
                          None \<Rightarrow> None
                        | Some el1 \<Rightarrow>
                            let ef1 = el_readers el1 ! i
                            in case FD_ISSET (ef_fd ef1) rfds of
                                 None \<Rightarrow> None
                               | Some b \<Rightarrow> serve_fds handle rfds wfds (Suc i)
                                   (if b then handle (ef_handler ef1) (ef_fd ef1) (ef_ctx ef1) el1 else el1)
      else Some el)"
  by pat_completeness auto
termination by (relation "measure (\<lambda>(h, r, w, i, el). FR_EV_MAX_FDS - i)") auto

declare serve_fds.simps [simp del]

text \<open>
  The outside of one iteration: the readings of the clock, and what \<open>select\<close> answers to a
  timeout: its result, whether \<open>errno\<close> is \<open>EINTR\<close>, and the ready descriptors among those asked for.
\<close>

record loop_env =
  le_clock :: "nat \<Rightarrow> timeval"
  le_select :: "int \<Rightarrow> int set \<Rightarrow> int set \<Rightarrow> timeval option \<Rightarrow> int \<times> bool \<times> int set \<times> int set"

text \<open>
  The timeout of one iteration, NULL when there is no event; a heap that has elements and no
  first one makes the source exit.
\<close>

definition loop_timeout :: "timeval \<Rightarrow> 'u elist \<Rightarrow> ('u elist \<times> timeval option) option" where
  "loop_timeout time_of_day el =
     (if fr_heap_num_elements (el_times el) > 0
      then (case fr_heap_peek (el_times el) of
              None \<Rightarrow> None
            | Some e \<Rightarrow>
                let el1 = el\<lparr>el_now := time_of_day\<rparr>
                in Some (el1, Some (loop_wake (el_now el1) (ev_when (el_mem el1 e)))))
      else Some (el, None))"

text \<open>One iteration: \<open>Inr\<close> goes on, \<open>Inl\<close> is the \<open>return -1\<close> of a failed \<open>select\<close>.\<close>

definition loop_iteration ::
  "'u callback \<Rightarrow> 'u handler \<Rightarrow> loop_env \<Rightarrow> 'u elist \<Rightarrow> ('u elist + 'u elist) option" where
  "loop_iteration call handle env el =
     (case loop_timeout (le_clock env 0) el of
        None \<Rightarrow> None
      | Some (el1, wake) \<Rightarrow>
          (case le_select env (el_max_fd el1 + 1) (el_read_fds el1) (el_write_fds el1) wake of
             (rcode, eintr, rfds, wfds) \<Rightarrow>
               if rcode < 0 \<and> \<not> eintr then Some (Inl (el1\<lparr>el_dispatch := False\<rparr>))
               else
                 (case (if fr_heap_num_elements (el_times el1) > 0
                        then map_option fst (run_due call (le_clock env) 1 el1) else Some el1) of
                    None \<Rightarrow> None
                  | Some el2 \<Rightarrow>
                      if rcode \<le> 0 then Some (Inr el2)
                      else map_option Inr (serve_fds handle rfds wfds 0 el2))))"

text \<open>The loop over the iterations the outside makes; it is still running when they are used up.\<close>

fun event_iterations ::
  "'u callback \<Rightarrow> 'u handler \<Rightarrow> loop_env list \<Rightarrow> 'u elist \<Rightarrow> ('u elist \<times> int option) option" where
  "event_iterations call handle envs el =
     (if el_exit el \<noteq> 0 then Some (el\<lparr>el_dispatch := False\<rparr>, Some (el_exit el))
      else case envs of
        [] \<Rightarrow> Some (el, None)
      | env # envs' \<Rightarrow>
          (case loop_iteration call handle env el of
             None \<Rightarrow> None
           | Some (Inl el1) \<Rightarrow> Some (el1, Some (- 1))
           | Some (Inr el1) \<Rightarrow> event_iterations call handle envs' el1))"

declare event_iterations.simps [simp del]

definition fr_event_loop ::
  "'u callback \<Rightarrow> 'u handler \<Rightarrow> loop_env list \<Rightarrow> 'u elist \<Rightarrow> ('u elist \<times> int option) option" where
  "fr_event_loop call handle envs el =
     event_iterations call handle envs (el\<lparr>el_exit := 0, el_dispatch := True\<rparr>)"

end
