(* ===== verification/EventTimers.thy ===== *)
theory EventTimers
  imports Event
begin

text \<open>
  The timers of the event list: its consistency, and its abstract view as a map from the owning
  variables to the armed timers. The heap is used through the interface \<open>indexed_heap\<close>.
\<close>

section \<open>Consistency and the abstract view\<close>

definition usecs :: "timeval \<Rightarrow> int" where
  "usecs t = tv_sec t * USEC + tv_usec t"

definition normal_time :: "timeval \<Rightarrow> bool" where
  "normal_time t \<longleftrightarrow> 0 \<le> tv_usec t \<and> tv_usec t < USEC"

lemma time_cmp_less: "time_cmp a b < 0 \<longleftrightarrow> tv_sec a < tv_sec b \<or> tv_sec a = tv_sec b \<and> tv_usec a < tv_usec b"
  by (auto simp: time_cmp_def)

lemma time_cmp_greater: "time_cmp a b > 0 \<longleftrightarrow> tv_sec b < tv_sec a \<or> tv_sec a = tv_sec b \<and> tv_usec b < tv_usec a"
  by (auto simp: time_cmp_def)

lemma time_cmp_usecs: "normal_time a \<Longrightarrow> normal_time b \<Longrightarrow> time_cmp a b < 0 \<longleftrightarrow> usecs a < usecs b"
  by (auto simp: time_cmp_less normal_time_def usecs_def USEC_def)

lemma event_cmp_order [simp]: "cmp_order (fr_event_list_time_cmp mem)"
  by (auto simp: cmp_order_def fr_event_list_time_cmp_def time_cmp_less)

type_synonym timer = "timeval \<times> nat \<times> nat"

text \<open>The armed timer of a variable: its time, its callback and the callback's context.\<close>

definition armed :: "'u elist \<Rightarrow> nat \<Rightarrow> timer option" where
  "armed el v = map_option (\<lambda>e. (ev_when (el_mem el e), ev_callback (el_mem el e), ev_ctx (el_mem el e))) (el_vars el v)"

definition el_inv :: "'u elist \<Rightarrow> bool" where
  "el_inv el \<longleftrightarrow>
     tracked_inv (fr_event_list_time_cmp (el_mem el)) (el_times el) \<and>
     (\<forall>v e. el_vars el v = Some e \<longrightarrow> e \<in> heap_set (el_times el) \<and> ev_parent (el_mem el e) = Some v) \<and>
     (\<forall>e \<in> heap_set (el_times el). \<exists>v. el_vars el v = Some e)"

lemma el_invD:
  assumes "el_inv el"
  shows "tracked_inv (fr_event_list_time_cmp (el_mem el)) (el_times el)"
    and "\<And>v e. el_vars el v = Some e \<Longrightarrow> e \<in> heap_set (el_times el) \<and> ev_parent (el_mem el e) = Some v"
    and "\<And>e. e \<in> heap_set (el_times el) \<Longrightarrow> \<exists>v. el_vars el v = Some e"
  using assms by (auto simp: el_inv_def)

lemma el_vars_inj: "el_inv el \<Longrightarrow> el_vars el v = Some e \<Longrightarrow> el_vars el w = Some e \<Longrightarrow> v = w"
  using el_invD(2) [of el v e] el_invD(2) [of el w e] by simp

lemma zero_event_inv:
  assumes "tracked_inv c h" "x \<notin> heap_set h"
  shows "tracked_inv c (zero_event h x)" "heap_set (zero_event h x) = heap_set h" "hp_size (zero_event h x) = hp_size h"
    "hp_num (zero_event h x) = hp_num h"
  using assms
  by (auto simp: tracked_inv_def zero_event_def heap_inv_def heap_order_def heap_index_def heap_set_def
      heap_elems_def set_cells)

lemma tracked_cong:
  assumes "tracked_inv (fr_event_list_time_cmp mem) h" "\<And>x. x \<in> heap_set h \<Longrightarrow> ev_when (mem' x) = ev_when (mem x)"
  shows "tracked_inv (fr_event_list_time_cmp mem') h"
  using hp.inv_cong [OF assms(1)] assms(2) by (simp add: fr_event_list_time_cmp_def)

lemma heap_room: "tracked_inv c h \<Longrightarrow> card (heap_set h) \<le> hp_size h"
  by (simp add: heap_set_card) (simp add: tracked_inv_def heap_inv_def)

section \<open>Deleting and arming a timer\<close>

lemma event_delete_ok:
  assumes inv: "el_inv el" and v: "el_vars el v = Some e"
  shows "\<exists>h. fr_event_delete el (Some v) = Some (el\<lparr>el_vars := (el_vars el)(v := None), el_times := h\<rparr>, 1) \<and>
     el_inv (el\<lparr>el_vars := (el_vars el)(v := None), el_times := h\<rparr>) \<and>
     heap_set h = heap_set (el_times el) - {e}"
proof -
  note I = el_invD [OF inv]
  have e: "e \<in> heap_set (el_times el)" "ev_parent (el_mem el e) = Some v" using I(2) [OF v] by auto
  obtain h r where x: "fr_heap_extract (fr_event_list_time_cmp (el_mem el)) (el_times el) (Some e) = (h, r)" by fastforce
  note ex = hp.ext_member [OF event_cmp_order I(1) e(1) x]
  have "el_inv (el\<lparr>el_vars := (el_vars el)(v := None), el_times := h\<rparr>)"
    unfolding el_inv_def
  proof (intro conjI allI ballI impI)
    fix u y
    let ?el = "el\<lparr>el_vars := (el_vars el)(v := None), el_times := h\<rparr>"
    show "tracked_inv (fr_event_list_time_cmp (el_mem ?el)) (el_times ?el)" using ex by simp
    show "y \<in> heap_set (el_times ?el)" "ev_parent (el_mem ?el y) = Some u" if "el_vars ?el u = Some y"
      using that ex I(2) [of u y] el_vars_inj [OF inv v, of u] by (auto split: if_splits)
    show "\<exists>u. el_vars ?el u = Some y" if "y \<in> heap_set (el_times ?el)"
    proof -
      have y: "y \<in> heap_set (el_times el)" "y \<noteq> e" using that ex by auto
      then obtain u where "el_vars el u = Some y" using I(3) by blast
      moreover have "u \<noteq> v" using calculation v y(2) by auto
      ultimately show ?thesis by auto
    qed
  qed
  moreover have "fr_event_delete el (Some v) = Some (el\<lparr>el_vars := (el_vars el)(v := None), el_times := h\<rparr>, 1)"
    using ex x e v by (simp add: fr_event_delete_def fr_assert_def)
  ultimately show ?thesis using ex by blast
qed

lemma armed_delete: "armed (el\<lparr>el_vars := (el_vars el)(v := None), el_times := h\<rparr>) = (armed el)(v := None)"
  by (auto simp: armed_def)

lemma event_add_ok:
  fixes el :: "'u elist" and cb ctx v e :: nat and w :: timeval
  assumes inv: "tracked_inv (fr_event_list_time_cmp (el_mem el)) h" "e \<notin> heap_set h"
    and vars: "\<And>u x. u \<noteq> v \<Longrightarrow> el_vars el u = Some x \<Longrightarrow> x \<in> heap_set h \<and> ev_parent (el_mem el x) = Some u"
      "\<And>x. x \<in> heap_set h \<Longrightarrow> \<exists>u. u \<noteq> v \<and> el_vars el u = Some x"
    and room: "ok \<or> card (heap_set h) < hp_size h"
  defines "mem \<equiv> (el_mem el)(e := \<lparr>ev_callback = cb, ev_ctx = ctx, ev_when = w, ev_parent = Some v\<rparr>)"
  shows "\<exists>h'. fr_heap_insert (fr_event_list_time_cmp mem) ok junk (zero_event h e) e = (h', 1) \<and>
     el_inv (el\<lparr>el_mem := mem, el_times := h', el_vars := (el_vars el)(v := Some e)\<rparr>) \<and>
     armed (el\<lparr>el_mem := mem, el_times := h', el_vars := (el_vars el)(v := Some e)\<rparr>) = (armed el)(v := Some (w, cb, ctx))"
proof -
  note z = zero_event_inv [OF inv]
  have t: "tracked_inv (fr_event_list_time_cmp mem) (zero_event h e)"
    by (rule tracked_cong [OF z(1)]) (use inv(2) z(2) in \<open>auto simp: mem_def\<close>)
  obtain h' r where i: "fr_heap_insert (fr_event_list_time_cmp mem) ok junk (zero_event h e) e = (h', r)" by fastforce
  have out: "e \<notin> heap_set (zero_event h e)" using inv(2) z(2) by simp
  have ins: "r = 1 \<and> tracked_inv (fr_event_list_time_cmp mem) h' \<and> heap_set h' = Set.insert e (heap_set h)"
  proof (cases ok)
    case True
    with hp.ins_ok [OF event_cmp_order t out] i z(2) show ?thesis by simp
  next
    case False
    then have "card (heap_set (zero_event h e)) < hp_size (zero_event h e)" using room z(2,3) by simp
    with hp.ins_member [OF event_cmp_order t out _ i] z(2) show ?thesis by simp
  qed
  let ?el = "el\<lparr>el_mem := mem, el_times := h', el_vars := (el_vars el)(v := Some e)\<rparr>"
  have "x \<noteq> e" if "u \<noteq> v" "el_vars el u = Some x" for u x using vars(1) [OF that] inv(2) by auto
  then have "armed ?el u = ((armed el)(v := Some (w, cb, ctx))) u" for u
    by (cases "el_vars el u") (auto simp: armed_def mem_def)
  then have "armed ?el = (armed el)(v := Some (w, cb, ctx))" by (rule ext)
  moreover have "el_inv ?el"
    unfolding el_inv_def
  proof (intro conjI allI ballI impI)
    show "tracked_inv (fr_event_list_time_cmp (el_mem ?el)) (el_times ?el)" using ins by simp
    show "x \<in> heap_set (el_times ?el)" if "el_vars ?el u = Some x" for u x
      using that ins vars(1) [of u x] by (auto split: if_splits)
    show "ev_parent (el_mem ?el x) = Some u" if "el_vars ?el u = Some x" for u x
      using that vars(1) [of u x] inv(2) by (auto simp: mem_def split: if_splits)
    show "\<exists>u. el_vars ?el u = Some x" if "x \<in> heap_set (el_times ?el)" for x
      using that ins vars(2) [of x] by (cases "x = e") auto
  qed
  ultimately show ?thesis using i ins by blast
qed

lemma event_insert_ok:
  assumes inv: "el_inv el" and w: "tv_usec w < USEC"
    and new: "el_vars el v = None \<Longrightarrow> talloc = Some x \<and> x \<notin> heap_set (el_times el) \<and> malloc_ok"
  shows "\<exists>el'. fr_event_insert talloc malloc_ok junk el (Some cb) ctx (Some w) (Some v) = Some (el', 1) \<and>
     el_inv el' \<and> armed el' = (armed el)(v := Some (w, cb, ctx))"
proof (cases "el_vars el v")
  case None
  note I = el_invD [OF inv]
  have "x' \<in> heap_set (el_times el) \<Longrightarrow> \<exists>u. u \<noteq> v \<and> el_vars el u = Some x'" for x'     using I(3) [of x'] None by (metis option.distinct(1))
  with event_add_ok [OF I(1), of x v malloc_ok cb ctx w junk] new [OF None] I(2) None w show ?thesis
    by (fastforce simp: fr_event_insert_def Let_def)
next
  case (Some e)
  note I = el_invD [OF inv]
  have e: "e \<in> heap_set (el_times el)" using I(2) [OF Some] by simp
  obtain h r where x: "fr_heap_extract (fr_event_list_time_cmp (el_mem el)) (el_times el) (Some e) = (h, r)" by fastforce
  note ex = hp.ext_member [OF event_cmp_order I(1) e x]
  have sz: "hp_size h = hp_size (el_times el)"
    using heap_extract_size [of "fr_event_list_time_cmp (el_mem el)" "el_times el" "Some e"] x by simp
  have "card (heap_set h) < card (heap_set (el_times el))"
    using ex e card_Diff1_less [OF hp.finite_elems e] by simp
  with heap_room [OF I(1)] sz have room: "card (heap_set h) < hp_size h" by simp
  have "u \<noteq> v \<Longrightarrow> el_vars el u = Some y \<Longrightarrow> y \<in> heap_set h \<and> ev_parent (el_mem el y) = Some u" for u y
    using I(2) [of u y] ex el_vars_inj [OF inv Some, of u] by auto
  moreover have "\<exists>u. u \<noteq> v \<and> el_vars el u = Some y" if "y \<in> heap_set h" for y
  proof -
    have "y \<in> heap_set (el_times el)" "y \<noteq> e" using that ex by auto
    with I(3) [of y] Some show ?thesis by (metis option.inject)
  qed
  ultimately obtain h' where "fr_heap_insert (fr_event_list_time_cmp ((el_mem el)(e := \<lparr>ev_callback = cb, ev_ctx = ctx, ev_when = w, ev_parent = Some v\<rparr>)))
       malloc_ok junk (zero_event h e) e = (h', 1)"
     "el_inv (el\<lparr>el_mem := (el_mem el)(e := \<lparr>ev_callback = cb, ev_ctx = ctx, ev_when = w, ev_parent = Some v\<rparr>), el_times := h', el_vars := (el_vars el)(v := Some e)\<rparr>)"
     "armed (el\<lparr>el_mem := (el_mem el)(e := \<lparr>ev_callback = cb, ev_ctx = ctx, ev_when = w, ev_parent = Some v\<rparr>), el_times := h', el_vars := (el_vars el)(v := Some e)\<rparr>)
        = (armed el)(v := Some (w, cb, ctx))"
    using event_add_ok [of el h e v malloc_ok cb ctx w junk] ex room by blast
  with x ex Some w show ?thesis by (simp add: fr_event_insert_def Let_def fr_assert_def)
qed

section \<open>Running the first event\<close>

definition later :: "timeval \<Rightarrow> timeval \<Rightarrow> bool" where
  "later a b \<longleftrightarrow> tv_sec a > tv_sec b \<or> tv_sec a = tv_sec b \<and> tv_usec a > tv_usec b"

lemma later_cmp: "later a b \<longleftrightarrow> time_cmp b a < 0"
  by (auto simp: later_def time_cmp_less)

lemma later_trans: "later a b \<Longrightarrow> later b c \<Longrightarrow> later a c"
  by (auto simp: later_def)

lemma not_later_trans: "\<not> later a b \<Longrightarrow> \<not> later b c \<Longrightarrow> \<not> later a c"
  by (auto simp: later_def)

lemma peek_first:
  assumes inv: "el_inv el"
  shows "fr_heap_peek (el_times el) = None \<longleftrightarrow> armed el = (\<lambda>_. None)"
    and "fr_heap_num_elements (el_times el) = 0 \<longleftrightarrow> armed el = (\<lambda>_. None)"
    and "fr_heap_peek (el_times el) = Some e \<Longrightarrow> \<exists>v. el_vars el v = Some e \<and> ev_parent (el_mem el e) = Some v \<and>
      (\<forall>u t. armed el u = Some t \<longrightarrow> \<not> later (ev_when (el_mem el e)) (fst t))"
proof -
  note I = el_invD [OF inv]
  have empty: "heap_set (el_times el) = {} \<longleftrightarrow> armed el = (\<lambda>_. None)"
    using I(2,3) by (force simp: armed_def fun_eq_iff)
  then show "fr_heap_peek (el_times el) = None \<longleftrightarrow> armed el = (\<lambda>_. None)" using hp.pk_None [OF I(1)] by simp
  then show "fr_heap_num_elements (el_times el) = 0 \<longleftrightarrow> armed el = (\<lambda>_. None)"
    by (simp add: fr_heap_peek_def fr_heap_num_elements_def split: if_splits)
  assume "fr_heap_peek (el_times el) = Some e"
  from hp.pk_min [OF event_cmp_order I(1) this]
  have e: "e \<in> heap_set (el_times el)" "\<And>y. y \<in> heap_set (el_times el) \<Longrightarrow> \<not> later (ev_when (el_mem el e)) (ev_when (el_mem el y))"
    by (auto simp: not_after_def fr_event_list_time_cmp_def later_cmp)
  obtain v where "el_vars el v = Some e" using I(3) [OF e(1)] by blast
  with I(2) e(2) show "\<exists>v. el_vars el v = Some e \<and> ev_parent (el_mem el e) = Some v \<and>
      (\<forall>u t. armed el u = Some t \<longrightarrow> \<not> later (ev_when (el_mem el e)) (fst t))"
    by (auto simp: armed_def)
qed

text \<open>What \<open>fr_event_run\<close> does, seen on the armed timers.\<close>

lemma event_run_cases:
  assumes inv: "el_inv el"
  obtains (none) "armed el = (\<lambda>_. None)" "fr_event_run call el now = Some (el, zero_time, 0)"
  | (early) v w cb ctx where "armed el v = Some (w, cb, ctx)" "later w now"
      "\<forall>u t. armed el u = Some t \<longrightarrow> \<not> later w (fst t)" "fr_event_run call el now = Some (el, w, 0)"
  | (run) v w cb ctx el1 where "armed el v = Some (w, cb, ctx)" "\<not> later w now"
      "\<forall>u t. armed el u = Some t \<longrightarrow> \<not> later w (fst t)" "el_inv el1" "armed el1 = (armed el)(v := None)"
      "fr_event_run call el now = Some (call cb ctx el1, now, 1)"
proof (cases "fr_heap_peek (el_times el)")
  case None
  then have "armed el = (\<lambda>_. None)" "fr_heap_num_elements (el_times el) = 0" using peek_first [OF inv] by auto
  then show thesis by (intro none) (simp_all add: fr_event_run_def)
next
  case (Some e)
  obtain v where v: "el_vars el v = Some e" "ev_parent (el_mem el e) = Some v"
    "\<forall>u t. armed el u = Some t \<longrightarrow> \<not> later (ev_when (el_mem el e)) (fst t)" using peek_first(3) [OF inv Some] by blast
  have n: "fr_heap_num_elements (el_times el) \<noteq> 0" using Some peek_first [OF inv] by auto
  let ?ev = "el_mem el e"
  have a: "armed el v = Some (ev_when ?ev, ev_callback ?ev, ev_ctx ?ev)" using v(1) by (simp add: armed_def)
  show thesis
  proof (cases "later (ev_when ?ev) now")
    case True
    then have "fr_event_run call el now = Some (el, ev_when ?ev, 0)"
      using n Some by (simp add: fr_event_run_def later_def Let_def)
    from early [OF a True v(3) this] show thesis .
  next
    case False
    obtain h where h: "fr_event_delete el (Some v) = Some (el\<lparr>el_vars := (el_vars el)(v := None), el_times := h\<rparr>, 1)"
      "el_inv (el\<lparr>el_vars := (el_vars el)(v := None), el_times := h\<rparr>)"
      using event_delete_ok [OF inv v(1)] by blast
    then have "fr_event_run call el now =
        Some (call (ev_callback ?ev) (ev_ctx ?ev) (el\<lparr>el_vars := (el_vars el)(v := None), el_times := h\<rparr>), now, 1)"
      using n Some False v(2) by (simp add: fr_event_run_def later_def Let_def)
    from run [OF a False v(3) h(2) armed_delete this] show thesis .
  qed
qed

section \<open>Sequences of calls\<close>

text \<open>
  The calls of a user: arming the timer of a variable (the allocator gives a fresh event when it
  is not armed), cancelling it, and running the first event when it is due. The results are
  the return codes, with the time \<open>fr_event_run\<close> leaves in its argument.
\<close>

datatype ev_op = Arm nat nat nat timeval | Cancel nat | Run timeval

datatype ev_out = Code int | Ran timeval int

fun ev_step ::
  "'u callback \<Rightarrow> ('u elist \<Rightarrow> nat) \<Rightarrow> (nat \<Rightarrow> nat) \<Rightarrow> 'u elist \<Rightarrow> ev_op \<Rightarrow> ('u elist \<times> ev_out) option" where
  "ev_step call alloc junk el (Arm v cb ctx w) =
     map_option (map_prod id Code) (fr_event_insert (Some (alloc el)) True junk el (Some cb) ctx (Some w) (Some v))"
| "ev_step call alloc junk el (Cancel v) = map_option (map_prod id Code) (fr_event_delete el (Some v))"
| "ev_step call alloc junk el (Run now) = map_option (\<lambda>(el', w, r). (el', Ran w r)) (fr_event_run call el now)"

fun ev_exec ::
  "'u callback \<Rightarrow> ('u elist \<Rightarrow> nat) \<Rightarrow> (nat \<Rightarrow> nat) \<Rightarrow> 'u elist \<Rightarrow> ev_op list \<Rightarrow> ('u elist \<times> ev_out list) option" where
  "ev_exec call alloc junk el [] = Some (el, [])"
| "ev_exec call alloc junk el (op # ops) =
     (case ev_step call alloc junk el op of
        None \<Rightarrow> None
      | Some (el1, out) \<Rightarrow> map_option (\<lambda>(el2, outs). (el2, out # outs)) (ev_exec call alloc junk el1 ops))"

text \<open>
  The reference: a map from variables to timers. \<open>effect\<close> is what the callbacks do to the map;
  running takes a timer no other one precedes.
\<close>

inductive timers_step ::
  "(nat \<Rightarrow> nat \<Rightarrow> (nat \<Rightarrow> timer option) \<Rightarrow> nat \<Rightarrow> timer option) \<Rightarrow>
   (nat \<Rightarrow> timer option) \<Rightarrow> ev_op \<Rightarrow> ev_out \<Rightarrow> (nat \<Rightarrow> timer option) \<Rightarrow> bool" for effect where
  arm: "tv_usec w < USEC \<Longrightarrow> timers_step effect M (Arm v cb ctx w) (Code 1) (M(v := Some (w, cb, ctx)))"
| refuse: "\<not> tv_usec w < USEC \<Longrightarrow> timers_step effect M (Arm v cb ctx w) (Code 0) M"
| cancel: "M v \<noteq> None \<Longrightarrow> timers_step effect M (Cancel v) (Code 1) (M(v := None))"
| unarmed: "M v = None \<Longrightarrow> timers_step effect M (Cancel v) (Code 0) M"
| none: "timers_step effect (\<lambda>_. None) (Run now) (Ran zero_time 0) (\<lambda>_. None)"
| early: "M v = Some (w, cb, ctx) \<Longrightarrow> \<forall>u t. M u = Some t \<longrightarrow> \<not> later w (fst t) \<Longrightarrow> later w now \<Longrightarrow>
    timers_step effect M (Run now) (Ran w 0) M"
| run: "M v = Some (w, cb, ctx) \<Longrightarrow> \<forall>u t. M u = Some t \<longrightarrow> \<not> later w (fst t) \<Longrightarrow> \<not> later w now \<Longrightarrow>
    timers_step effect M (Run now) (Ran now 1) (effect cb ctx (M(v := None)))"

inductive timers_run ::
  "(nat \<Rightarrow> nat \<Rightarrow> (nat \<Rightarrow> timer option) \<Rightarrow> nat \<Rightarrow> timer option) \<Rightarrow>
   (nat \<Rightarrow> timer option) \<Rightarrow> ev_op list \<Rightarrow> ev_out list \<Rightarrow> (nat \<Rightarrow> timer option) \<Rightarrow> bool" for effect where
  stop: "timers_run effect M [] [] M"
| more: "timers_step effect M op out M1 \<Longrightarrow> timers_run effect M1 ops outs M2 \<Longrightarrow>
    timers_run effect M (op # ops) (out # outs) M2"

definition callbacks_do ::
  "'u callback \<Rightarrow> (nat \<Rightarrow> nat \<Rightarrow> (nat \<Rightarrow> timer option) \<Rightarrow> nat \<Rightarrow> timer option) \<Rightarrow> bool" where
  "callbacks_do call effect \<longleftrightarrow>
     (\<forall>cb ctx el. el_inv el \<longrightarrow> el_inv (call cb ctx el) \<and> armed (call cb ctx el) = effect cb ctx (armed el))"

lemma ev_step_refines:
  assumes "el_inv el" "callbacks_do call effect" "\<And>el. alloc el \<notin> heap_set (el_times el)"
  shows "\<exists>el' out. ev_step call alloc junk el op = Some (el', out) \<and> el_inv el' \<and>
     timers_step effect (armed el) op out (armed el')"
proof (cases op)
  case (Arm v cb ctx w)
  show ?thesis
  proof (cases "tv_usec w < USEC")
    case True
    with event_insert_ok [OF assms(1) True, of v "Some (alloc el)" "alloc el" True junk cb ctx] assms(3) Arm show ?thesis
      by (auto intro: timers_step.arm)
  next
    case False
    then show ?thesis using Arm assms(1) by (auto simp: fr_event_insert_def intro: timers_step.refuse)
  qed
next
  case (Cancel v)
  show ?thesis
  proof (cases "el_vars el v")
    case None
    then show ?thesis using Cancel assms(1)
      by (auto simp: fr_event_delete_def armed_def intro!: timers_step.unarmed)
  next
    case (Some e)
    with event_delete_ok [OF assms(1) Some] Cancel timers_step.cancel [of "armed el" v effect]
    show ?thesis by (auto simp: armed_delete) (auto simp: armed_def)
  qed
next
  case (Run now)
  from assms(1) show ?thesis
  proof (cases rule: event_run_cases [of el call now])
    case none
    then show ?thesis using Run assms(1) timers_step.none [of effect now] by auto
  next
    case (early v w cb ctx)
    then show ?thesis using Run assms(1) timers_step.early [OF early(1,3,2), of effect] by auto
  next
    case (run v w cb ctx el1)
    then show ?thesis using Run assms(2) timers_step.run [OF run(1,3,2), of effect] by (auto simp: callbacks_do_def)
  qed
qed

lemma ev_exec_refines:
  assumes "callbacks_do call effect" "\<And>el. alloc el \<notin> heap_set (el_times el)" "el_inv el"
  shows "\<exists>el' outs. ev_exec call alloc junk el ops = Some (el', outs) \<and> el_inv el' \<and>
     timers_run effect (armed el) ops outs (armed el')"
  using assms(3)
proof (induction ops arbitrary: el)
  case (Cons op ops)
  obtain el1 out where 1: "ev_step call alloc junk el op = Some (el1, out)" "el_inv el1"
    "timers_step effect (armed el) op out (armed el1)" using ev_step_refines [OF Cons.prems assms(1,2)] by blast
  from Cons.IH [OF 1(2)] 1 show ?case by (auto intro: timers_run.more)
qed (auto intro: timers_run.stop)

lemma event_list_create_inv:
  assumes "fr_event_list_create True True True off junk pos mem user = Some el" "off \<noteq> 0"
  shows "el_inv el" "armed el = (\<lambda>_. None)"
  using assms heap_create_tracked [of True True True off junk pos]
  by (auto simp: fr_event_list_create_def el_inv_def armed_def fun_eq_iff split: option.splits)

section \<open>The loop runs what is due\<close>

definition due :: "timeval \<Rightarrow> 'u elist \<Rightarrow> nat set" where
  "due T el = {v. \<exists>t. armed el v = Some t \<and> \<not> later (fst t) T}"

text \<open>A callback may cancel timers and arm others after \<open>T\<close>.\<close>

definition callbacks_after :: "timeval \<Rightarrow> 'u callback \<Rightarrow> bool" where
  "callbacks_after T call \<longleftrightarrow>
     (\<forall>cb ctx el. el_inv el \<longrightarrow> el_inv (call cb ctx el) \<and>
        (\<forall>v t. armed (call cb ctx el) v = Some t \<longrightarrow> \<not> later (fst t) T \<longrightarrow> armed el v = Some t))"

lemma el_frame [simp]:
  "el_inv (el\<lparr>el_now := x\<rparr>) = el_inv el" "armed (el\<lparr>el_now := x\<rparr>) = armed el" "due T (el\<lparr>el_now := x\<rparr>) = due T el"
  by (simp_all add: el_inv_def armed_def due_def fun_eq_iff)

lemma finite_armed: "el_inv el \<Longrightarrow> finite (dom (armed el))"
proof -
  assume inv: "el_inv el"
  have "dom (armed el) \<subseteq> (\<lambda>e. THE v. el_vars el v = Some e) ` heap_set (el_times el)"
  proof
    fix v assume "v \<in> dom (armed el)"
    then obtain e where e: "el_vars el v = Some e" by (auto simp: armed_def)
    then have "(THE v. el_vars el v = Some e) = v" using el_vars_inj [OF inv] by blast
    with el_invD(2) [OF inv e] show "v \<in> (\<lambda>e. THE v. el_vars el v = Some e) ` heap_set (el_times el)" by force
  qed
  then show ?thesis by (rule finite_subset) (simp add: hp.finite_elems)
qed

lemma finite_due: "el_inv el \<Longrightarrow> finite (due T el)"
  by (rule finite_subset [OF _ finite_armed]) (auto simp: due_def)

lemma later_of_min: "later w now \<Longrightarrow> \<not> later w t \<Longrightarrow> later t now"
  by (auto simp: later_def)

lemma run_due_ends:
  assumes call: "callbacks_after T call" and clock: "\<And>k. \<not> later (clock k) T" and inv: "el_inv el"
  shows "\<exists>el' when k'. run_due call clock k el = Some (el', when, k') \<and> k < k' \<and> k' \<le> Suc (k + card (due T el)) \<and>
     el_inv el' \<and> (\<forall>v t. armed el' v = Some t \<longrightarrow> later (fst t) (clock (k' - 1)))"
  using inv
proof (induction "card (due T el)" arbitrary: el k rule: less_induct)
  case less
  let ?el = "el\<lparr>el_now := clock k\<rparr>"
  have inv: "el_inv ?el" using less.prems by simp
  from inv show ?case
  proof (cases rule: event_run_cases [of ?el call "clock k"])
    case none
    then have "run_due call clock k el = Some (?el, zero_time, Suc k)" by (subst run_due.simps) simp
    moreover have "armed ?el v = None" for v using none(1) by (rule fun_cong)
    ultimately show ?thesis using inv by (intro exI [of _ ?el] exI [of _ zero_time] exI [of _ "Suc k"]) simp
  next
    case (early v w cb ctx)
    then have "run_due call clock k el = Some (?el, w, Suc k)" by (subst run_due.simps) simp
    moreover have "later (fst t) (clock k)" if "armed ?el u = Some t" for u t
      using later_of_min [OF early(2)] early(3) that by blast
    ultimately show ?thesis using inv by (intro exI [of _ ?el] exI [of _ w] exI [of _ "Suc k"]) simp
  next
    case (run v w cb ctx el1)
    let ?el2 = "call cb ctx el1"
    have "\<not> later w T" using not_later_trans [OF run(2) clock] .
    then have v: "v \<in> due T el" using run(1) by (simp add: due_def)
    have 2: "el_inv ?el2" using call run(4) by (simp add: callbacks_after_def)
    have sub: "due T ?el2 \<subseteq> due T el - {v}"
    proof
      fix u assume "u \<in> due T ?el2"
      then obtain t where t: "armed ?el2 u = Some t" "\<not> later (fst t) T" by (auto simp: due_def)
      then have "armed el1 u = Some t" using call run(4) unfolding callbacks_after_def by blast
      then have "armed el u = Some t" "u \<noteq> v" using run(5) by (auto split: if_splits)
      with t(2) show "u \<in> due T el - {v}" unfolding due_def by blast
    qed
    have fin: "finite (due T el)" using finite_due less.prems by blast
    then have c: "card (due T ?el2) < card (due T el)"
      using sub v by (meson card_Diff1_less card_mono finite_Diff le_less_trans)
    from less.hyps [OF this 2, of "Suc k"] obtain el' w' k' where
      k': "run_due call clock (Suc k) ?el2 = Some (el', w', k')" "Suc k < k'"
      "k' \<le> Suc (Suc k + card (due T ?el2))" "el_inv el'"
      "\<forall>v t. armed el' v = Some t \<longrightarrow> later (fst t) (clock (k' - 1))" by blast
    have "run_due call clock k el = Some (el', w', k')"
      using run(6) k'(1) by (subst run_due.simps) simp
    moreover have "k < k'" "k' \<le> Suc (k + card (due T el))" using k'(2,3) c by linarith+
    ultimately show ?thesis using k'(4,5) by blast
  qed
qed

section \<open>Freeing the list\<close>

lemma event_list_free_ends:
  assumes "el_inv el" "el_vars el ev = None"
  shows "\<exists>el'. event_list_free ev el = Some el' \<and> el_inv el' \<and> armed el' = (\<lambda>_. None)"
  using assms
proof (induction "card (heap_set (el_times el))" arbitrary: el rule: less_induct)
  case less
  note inv = less.prems(1) and I = el_invD [OF less.prems(1)]
  show ?case
  proof (cases "fr_heap_peek (el_times el)")
    case None
    with inv peek_first(1) [OF inv] show ?thesis by (subst event_list_free.simps) simp
  next
    case (Some e)
    obtain v where v: "el_vars el v = Some e" "ev_parent (el_mem el e) = Some v" using peek_first(3) [OF inv Some] by blast
    obtain h where h: "fr_event_delete el (Some v) = Some (el\<lparr>el_vars := (el_vars el)(v := None), el_times := h\<rparr>, 1)"
      "el_inv (el\<lparr>el_vars := (el_vars el)(v := None), el_times := h\<rparr>)" "heap_set h = heap_set (el_times el) - {e}"
      using event_delete_ok [OF inv v(1)] by blast
    let ?el = "el\<lparr>el_vars := (el_vars el)(v := None), el_times := h\<rparr>"
    have ne: "v \<noteq> ev" using v(1) less.prems(2) by auto
    have "fr_heap_extract (fr_event_list_time_cmp (el_mem el)) (el_times el) (Some e) = (h, 1)"
      using h(1) v by (auto simp: fr_event_delete_def fr_assert_def split: prod.splits if_splits
          dest!: arg_cong [of _ _ el_times])
    moreover have "(el_vars el)(ev := Some e, v := None, ev := None) = (el_vars el)(v := None)"
      using less.prems(2) ne by auto
    ultimately have "fr_event_delete (el\<lparr>el_vars := (el_vars el)(ev := Some e)\<rparr>) (Some ev) = Some (?el, 1)"
      using v ne by (simp add: fr_event_delete_def fr_assert_def)
    then have "event_list_free ev el = event_list_free ev ?el"
      using Some by (subst event_list_free.simps) simp
    moreover have "card (heap_set (el_times ?el)) < card (heap_set (el_times el))"
      using h(3) card_Diff1_less [OF hp.finite_elems conjunct1 [OF I(2) [OF v(1)]]] by simp
    moreover have "el_vars ?el ev = None" using less.prems(2) by simp
    ultimately show ?thesis using less.hyps [OF _ h(2)] by simp
  qed
qed

section \<open>Properties\<close>

text \<open>
  C14: from the creation of an event list, every sequence of arming, cancelling and running timers
  is carried out without a failed assertion and behaves like a map from variables to timers:
  arming an armed variable moves its timer, cancelling clears exactly that variable, and
  \<open>fr_event_run\<close> takes a timer that no other one precedes, only when its time has come, clears
  its variable before the callback runs, and otherwise reports the time to wait for.
\<close>

theorem event_list_refines_timers:
  assumes "fr_event_list_create True True True off junk pos mem user = Some el" "off \<noteq> 0"
    and "callbacks_do call effect" "\<And>el. alloc el \<notin> heap_set (el_times el)"
  shows "\<exists>el' outs. ev_exec call alloc junk' el ops = Some (el', outs) \<and> el_inv el' \<and>
     timers_run effect (\<lambda>_. None) ops outs (armed el')"
  using ev_exec_refines [OF assms(3,4) event_list_create_inv(1) [OF assms(1,2)], of junk' ops]
    event_list_create_inv(2) [OF assms(1,2)] by simp

definition fresh_event :: "unit elist \<Rightarrow> nat" where
  "fresh_event el = Suc (sum_list (cells (hp_p (el_times el)) (hp_num (el_times el))))"

lemma fresh_event: "fresh_event el \<notin> heap_set (el_times el)"
proof
  assume "fresh_event el \<in> heap_set (el_times el)"
  then have "fresh_event el \<le> sum_list (cells (hp_p (el_times el)) (hp_num (el_times el)))"
    by (simp add: heap_set_def heap_elems_def member_le_sum_list)
  then show False by (simp add: fresh_event_def)
qed

definition idle_callback :: "unit callback" where
  "idle_callback cb ctx el = el"

definition at_sec :: "int \<Rightarrow> timeval" where
  "at_sec s = \<lparr>tv_sec = s, tv_usec = 0\<rparr>"

inductive_cases timers_runE: "timers_run effect M (op # ops) outs M'"
inductive_cases timers_cancelE: "timers_step effect M (Cancel v) out M'"

theorem event_list_refines_timers_witness:
  "\<exists>el el' outs. fr_event_list_create True True True 8 (\<lambda>_. 0) (\<lambda>_. 0) (\<lambda>_. undefined) () = Some el \<and>
     ev_exec idle_callback fresh_event (\<lambda>_. 0) el [Cancel 3, Arm 3 1 2 (at_sec 10), Arm 4 1 2 (at_sec 5), Run (at_sec 7)] =
       Some (el', outs) \<and> hd outs = Code 0"
proof -
  obtain el :: "unit elist" where c: "fr_event_list_create True True True 8 (\<lambda>_. 0) (\<lambda>_. 0) (\<lambda>_. undefined) () = Some el"
    by (simp add: fr_event_list_create_def fr_heap_create_def)
  have "callbacks_do idle_callback (\<lambda>_ _ M. M)" by (simp add: callbacks_do_def idle_callback_def)
  from event_list_refines_timers [OF c _ this fresh_event, of "\<lambda>_. 0"
      "[Cancel 3, Arm 3 1 2 (at_sec 10), Arm 4 1 2 (at_sec 5), Run (at_sec 7)]"]
  obtain el' outs where e: "ev_exec idle_callback fresh_event (\<lambda>_. 0) el
      [Cancel 3, Arm 3 1 2 (at_sec 10), Arm 4 1 2 (at_sec 5), Run (at_sec 7)] = Some (el', outs)"
    "timers_run (\<lambda>_ _ M. M) (\<lambda>_. None) [Cancel 3, Arm 3 1 2 (at_sec 10), Arm 4 1 2 (at_sec 5), Run (at_sec 7)] outs (armed el')"
    by auto
  then have "hd outs = Code 0" by (auto elim!: timers_runE timers_cancelE)
  with c e show ?thesis by blast
qed

text \<open>
  The time for which an iteration of the loop lets \<open>select\<close> sleep. Without an armed timer it is
  NULL. Otherwise there is an armed timer that no other one precedes, and the timeout is exactly
  the time until it, or 0 when it has passed, with microseconds below a second.
\<close>

lemma loop_timeout_exact:
  assumes "el_inv el" "normal_time now" "\<And>v t. armed el v = Some t \<Longrightarrow> normal_time (fst t)"
  shows "case loop_timeout now el of
     None \<Rightarrow> False
   | Some (el1, None) \<Rightarrow> el1 = el \<and> armed el = (\<lambda>_. None)
   | Some (el1, Some wake) \<Rightarrow> el1 = el\<lparr>el_now := now\<rparr> \<and> normal_time wake \<and>
       (\<exists>v w cb ctx. armed el v = Some (w, cb, ctx) \<and> usecs wake = max 0 (usecs w - usecs now) \<and>
          (\<forall>u t. armed el u = Some t \<longrightarrow> usecs w \<le> usecs (fst t)))"
proof (cases "fr_heap_peek (el_times el)")
  case None
  then have "fr_heap_num_elements (el_times el) = 0" "armed el = (\<lambda>_. None)" using peek_first [OF assms(1)] by auto
  then show ?thesis by (simp add: loop_timeout_def)
next
  case (Some e)
  then have n: "fr_heap_num_elements (el_times el) > 0" using peek_first [OF assms(1)] by fastforce
  obtain v where v: "el_vars el v = Some e" "\<forall>u t. armed el u = Some t \<longrightarrow> \<not> later (ev_when (el_mem el e)) (fst t)"
    using peek_first(3) [OF assms(1) Some] by blast
  let ?w = "ev_when (el_mem el e)"
  have a: "armed el v = Some (?w, ev_callback (el_mem el e), ev_ctx (el_mem el e))" using v(1) by (simp add: armed_def)
  then have nw: "normal_time ?w" using assms(3) by fastforce
  have "normal_time (loop_wake now ?w) \<and> usecs (loop_wake now ?w) = max 0 (usecs ?w - usecs now)"
    using assms(2) nw by (auto simp: loop_wake_def Let_def time_cmp_less normal_time_def usecs_def USEC_def zero_time_def)
  moreover have "usecs ?w \<le> usecs (fst t)" if "armed el u = Some t" for u t
  proof -
    have "\<not> later ?w (fst t)" using v(2) that by blast
    with time_cmp_usecs [OF assms(3) [OF that] nw] show ?thesis by (simp add: later_cmp)
  qed
  moreover have "loop_timeout now el = Some (el\<lparr>el_now := now\<rparr>, Some (loop_wake now ?w))"
    using n Some by (simp add: loop_timeout_def Let_def)
  ultimately have "loop_timeout now el = Some (el\<lparr>el_now := now\<rparr>, Some (loop_wake now ?w))"
    "normal_time (loop_wake now ?w)"
    "\<exists>v w cb ctx. armed el v = Some (w, cb, ctx) \<and> usecs (loop_wake now ?w) = max 0 (usecs w - usecs now) \<and>
       (\<forall>u t. armed el u = Some t \<longrightarrow> usecs w \<le> usecs (fst t))" using a by blast+
  then show ?thesis by (simp only: option.case prod.case simp_thms)
qed

text \<open>A list with one armed timer, that of variable 3 at second 10.\<close>

definition demo_event :: event where
  "demo_event = \<lparr>ev_callback = 1, ev_ctx = 2, ev_when = at_sec 10, ev_parent = Some 3\<rparr>"

definition demo_elist :: "unit elist" where
  "demo_elist = \<lparr>el_times = \<lparr>hp_size = 2048, hp_num = 1, hp_offset = 8, hp_p = (\<lambda>_. 7), hp_pos = (\<lambda>_. 0)\<rparr>,
     el_mem = (\<lambda>_. demo_event), el_vars = (\<lambda>v. if v = 3 then Some 7 else None), el_exit = 0,
     el_now = zero_time, el_dispatch = True, el_num_readers = 0, el_max_readers = 0, el_max_fd = 0,
     el_read_fds = {}, el_write_fds = {}, el_readers = replicate FR_EV_MAX_FDS empty_fd, el_user = ()\<rparr>"

lemma demo_elist_inv: "el_inv demo_elist" "armed demo_elist v = (if v = 3 then Some (at_sec 10, 1, 2) else None)"
proof -
  have h: "heap_set (el_times demo_elist) = {7}"
    by (simp add: demo_elist_def heap_set_def heap_elems_def cells_def)
  have "tracked_inv (fr_event_list_time_cmp (el_mem demo_elist)) (el_times demo_elist)"
    by (simp add: demo_elist_def tracked_inv_def heap_inv_def heap_order_def heap_index_def)
  with h show "el_inv demo_elist" by (simp add: el_inv_def) (simp add: demo_elist_def demo_event_def)
qed (simp add: armed_def demo_elist_def demo_event_def)

lemma demo_normal: "armed demo_elist v = Some t \<Longrightarrow> normal_time (fst t)"
  by (auto simp: demo_elist_inv normal_time_def USEC_def at_sec_def split: if_splits)

lemma loop_timeout_exact_witness:
  "\<exists>el1 wake. loop_timeout \<lparr>tv_sec = 8, tv_usec = 250000\<rparr> demo_elist = Some (el1, Some wake) \<and> usecs wake = 1750000"
proof -
  let ?now = "\<lparr>tv_sec = 8, tv_usec = 250000\<rparr>"
  have "normal_time ?now" by (simp add: normal_time_def USEC_def)
  moreover have "\<And>v t. armed demo_elist v = Some t \<Longrightarrow> normal_time (fst t)" by (rule demo_normal)
  ultimately have l: "case loop_timeout ?now demo_elist of
     None \<Rightarrow> False
   | Some (el1, None) \<Rightarrow> el1 = demo_elist \<and> armed demo_elist = (\<lambda>_. None)
   | Some (el1, Some wake) \<Rightarrow> el1 = demo_elist\<lparr>el_now := ?now\<rparr> \<and> normal_time wake \<and>
       (\<exists>v w cb ctx. armed demo_elist v = Some (w, cb, ctx) \<and> usecs wake = max 0 (usecs w - usecs ?now) \<and>
          (\<forall>u t. armed demo_elist u = Some t \<longrightarrow> usecs w \<le> usecs (fst t)))"
    by (rule loop_timeout_exact [OF demo_elist_inv(1)])
  have "armed demo_elist \<noteq> (\<lambda>_. None)" by (simp add: demo_elist_inv fun_eq_iff)
  with l obtain el1 wake v w cb ctx where r: "loop_timeout ?now demo_elist = Some (el1, Some wake)"
    "armed demo_elist v = Some (w, cb, ctx)" "usecs wake = max 0 (usecs w - usecs ?now)"
    by (auto split: option.splits)
  then have "w = at_sec 10" by (simp add: demo_elist_inv split: if_splits)
  with r show ?thesis by (simp add: usecs_def at_sec_def USEC_def)
qed


definition timeout_env :: loop_env where
  "timeout_env = \<lparr>le_clock = (\<lambda>k. at_sec (if k < 2 then 9 else 10)), le_select = (\<lambda>n r w t. (0, False, {}, {}))\<rparr>"


end
