(* ===== verification/EventFd.thy ===== *)
theory EventFd
  imports Event
begin

text \<open>
  The socket table of the event list: the entries in use, the descriptor sets for \<open>select\<close> and the
  counters agree, as long as no descriptor is inserted twice and all are below \<^verbatim>\<open>FD_SETSIZE\<close>.
\<close>

definition used :: "'u elist \<Rightarrow> nat set" where
  "used el = {i. i < FR_EV_MAX_FDS \<and> ef_fd (el_readers el ! i) \<ge> 0}"

definition fd_inv :: "'u elist \<Rightarrow> bool" where
  "fd_inv el \<longleftrightarrow>
     length (el_readers el) = FR_EV_MAX_FDS \<and> el_num_readers el = card (used el) \<and>
     el_max_readers el \<le> FR_EV_MAX_FDS \<and> (\<forall>i \<in> used el. i < el_max_readers el) \<and>
     el_read_fds el = (\<lambda>i. ef_fd (el_readers el ! i)) ` used el \<and>
     inj_on (\<lambda>i. ef_fd (el_readers el ! i)) (used el) \<and>
     (\<forall>fd \<in> el_read_fds el. fd < FD_SETSIZE \<and> fd \<le> el_max_fd el) \<and> el_write_fds el \<subseteq> el_read_fds el"

text \<open>The handler and context the entries register for a descriptor.\<close>

definition serves :: "'u elist \<Rightarrow> int \<Rightarrow> nat \<Rightarrow> nat \<Rightarrow> bool" where
  "serves el fd h c \<longleftrightarrow>
     (\<exists>i \<in> used el. ef_fd (el_readers el ! i) = fd \<and> ef_handler (el_readers el ! i) = h \<and> ef_ctx (el_readers el ! i) = c)"

lemma fd_invD:
  assumes "fd_inv el"
  shows "length (el_readers el) = FR_EV_MAX_FDS" "el_num_readers el = card (used el)"
    "el_max_readers el \<le> FR_EV_MAX_FDS" "\<And>i. i \<in> used el \<Longrightarrow> i < el_max_readers el"
    "el_read_fds el = (\<lambda>i. ef_fd (el_readers el ! i)) ` used el"
    "inj_on (\<lambda>i. ef_fd (el_readers el ! i)) (used el)"
    "\<And>fd. fd \<in> el_read_fds el \<Longrightarrow> fd < FD_SETSIZE \<and> fd \<le> el_max_fd el" "el_write_fds el \<subseteq> el_read_fds el"
  using assms by (auto simp: fd_inv_def)

lemma finite_used_fds [simp]: "finite (used el)"
  by (simp add: used_def)

lemma find_fd_Some: "find_fd readers fd i k = Some j \<Longrightarrow> i \<le> j \<and> j < i + k \<and> ef_fd (readers ! j) = fd"
  by (induction readers fd i k rule: find_fd.induct) (auto split: if_splits)

lemma find_fd_None: "find_fd readers fd i k = None \<Longrightarrow> i \<le> j \<Longrightarrow> j < i + k \<Longrightarrow> ef_fd (readers ! j) \<noteq> fd"
proof (induction readers fd i k rule: find_fd.induct)
  case (2 readers fd i k)
  then show ?case by (cases "j = i") (auto split: if_splits)
qed simp

lemma find_slot_Free:
  assumes "\<And>j. i \<le> j \<Longrightarrow> j < i + k \<Longrightarrow> j < length readers \<Longrightarrow> ef_fd (readers ! j) \<noteq> fd"
    and "i \<le> f" "f < i + k" "f < length readers" "ef_fd (readers ! f) < 0"
  shows "\<exists>j. find_slot readers fd i k = Some (Free j) \<and> i \<le> j \<and> j \<le> f \<and> ef_fd (readers ! j) < 0"
  using assms
proof (induction readers fd i k rule: find_slot.induct)
  case (2 readers fd i k)
  show ?case
  proof (cases "ef_fd (readers ! i) < 0")
    case True
    then show ?thesis using 2(2) [of i] 2(3-6) by auto
  next
    case False
    then have "Suc i \<le> f" using 2(3,6) by (metis le_eq_less_or_eq Suc_leI)
    with 2(1) [of ] 2(2-6) False show ?thesis by (fastforce dest: Suc_leD)
  qed
qed simp

text \<open>With fewer than all entries in use, one is free up to \<open>max_readers\<close>.\<close>

lemma free_entry:
  assumes inv: "fd_inv el" and n: "el_num_readers el < FR_EV_MAX_FDS"
  shows "\<exists>f. f < Suc (el_max_readers el) \<and> f < FR_EV_MAX_FDS \<and> ef_fd (el_readers el ! f) < 0"
proof (cases "el_max_readers el = FR_EV_MAX_FDS")
  case True
  have "used el \<noteq> {..<FR_EV_MAX_FDS}" using n fd_invD(2) [OF inv] by (metis card_lessThan less_irrefl)
  moreover have "used el \<subseteq> {..<FR_EV_MAX_FDS}" by (auto simp: used_def)
  ultimately obtain f where "f < FR_EV_MAX_FDS" "f \<notin> used el" by blast
  with True show ?thesis by (intro exI [of _ f]) (auto simp: used_def not_le)
next
  case False
  then have m: "el_max_readers el < FR_EV_MAX_FDS" using fd_invD(3) [OF inv] by simp
  have "el_max_readers el \<notin> used el" using fd_invD(4) [OF inv] by blast
  with m show ?thesis by (auto simp: used_def not_le)
qed

lemma fd_insert_ok:
  assumes inv: "fd_inv el" and fd: "0 \<le> fd" "fd < FD_SETSIZE" "fd \<notin> el_read_fds el"
    and n: "el_num_readers el < FR_EV_MAX_FDS"
  shows "\<exists>el'. fr_event_fd_insert el 0 fd (Some h) (Some c) = Some (el', 1) \<and> fd_inv el' \<and>
     el_read_fds el' = insert fd (el_read_fds el) \<and>
     (\<forall>fd' h' c'. serves el' fd' h' c' \<longleftrightarrow> (if fd' = fd then h' = h \<and> c' = c else serves el fd' h' c'))"
proof -
  note I = fd_invD [OF inv]
  obtain f where f: "f < Suc (el_max_readers el)" "f < FR_EV_MAX_FDS" "ef_fd (el_readers el ! f) < 0"
    using free_entry [OF inv n] by blast
  have "ef_fd (el_readers el ! j) \<noteq> fd" if "j < length (el_readers el)" for j
    using that fd I(1,5) by (auto simp: used_def)
  then obtain j where s: "find_slot (el_readers el) fd 0 (Suc (el_max_readers el)) = Some (Free j)" "j \<le> f"
    "ef_fd (el_readers el ! j) < 0"
    using find_slot_Free [of 0 "Suc (el_max_readers el)" "el_readers el" fd f] f I(1) by auto
  have j: "j < FR_EV_MAX_FDS" "j \<notin> used el" "j \<le> el_max_readers el" using s f by (auto simp: used_def)
  define rd where "rd = (el_readers el)[j := (el_readers el ! j)\<lparr>ef_fd := fd, ef_handler := h, ef_ctx := c\<rparr>]"
  define el' where "el' = el\<lparr>el_num_readers := el_num_readers el + 1,
     el_max_readers := (if j = el_max_readers el then j + 1 else el_max_readers el),
     el_read_fds := insert fd (el_read_fds el),
     el_max_fd := (if el_max_fd el \<le> fd then fd else el_max_fd el), el_readers := rd\<rparr>"
  have at: "rd ! j = (el_readers el ! j)\<lparr>ef_fd := fd, ef_handler := h, ef_ctx := c\<rparr>"
    and off: "i \<noteq> j \<Longrightarrow> rd ! i = el_readers el ! i" for i
    using j I(1) by (auto simp: rd_def)
  have u: "used el' = insert j (used el)"
  proof (rule set_eqI)
    fix i show "i \<in> used el' \<longleftrightarrow> i \<in> insert j (used el)"
      using j fd at off [of i] by (cases "i = j") (auto simp: used_def el'_def)
  qed
  have same: "rd ! i = el_readers el ! i" if "i \<in> used el" for i
    using that j(2) by (intro off) auto
  have img: "(\<lambda>i. ef_fd (rd ! i)) ` used el = (\<lambda>i. ef_fd (el_readers el ! i)) ` used el"
    using same by (intro image_cong) auto
  have inj: "inj_on (\<lambda>i. ef_fd (rd ! i)) (used el)"
  proof (rule inj_onI)
    fix a b assume "a \<in> used el" "b \<in> used el" "ef_fd (rd ! a) = ef_fd (rd ! b)"
    then show "a = b" using inj_onD [OF I(6), of a b] same by simp
  qed
  have "fd_inv el'"
    unfolding fd_inv_def u
  proof (intro conjI ballI)
    show "length (el_readers el') = FR_EV_MAX_FDS" using I(1) by (simp add: el'_def rd_def)
    show "el_num_readers el' = card (insert j (used el))" using I(2) j(2) by (simp add: el'_def)
    show "el_max_readers el' \<le> FR_EV_MAX_FDS" using I(3) j(1) by (simp add: el'_def)
    show "i < el_max_readers el'" if "i \<in> insert j (used el)" for i
      using that j(3) I(4) [of i] by (auto simp: el'_def)
    show "el_read_fds el' = (\<lambda>i. ef_fd (el_readers el' ! i)) ` insert j (used el)"
      using img I(5) at by (simp add: el'_def)
    show "inj_on (\<lambda>i. ef_fd (el_readers el' ! i)) (insert j (used el))"
      using inj j(2) at fd(3) I(5) img by (simp add: el'_def)
    show "x < FD_SETSIZE" "x \<le> el_max_fd el'" if "x \<in> el_read_fds el'" for x
      using that fd(2) I(7) [of x] by (auto simp: el'_def)
    show "el_write_fds el' \<subseteq> el_read_fds el'" using I(8) by (auto simp: el'_def)
  qed
  moreover have "fr_event_fd_insert el 0 fd (Some h) (Some c) = Some (el', 1)"
    using fd n s(1) by (simp add: fr_event_fd_insert_def FD_SET_def el'_def rd_def)
  moreover have "serves el' fd' h' c' \<longleftrightarrow> (if fd' = fd then h' = h \<and> c' = c else serves el fd' h' c')" for fd' h' c'
  proof -
    have s: "serves el' fd' h' c' \<longleftrightarrow> fd = fd' \<and> h = h' \<and> c = c' \<or> (\<exists>i \<in> used el. ef_fd (el_readers el ! i) = fd' \<and>
        ef_handler (el_readers el ! i) = h' \<and> ef_ctx (el_readers el ! i) = c')"
      using at same unfolding serves_def u by (auto simp: el'_def)
    have "ef_fd (el_readers el ! i) \<noteq> fd" if "i \<in> used el" for i using that fd(3) I(5) by auto
    then show ?thesis unfolding s by (auto simp: serves_def)
  qed
  moreover have "el_read_fds el' = insert fd (el_read_fds el)" by (simp add: el'_def)
  ultimately show ?thesis by blast
qed

lemma fd_delete_ok:
  assumes inv: "fd_inv el" and fd: "0 \<le> fd"
  shows "\<exists>el'. fr_event_fd_delete el 0 fd = (el', if fd \<in> el_read_fds el then 1 else 0) \<and> fd_inv el' \<and>
     el_read_fds el' = el_read_fds el - {fd} \<and> el_write_fds el' = el_write_fds el - {fd} \<and>
     (\<forall>fd' h' c'. serves el' fd' h' c' \<longleftrightarrow> fd' \<noteq> fd \<and> serves el fd' h' c')"
proof -
  note I = fd_invD [OF inv]
  show ?thesis
  proof (cases "find_fd (el_readers el) fd 0 (el_max_readers el)")
    case None
    have "ef_fd (el_readers el ! i) \<noteq> fd" if "i \<in> used el" for i
      using find_fd_None [OF None, of i] I(4) [OF that] by simp
    then have "fd \<notin> el_read_fds el" "\<And>h c. \<not> serves el fd h c" using I(5) by (auto simp: serves_def)
    then show ?thesis using None fd inv I(8) by (auto simp: fr_event_fd_delete_def)
  next
    case (Some j)
    have j: "j < el_max_readers el" "ef_fd (el_readers el ! j) = fd" using find_fd_Some [OF Some] by auto
    then have ju: "j \<in> used el" using I(3) fd by (auto simp: used_def)
    then have mem: "fd \<in> el_read_fds el" using I(5) j(2) by auto
    define rd where "rd = (el_readers el)[j := (el_readers el ! j)\<lparr>ef_fd := - 1\<rparr>]"
    define el' where "el' = el\<lparr>el_readers := rd, el_num_readers := el_num_readers el - 1,
       el_max_readers := (if j + 1 = el_max_readers el then j else el_max_readers el),
       el_read_fds := el_read_fds el - {fd}, el_write_fds := el_write_fds el - {fd}\<rparr>"
    have at: "ef_fd (rd ! j) = - 1" and off: "i \<noteq> j \<Longrightarrow> rd ! i = el_readers el ! i" for i
      using ju I(1) by (auto simp: rd_def used_def)
    have u: "used el' = used el - {j}"
    proof (rule set_eqI)
      fix i show "i \<in> used el' \<longleftrightarrow> i \<in> used el - {j}"
        using at off [of i] by (cases "i = j") (auto simp: used_def el'_def)
    qed
    have img: "(\<lambda>i. ef_fd (rd ! i)) ` (used el - {j}) = (\<lambda>i. ef_fd (el_readers el ! i)) ` (used el - {j})"
      using off by (intro image_cong) auto
    have inj: "inj_on (\<lambda>i. ef_fd (rd ! i)) (used el - {j})"
    proof (rule inj_onI)
      fix a b assume "a \<in> used el - {j}" "b \<in> used el - {j}" "ef_fd (rd ! a) = ef_fd (rd ! b)"
      then show "a = b" using off [of a] off [of b] inj_onD [OF I(6), of a b] by simp
    qed
    have out: "(\<lambda>i. ef_fd (el_readers el ! i)) ` (used el - {j}) = el_read_fds el - {fd}"
      unfolding I(5) using inj_on_image_set_diff [OF I(6), of "used el" "{j}"] ju j(2) by simp
    have "fd_inv el'"
      unfolding fd_inv_def u
    proof (intro conjI ballI)
      show "length (el_readers el') = FR_EV_MAX_FDS" using I(1) by (simp add: el'_def rd_def)
      show "el_num_readers el' = card (used el - {j})" using I(2) ju by (simp add: el'_def)
      show "el_max_readers el' \<le> FR_EV_MAX_FDS" using I(3) by (simp add: el'_def)
      show "i < el_max_readers el'" if "i \<in> used el - {j}" for i
        using that I(4) [of i] by (auto simp: el'_def)
      show "el_read_fds el' = (\<lambda>i. ef_fd (el_readers el' ! i)) ` (used el - {j})"
        using img out by (simp add: el'_def)
      show "inj_on (\<lambda>i. ef_fd (el_readers el' ! i)) (used el - {j})" using inj by (simp add: el'_def)
      show "x < FD_SETSIZE" "x \<le> el_max_fd el'" if "x \<in> el_read_fds el'" for x
        using that I(7) [of x] by (auto simp: el'_def)
      show "el_write_fds el' \<subseteq> el_read_fds el'" using I(8) by (auto simp: el'_def)
    qed
    moreover have "serves el' fd' h' c' \<longleftrightarrow> fd' \<noteq> fd \<and> serves el fd' h' c'" for fd' h' c'
    proof -
      have "ef_fd (el_readers el ! i) = fd \<longleftrightarrow> i = j" if "i \<in> used el" for i
        using that ju j(2) inj_onD [OF I(6), of i j] by auto
      then show ?thesis using off unfolding serves_def u by (auto simp: el'_def)
    qed
    moreover have "fr_event_fd_delete el 0 fd = (el', 1)"
      using Some fd by (simp add: fr_event_fd_delete_def el'_def rd_def)
    moreover have "el_read_fds el' = el_read_fds el - {fd}" "el_write_fds el' = el_write_fds el - {fd}"
      by (simp_all add: el'_def)
    ultimately show ?thesis using mem by auto
  qed
qed

section \<open>Properties\<close>

lemma fd_create_inv:
  assumes "fr_event_list_create True True True off junk pos mem user = Some el"
  shows "fd_inv el" "el_read_fds el = {}"
proof -
  have "el_readers el = replicate FR_EV_MAX_FDS empty_fd \<and> el_num_readers el = 0 \<and> el_max_readers el = 0 \<and>
      el_read_fds el = {} \<and> el_write_fds el = {}"
    using assms by (auto simp: fr_event_list_create_def split: option.splits)
  moreover from this have "used el = {}" by (auto simp: used_def empty_fd_def)
  ultimately show "fd_inv el" "el_read_fds el = {}" by (auto simp: fd_inv_def)
qed

text \<open>
  C38: in a consistent socket table with room, inserting a new descriptor below \<^verbatim>\<open>FD_SETSIZE\<close>
  registers exactly its handler and context besides what was there, adds it to the set for
  \<open>select\<close>, and keeps entries, counters, limits and sets consistent; deleting it again succeeds,
  restores the sets, and leaves what was registered before, again consistently.
\<close>

theorem fd_table_correct:
  assumes "fd_inv el" "0 \<le> fd" "fd < FD_SETSIZE" "fd \<notin> el_read_fds el" "el_num_readers el < FR_EV_MAX_FDS"
  shows "\<exists>el1 el2. fr_event_fd_insert el 0 fd (Some h) (Some c) = Some (el1, 1) \<and> fd_inv el1 \<and>
     el_read_fds el1 = insert fd (el_read_fds el) \<and>
     (\<forall>fd' h' c'. serves el1 fd' h' c' \<longleftrightarrow> (if fd' = fd then h' = h \<and> c' = c else serves el fd' h' c')) \<and>
     fr_event_fd_delete el1 0 fd = (el2, 1) \<and> fd_inv el2 \<and> el_read_fds el2 = el_read_fds el \<and>
     (\<forall>fd' h' c'. serves el2 fd' h' c' \<longleftrightarrow> serves el fd' h' c')"
proof -
  obtain el1 where 1: "fr_event_fd_insert el 0 fd (Some h) (Some c) = Some (el1, 1)" "fd_inv el1"
     "el_read_fds el1 = insert fd (el_read_fds el)"
     "\<And>fd' h' c'. serves el1 fd' h' c' \<longleftrightarrow> (if fd' = fd then h' = h \<and> c' = c else serves el fd' h' c')"
    using fd_insert_ok [OF assms] by metis
  obtain el2 where 2: "fr_event_fd_delete el1 0 fd = (el2, 1)" "fd_inv el2"
     "el_read_fds el2 = el_read_fds el1 - {fd}"
     "\<And>fd' h' c'. serves el2 fd' h' c' \<longleftrightarrow> fd' \<noteq> fd \<and> serves el1 fd' h' c'"
    using fd_delete_ok [OF 1(2) assms(2)] 1(3) by auto
  have "\<not> serves el fd h' c'" for h' c' using assms(4) fd_invD(5) [OF assms(1)] by (auto simp: serves_def)
  then have "serves el2 fd' h' c' \<longleftrightarrow> serves el fd' h' c'" for fd' h' c' unfolding 2(4) 1(4) by auto
  moreover have "el_read_fds el2 = el_read_fds el" using 2(3) 1(3) assms(4) by simp
  ultimately show ?thesis using 1 2(1,2) by blast
qed

definition small_elist :: "unit elist" where
  "small_elist = \<lparr>el_times = \<lparr>hp_size = 2048, hp_num = 0, hp_offset = 8, hp_p = (\<lambda>_. 0), hp_pos = (\<lambda>_. 0)\<rparr>,
     el_mem = (\<lambda>_. \<lparr>ev_callback = 0, ev_ctx = 0, ev_when = zero_time, ev_parent = None\<rparr>), el_vars = (\<lambda>_. None),
     el_exit = 0, el_now = zero_time, el_dispatch = False, el_num_readers = 0, el_max_readers = 0, el_max_fd = 0,
     el_read_fds = {}, el_write_fds = {}, el_readers = replicate FR_EV_MAX_FDS empty_fd, el_user = ()\<rparr>"

lemma small_elist_create: "fr_event_list_create True True True 8 (\<lambda>_. 0) (\<lambda>_. 0)
    (\<lambda>_. \<lparr>ev_callback = 0, ev_ctx = 0, ev_when = zero_time, ev_parent = None\<rparr>) () = Some small_elist"
  by (simp add: fr_event_list_create_def fr_heap_create_def small_elist_def)

theorem fd_table_correct_witness:
  "\<exists>el1. fr_event_fd_insert small_elist 0 1023 (Some 4) (Some 5) = Some (el1, 1) \<and> serves el1 1023 4 5"
proof -
  have "el_num_readers small_elist < FR_EV_MAX_FDS" by (simp add: small_elist_def FR_EV_MAX_FDS_def)
  with fd_table_correct [OF fd_create_inv(1) [OF small_elist_create], of 1023 4 5] fd_create_inv(2) [OF small_elist_create]
  show ?thesis by (auto simp: FD_SETSIZE_def)
qed

text \<open>
  Where the table goes wrong. The guard admits the descriptor \<^verbatim>\<open>FD_SETSIZE\<close> itself, whose bit lies
  behind the set.
\<close>

lemma fd_insert_overrun:
  assumes "fd_inv el" "FD_SETSIZE \<notin> el_read_fds el" "el_num_readers el < FR_EV_MAX_FDS"
  shows "fr_event_fd_insert el 0 FD_SETSIZE (Some h) (Some c) = None"
proof -
  note I = fd_invD [OF assms(1)]
  obtain f where f: "f < Suc (el_max_readers el)" "f < FR_EV_MAX_FDS" "ef_fd (el_readers el ! f) < 0"
    using free_entry [OF assms(1,3)] by blast
  have "ef_fd (el_readers el ! j) \<noteq> FD_SETSIZE" if "j < length (el_readers el)" for j
    using that assms(2) I(1,5) by (auto simp: used_def FD_SETSIZE_def)
  then obtain j where "find_slot (el_readers el) FD_SETSIZE 0 (Suc (el_max_readers el)) = Some (Free j)"
    using find_slot_Free [of 0 "Suc (el_max_readers el)" "el_readers el" FD_SETSIZE f] f I(1) by auto
  then show ?thesis using assms(3) by (simp add: fr_event_fd_insert_def FD_SET_def FD_SETSIZE_def)
qed

text \<open>
  The scan stops at a free entry before it has seen whether the descriptor is there: after
  inserting 5 and 6 and deleting 5, inserting 6 again adds a second entry, and deleting 6 then
  leaves one, no longer in the set for \<open>select\<close>.
\<close>

lemma fd_insert_twice:
  "do { (el1, r1) \<leftarrow> fr_event_fd_insert small_elist 0 5 (Some 1) (Some 1);
        (el2, r2) \<leftarrow> fr_event_fd_insert el1 0 6 (Some 1) (Some 1);
        (el3, r3) \<leftarrow> Some (fr_event_fd_delete el2 0 5);
        (el4, r4) \<leftarrow> fr_event_fd_insert el3 0 6 (Some 1) (Some 1);
        (el5, r5) \<leftarrow> Some (fr_event_fd_delete el4 0 6);
        Some ([r1, r2, r3, r4, r5], el_num_readers el4, ef_fd (el_readers el5 ! 1), 6 \<in> el_read_fds el5) }
   = Some ([1, 1, 1, 1, 1], 2, 6, False)"
  by code_simp

text \<open>
  Taking the write handler away leaves the descriptor in the set of writable ones \<open>select\<close> waits
  for, so that \<open>select\<close> no longer sleeps.
\<close>

lemma fd_write_handler_off:
  assumes "fd_inv el" "fd \<in> el_read_fds el"
  shows "\<exists>el'. fr_event_fd_write_handler el 0 fd None = Some (el', 1) \<and> fd \<in> el_write_fds el'"
proof -
  note I = fd_invD [OF assms(1)]
  obtain i where i: "i \<in> used el" "ef_fd (el_readers el ! i) = fd" using assms(2) I(5) by auto
  then obtain j where "find_fd (el_readers el) fd 0 (el_max_readers el) = Some j"
    using find_fd_None [of "el_readers el" fd 0 "el_max_readers el" i] I(4) [OF i(1)]
    by (cases "find_fd (el_readers el) fd 0 (el_max_readers el)") auto
  moreover have "0 \<le> fd" "fd < FD_SETSIZE" using i I(7) [OF assms(2)] by (auto simp: used_def)
  ultimately show ?thesis by (simp add: fr_event_fd_write_handler_def FD_SET_def)
qed

end
