(* ===== verification/Fifo.thy ===== *)
theory Fifo
  imports Prelude
begin

text \<open>
  The bounded FIFO of \<^verbatim>\<open>lib/fifo.c\<close>: a ring of \<open>void *\<close> slots with the write index
  \<open>last\<close>, the read index \<open>first\<close> and the element count. \<open>None\<close> is the NULL pointer, both
  for the queue and for its elements. The struct declares \<open>data[1]\<close> and \<open>fr_fifo_create\<close>
  adds \<open>max\<close> slots to it, so the array has \<open>max + 1\<close> zeroed slots; the indices are
  \<open>unsigned int\<close>, and \<open>max \<le> 2^20\<close> keeps them far from wrapping, so they are \<open>nat\<close>.
\<close>

section \<open>State and operations\<close>

record 'a fifo =
  fi_num :: nat
  fi_first :: nat
  fi_last :: nat
  fi_max :: nat
  fi_freeNode :: bool
  fi_data :: "'a option list"

definition fr_fifo_create :: "int \<Rightarrow> bool \<Rightarrow> bool \<Rightarrow> 'a fifo option" where
  "fr_fifo_create maxn freeNode alloc_ok =
     (if maxn < 2 \<or> maxn > 1024 * 1024 then None
      else if \<not> alloc_ok then None
      else Some \<lparr>fi_num = 0, fi_first = 0, fi_last = 0, fi_max = nat maxn,
                 fi_freeNode = freeNode, fi_data = replicate (nat maxn + 1) None\<rparr>)"

definition fr_fifo_push :: "'a fifo option \<Rightarrow> 'a option \<Rightarrow> 'a fifo option \<times> int" where
  "fr_fifo_push fi data =
     (case fi of None \<Rightarrow> (fi, 0)
      | Some f \<Rightarrow>
        (case data of None \<Rightarrow> (fi, 0)
         | Some x \<Rightarrow>
           (if fi_num f \<ge> fi_max f then (fi, 0)
            else let f1 = f\<lparr>fi_data := (fi_data f)[fi_last f := Some x], fi_last := Suc (fi_last f)\<rparr>;
                     f2 = (if fi_last f1 \<ge> fi_max f1 then f1\<lparr>fi_last := 0\<rparr> else f1)
                 in (Some (f2\<lparr>fi_num := Suc (fi_num f2)\<rparr>), 1))))"

definition fr_fifo_pop :: "'a fifo option \<Rightarrow> 'a fifo option \<times> 'a option" where
  "fr_fifo_pop fi =
     (case fi of None \<Rightarrow> (fi, None)
      | Some f \<Rightarrow>
        (if fi_num f = 0 then (fi, None)
         else let data = fi_data f ! fi_first f;
                  f1 = f\<lparr>fi_first := Suc (fi_first f)\<rparr>;
                  f2 = (if fi_first f1 \<ge> fi_max f1 then f1\<lparr>fi_first := 0\<rparr> else f1)
              in (Some (f2\<lparr>fi_num := fi_num f2 - 1\<rparr>), data)))"

definition fr_fifo_peek :: "'a fifo option \<Rightarrow> 'a option" where
  "fr_fifo_peek fi =
     (case fi of None \<Rightarrow> None
      | Some f \<Rightarrow> (if fi_num f = 0 then None else fi_data f ! fi_first f))"

definition fr_fifo_num_elements :: "'a fifo option \<Rightarrow> nat" where
  "fr_fifo_num_elements fi = (case fi of None \<Rightarrow> 0 | Some f \<Rightarrow> fi_num f)"

text \<open>
  The loop of \<^verbatim>\<open>fr_fifo_free\<close>: the pointers handed to \<open>freeNode\<close>, in call order. The
  index test is the source's \<open>element > fi->max\<close>.
\<close>

fun fifo_free_loop :: "'a fifo \<Rightarrow> nat \<Rightarrow> nat \<Rightarrow> 'a fifo \<times> 'a option list" where
  "fifo_free_loop f i 0 = (f, [])"
| "fifo_free_loop f i (Suc k) =
     (let element0 = i + fi_first f;
          element = (if element0 > fi_max f then element0 - fi_max f else element0);
          (f', freed) = fifo_free_loop (f\<lparr>fi_data := (fi_data f)[element := None]\<rparr>) (Suc i) k
      in (f', (fi_data f ! element) # freed))"

definition fr_fifo_free :: "'a fifo option \<Rightarrow> 'a option list" where
  "fr_fifo_free fi =
     (case fi of None \<Rightarrow> []
      | Some f \<Rightarrow> (if fi_freeNode f then snd (fifo_free_loop f 0 (fi_num f)) else []))"

lemmas [op_defs] = fr_fifo_push_def fr_fifo_pop_def fr_fifo_peek_def fr_fifo_num_elements_def

section \<open>Invariant and abstraction\<close>

definition fifo_inv :: "'a fifo \<Rightarrow> bool" where
  "fifo_inv f \<longleftrightarrow>
     2 \<le> fi_max f \<and> fi_max f \<le> 1024 * 1024 \<and> fi_num f \<le> fi_max f \<and>
     fi_first f < fi_max f \<and> fi_last f = (fi_first f + fi_num f) mod fi_max f \<and>
     length (fi_data f) = Suc (fi_max f) \<and> fi_data f ! fi_max f = None \<and>
     (\<forall>i < fi_num f. fi_data f ! ((fi_first f + i) mod fi_max f) \<noteq> None)"

definition fifo_contents :: "'a fifo \<Rightarrow> 'a list" where
  "fifo_contents f =
     map (\<lambda>i. the (fi_data f ! ((fi_first f + i) mod fi_max f))) [0..<fi_num f]"

definition fifo_valid :: "'a fifo option \<Rightarrow> bool" where
  "fifo_valid fi = (case fi of None \<Rightarrow> False | Some f \<Rightarrow> fifo_inv f)"

definition fifo_list :: "'a fifo option \<Rightarrow> 'a list" where
  "fifo_list fi = (case fi of None \<Rightarrow> [] | Some f \<Rightarrow> fifo_contents f)"

definition fifo_cap :: "'a fifo option \<Rightarrow> nat" where
  "fifo_cap fi = (case fi of None \<Rightarrow> 0 | Some f \<Rightarrow> fi_max f)"

lemma fifo_create_Some:
  "fr_fifo_create m b True = Some f \<Longrightarrow>
     fifo_inv f \<and> fifo_contents f = [] \<and> fi_max f = nat m"
  by (auto simp: fr_fifo_create_def fifo_inv_def fifo_contents_def split: if_splits)

lemma fifo_push_room:
  assumes inv: "fifo_inv f" and room: "fi_num f < fi_max f"
    and push: "fr_fifo_push (Some f) (Some x) = (q', r)"
  shows "\<exists>f'. q' = Some f' \<and> r = 1 \<and> fifo_inv f' \<and> fi_max f' = fi_max f \<and>
           fifo_contents f' = fifo_contents f @ [x]"
proof -
  let ?m = "fi_max f" and ?l = "fi_last f" and ?a = "fi_first f" and ?n = "fi_num f"
  let ?d = "(fi_data f)[?l := Some x]"
  have m0: "0 < ?m" and l: "?l < ?m" and lm: "?l = (?a + ?n) mod ?m" and a: "?a < ?m"
    and len: "length (fi_data f) = Suc ?m"
    using inv by (auto simp: fifo_inv_def)
  define f' where "f' = f\<lparr>fi_data := ?d, fi_last := Suc ?l mod ?m, fi_num := Suc ?n\<rparr>"
  have "q' = Some f'" "r = 1"
    using push room l unfolding f'_def fr_fifo_push_def by (auto simp: Let_def mod_Suc)
  moreover have other: "?d ! ((?a + i) mod ?m) = fi_data f ! ((?a + i) mod ?m)" if "i < ?n" for i
    using that ring_inj [OF a, of i ?n] room lm by (metis nth_list_update_neq order.strict_trans less_not_refl)
  have new: "?d ! ((?a + ?n) mod ?m) = Some x"
    using lm l len by simp
  have "fifo_inv f'"
  proof -
    have "?d ! ?m = fi_data f ! ?m"
      using l by (intro nth_list_update_neq) simp
    then have top: "?d ! ?m = None" using inv by (simp add: fifo_inv_def)
    have all: "\<forall>i < Suc ?n. ?d ! ((?a + i) mod ?m) \<noteq> None"
      using inv other new by (auto simp: fifo_inv_def less_Suc_eq)
    have lst: "Suc ?l mod ?m = (?a + Suc ?n) mod ?m" by (simp add: lm mod_Suc_eq)
    have "2 \<le> ?m" "?m \<le> 1024 * 1024" using inv by (auto simp: fifo_inv_def)
    then show ?thesis using top all lst a room len by (simp add: f'_def fifo_inv_def)
  qed
  moreover have "fifo_contents f' = fifo_contents f @ [x]"
    using other new by (simp add: f'_def fifo_contents_def)
  ultimately show ?thesis by (auto simp: f'_def)
qed

lemma fifo_pop_cons:
  assumes inv: "fifo_inv f" and ne: "fifo_contents f = x # xs"
  shows "\<exists>f'. fr_fifo_pop (Some f) = (Some f', Some x) \<and> fifo_inv f' \<and>
           fi_max f' = fi_max f \<and> fifo_contents f' = xs"
proof -
  let ?m = "fi_max f" and ?a = "fi_first f" and ?n = "fi_num f"
  have a: "?a < ?m" using inv by (auto simp: fifo_inv_def)
  have n: "0 < ?n" using ne by (cases ?n) (auto simp: fifo_contents_def)
  define f' where "f' = f\<lparr>fi_first := Suc ?a mod ?m, fi_num := ?n - 1\<rparr>"
  have shift: "(Suc ?a mod ?m + i) mod ?m = (?a + Suc i) mod ?m" for i
    by (simp add: mod_add_left_eq)
  have up: "[0..<?n] = 0 # map Suc [0..<?n - 1]"
    using n by (metis Suc_pred' map_Suc_upt upt_conv_Cons)
  have cont: "fifo_contents f = the (fi_data f ! ?a) # fifo_contents f'"
    using a by (simp add: fifo_contents_def f'_def up shift comp_def)
  have "fi_data f ! ?a \<noteq> None"
    using inv n a by (auto simp: fifo_inv_def dest: spec [of _ 0])
  then have x: "fi_data f ! ?a = Some x" using cont ne by auto
  have "fr_fifo_pop (Some f) = (Some f', Some x)"
    using n a x unfolding f'_def fr_fifo_pop_def by (auto simp: Let_def mod_Suc)
  moreover have "fifo_inv f'"
  proof -
    have "(Suc ?a mod ?m + (?n - 1)) mod ?m = (?a + ?n) mod ?m"
      using shift [of "?n - 1"] n by simp
    moreover have "fi_data f ! ((Suc ?a mod ?m + i) mod ?m) \<noteq> None" if "i < ?n - 1" for i
      unfolding shift using inv that by (auto simp: fifo_inv_def dest!: spec [of _ "Suc i"])
    ultimately show ?thesis
      unfolding fifo_inv_def f'_def using inv n a by (auto simp: fifo_inv_def)
  qed
  moreover have "fifo_contents f' = xs" using cont ne by simp
  ultimately show ?thesis by (auto simp: f'_def)
qed

lemma fifo_contents_length [simp]: "length (fifo_contents f) = fi_num f"
  by (simp add: fifo_contents_def)

lemma fifo_peek_hd:
  assumes "fifo_inv f" "fifo_contents f = x # xs"
  shows "fr_fifo_peek (Some f) = Some x"
  using fifo_pop_cons [OF assms] assms(2)
  by (cases "fi_num f = 0")
     (auto simp: fr_fifo_peek_def fr_fifo_pop_def fifo_contents_def Let_def)

section \<open>The queue interface\<close>

text \<open>
  What the callers of the FIFO rely on (the thread pool's request queues are such
  callers): a bounded first-in first-out queue. The client's lemma, proved once from these
  laws, is that no sequence of calls can tell the ring from a list.
\<close>

datatype 'a queue_op = Push "'a option" | Pop | Peek | Size

datatype 'a queue_out = Ret int | Ptr "'a option" | Count nat

fun list_queue_step :: "nat \<Rightarrow> 'a list \<Rightarrow> 'a queue_op \<Rightarrow> 'a list \<times> 'a queue_out" where
  "list_queue_step c xs (Push d) =
     (case d of None \<Rightarrow> (xs, Ret 0)
      | Some x \<Rightarrow> if length xs < c then (xs @ [x], Ret 1) else (xs, Ret 0))"
| "list_queue_step c xs Pop =
     (case xs of [] \<Rightarrow> (xs, Ptr None) | x # ys \<Rightarrow> (ys, Ptr (Some x)))"
| "list_queue_step c xs Peek = (xs, Ptr (case xs of [] \<Rightarrow> None | x # _ \<Rightarrow> Some x))"
| "list_queue_step c xs Size = (xs, Count (length xs))"

fun fifo_step :: "'a fifo option \<Rightarrow> 'a queue_op \<Rightarrow> 'a fifo option \<times> 'a queue_out" where
  "fifo_step q (Push d) = (let (q', r) = fr_fifo_push q d in (q', Ret r))"
| "fifo_step q Pop = (let (q', x) = fr_fifo_pop q in (q', Ptr x))"
| "fifo_step q Peek = (q, Ptr (fr_fifo_peek q))"
| "fifo_step q Size = (q, Count (fr_fifo_num_elements q))"

fun run_queue :: "('q \<Rightarrow> 'a queue_op \<Rightarrow> 'q \<times> 'a queue_out) \<Rightarrow> 'q \<Rightarrow> 'a queue_op list
    \<Rightarrow> 'q \<times> 'a queue_out list" where
  "run_queue step q [] = (q, [])"
| "run_queue step q (op # ops) =
     (let (q', out) = step q op; (q'', outs) = run_queue step q' ops in (q'', out # outs))"

locale bounded_queue =
  fixes step :: "'q \<Rightarrow> 'a queue_op \<Rightarrow> 'q \<times> 'a queue_out"
    and valid :: "'q \<Rightarrow> bool"
    and items :: "'q \<Rightarrow> 'a list"
    and cap :: "'q \<Rightarrow> nat"
  assumes step_valid: "valid q \<Longrightarrow> valid (fst (step q op))"
    and step_cap: "valid q \<Longrightarrow> cap (fst (step q op)) = cap q"
    and step_items: "valid q \<Longrightarrow>
      (items (fst (step q op)), snd (step q op)) = list_queue_step (cap q) (items q) op"
begin

lemma run_refines:
  "valid q \<Longrightarrow>
     valid (fst (run_queue step q ops)) \<and>
     cap (fst (run_queue step q ops)) = cap q \<and>
     (items (fst (run_queue step q ops)), snd (run_queue step q ops)) =
       run_queue (list_queue_step (cap q)) (items q) ops"
proof (induction ops arbitrary: q)
  case (Cons op ops)
  obtain q' out where st: "step q op = (q', out)" by force
  from Cons.prems st have q': "valid q'" "cap q' = cap q"
      "list_queue_step (cap q) (items q) op = (items q', out)"
    using step_valid [of q op] step_cap [of q op] step_items [of q op] by auto
  with Cons.IH [of q'] st show ?case
    by (auto simp: split_beta Let_def)
       (metis fst_conv, metis snd_conv)
qed simp

end

lemma fifo_step_simulates:
  assumes "fifo_valid q"
  shows "fifo_valid (fst (fifo_step q op)) \<and> fifo_cap (fst (fifo_step q op)) = fifo_cap q \<and>
    (fifo_list (fst (fifo_step q op)), snd (fifo_step q op)) =
       list_queue_step (fifo_cap q) (fifo_list q) op"
proof -
  from assms obtain f where q: "q = Some f" and inv: "fifo_inv f"
    by (auto simp: fifo_valid_def split: option.splits)
  have le: "fi_num f \<le> fi_max f" using inv by (simp add: fifo_inv_def)
  note unf = q fifo_valid_def fifo_list_def fifo_cap_def inv
  show ?thesis
  proof (cases op)
    case (Push d)
    show ?thesis
    proof (cases "d \<noteq> None \<and> fi_num f < fi_max f")
      case True
      then obtain x where "d = Some x" by auto
      moreover obtain q' r where "fr_fifo_push (Some f) (Some x) = (q', r)" by force
      ultimately show ?thesis
        using fifo_push_room [OF inv, of x q' r] True Push by (auto simp: unf)
    next
      case False
      then show ?thesis using Push le by (auto simp: unf fr_fifo_push_def split: option.splits)
    qed
  next
    case Pop
    show ?thesis
    proof (cases "fifo_contents f")
      case Nil
      then have "fi_num f = 0" by (metis fifo_contents_length list.size(3))
      with Nil Pop show ?thesis by (simp add: unf fr_fifo_pop_def)
    next
      case (Cons x xs)
      with fifo_pop_cons [OF inv this] Pop show ?thesis by (auto simp: unf)
    qed
  next
    case Peek
    then show ?thesis
      using fifo_peek_hd [OF inv]
      by (cases "fifo_contents f")
         (auto simp: unf fr_fifo_peek_def fifo_contents_def)
  next
    case Size
    then show ?thesis by (simp add: unf fr_fifo_num_elements_def)
  qed
qed

interpretation ff: bounded_queue fifo_step fifo_valid fifo_list fifo_cap
  by unfold_locales (use fifo_step_simulates in \<open>blast+\<close>)

section \<open>Properties\<close>

text \<open>
  C27: a FIFO made by \<^verbatim>\<open>fr_fifo_create\<close> is indistinguishable, through any sequence of
  push, pop, peek and size calls, from a list that refuses NULL and refuses to grow past
  \<open>max\<close>: every return value agrees, and the ring's contents are that list.
\<close>

theorem fifo_refines_list:
  assumes "fr_fifo_create m b True = Some f"
  shows "let (q, outs) = run_queue fifo_step (Some f) ops
         in (fifo_list q, outs) = run_queue (list_queue_step (nat m)) [] ops \<and>
            fifo_valid q \<and> length (fifo_list q) \<le> nat m"
proof -
  have f: "fifo_valid (Some f)" "fifo_list (Some f) = []" "fifo_cap (Some f) = nat m"
    using fifo_create_Some [OF assms] by (auto simp: fifo_valid_def fifo_list_def fifo_cap_def)
  note r = ff.run_refines [OF f(1), of ops, unfolded f]
  then have "length (fifo_list (fst (run_queue fifo_step (Some f) ops))) \<le> nat m"
    by (auto simp: fifo_valid_def fifo_list_def fifo_cap_def fifo_inv_def split: option.splits)
  with r show ?thesis by (auto simp: split_beta Let_def)
qed

theorem fifo_refines_list_witness:
  "\<exists>f. fr_fifo_create 2 False True = Some (f :: nat fifo) \<and>
     snd (run_queue fifo_step (Some f) [Push (Some 7), Push (Some 8), Push (Some 9), Pop, Size]) =
       [Ret 1, Ret 1, Ret 0, Ptr (Some 7), Count 1]"
proof -
  obtain f :: "nat fifo" where f: "fr_fifo_create 2 False True = Some f"
    by (simp add: fr_fifo_create_def)
  from fifo_refines_list [OF f, of "[Push (Some 7), Push (Some 8), Push (Some 9), Pop, Size]"] f
  show ?thesis by (auto simp: split_beta Let_def)
qed

text \<open>
  The free loop reads slot \<open>element\<close> for \<open>i = 0, 1, \<dots>\<close>; the slots are distinct, so clearing
  one does not disturb a later read.
\<close>

definition free_slot :: "'a fifo \<Rightarrow> nat \<Rightarrow> nat" where
  "free_slot f i = (if i + fi_first f > fi_max f then i + fi_first f - fi_max f else i + fi_first f)"

lemma free_slot_inj:
  "i < j \<Longrightarrow> j < fi_max f + i \<Longrightarrow> fi_first f < fi_max f \<Longrightarrow> free_slot f i \<noteq> free_slot f j"
  by (auto simp: free_slot_def)

lemma fifo_free_loop_reads:
  assumes "fi_first f < fi_max f" "k \<le> fi_max f"
  shows "snd (fifo_free_loop f i k) = map (\<lambda>j. fi_data f ! free_slot f j) [i..<i + k]"
  using assms
proof (induction f i k rule: fifo_free_loop.induct)
  case (2 f i k)
  let ?f = "f\<lparr>fi_data := (fi_data f)[free_slot f i := None]\<rparr>"
  have slot: "free_slot ?f j = free_slot f j" for j by (simp add: free_slot_def)
  have "snd (fifo_free_loop ?f (Suc i) k) = map (\<lambda>j. fi_data ?f ! free_slot f j) [Suc i..<Suc i + k]"
    using 2 by (simp add: free_slot_def Let_def)
  also have "\<dots> = map (\<lambda>j. fi_data f ! free_slot f j) [Suc i..<Suc i + k]"
    using free_slot_inj [of i _ f] "2.prems" by (intro map_cong) (auto simp: nth_list_update_neq)
  finally show ?case
    by (simp add: upt_conv_Cons split_beta Let_def free_slot_def del: upt_Suc)
qed simp

text \<open>
  What \<^verbatim>\<open>fr_fifo_free\<close> hands to \<open>freeNode\<close>. Every queued element is freed once, in queue
  order, except an element that wrapped into slot 0: the test \<open>element > fi->max\<close> lets
  \<open>element = max\<close> through, the loop reads the unused slot \<open>max\<close> and frees NULL instead.
\<close>

lemma fifo_free_frees:
  assumes "fifo_inv f" "fi_freeNode f"
  shows "fr_fifo_free (Some f) =
           map (\<lambda>i. if fi_first f + i = fi_max f then None else Some (fifo_contents f ! i))
             [0..<fi_num f] \<and>
         (fr_fifo_free (Some f) = map Some (fifo_contents f) \<longleftrightarrow>
           fi_first f + fi_num f \<le> fi_max f)"
proof -
  have inv: "fi_first f < fi_max f" "fi_num f \<le> fi_max f" "fi_data f ! fi_max f = None"
    "\<And>i. i < fi_num f \<Longrightarrow> fi_data f ! ((fi_first f + i) mod fi_max f) \<noteq> None"
    using assms(1) by (auto simp: fifo_inv_def)
  have slot: "free_slot f i = (if fi_first f + i = fi_max f then fi_max f
      else (fi_first f + i) mod fi_max f)" if "i < fi_num f" for i
    using inv(1,2) that by (auto simp: free_slot_def ring_index)
  have frees: "fr_fifo_free (Some f) =
           map (\<lambda>i. if fi_first f + i = fi_max f then None else Some (fifo_contents f ! i))
             [0..<fi_num f]"
    using assms(2) inv fifo_free_loop_reads [OF inv(1,2), of 0]
    by (auto simp: fr_fifo_free_def slot fifo_contents_def)
  have "fr_fifo_free (Some f) = map Some (fifo_contents f) \<longleftrightarrow> fi_first f + fi_num f \<le> fi_max f"
  proof
    assume eq: "fr_fifo_free (Some f) = map Some (fifo_contents f)"
    show "fi_first f + fi_num f \<le> fi_max f"
    proof (rule ccontr)
      assume "\<not> fi_first f + fi_num f \<le> fi_max f"
      then have i: "fi_max f - fi_first f < fi_num f" "fi_first f + (fi_max f - fi_first f) = fi_max f"
        using inv(1) by auto
      with eq show False
        unfolding frees by (auto simp: list_eq_iff_nth_eq dest!: spec [of _ "fi_max f - fi_first f"])
    qed
  next
    assume "fi_first f + fi_num f \<le> fi_max f"
    then show "fr_fifo_free (Some f) = map Some (fifo_contents f)"
      unfolding frees by (auto intro!: nth_equalityI)
  qed
  with frees show ?thesis by blast
qed

definition fifo_wrapped :: "nat fifo" where
  "fifo_wrapped = \<lparr>fi_num = 2, fi_first = 1, fi_last = 1, fi_max = 2, fi_freeNode = True,
                   fi_data = [Some 8, Some 7, None]\<rparr>"

lemma fifo_free_frees_witness:
  "fifo_inv fifo_wrapped \<and> fifo_contents fifo_wrapped = [7, 8] \<and>
   fr_fifo_free (Some fifo_wrapped) = [Some 7, None]"
proof -
  have inv: "fifo_inv fifo_wrapped" "fi_freeNode fifo_wrapped"
    by (auto simp: fifo_wrapped_def fifo_inv_def less_2_cases_iff)
  have c: "fifo_contents fifo_wrapped = [7, 8]"
    by (simp add: fifo_wrapped_def fifo_contents_def upt_rec)
  show ?thesis
    using inv c fifo_free_frees [OF inv] by (simp add: fifo_wrapped_def upt_rec)
qed

end
