(* ===== verification/Connection.thy ===== *)
theory Connection
  imports Heap "HOL-Library.Monad_Syntax"
begin

text \<open>
  The connection pool of \<^verbatim>\<open>main/connection.c\<close>. A connection is the address of its struct;
  \<open>p_store\<close> is the memory of those structs, \<open>p_list\<close> the doubly linked list from \<open>head\<close> to
  \<open>tail\<close>, \<open>p_heap\<close> the indexed heap of the unused connections. Handles returned by the
  module's \<open>create\<close> callback are numbers.

  \<^item> A failed \<open>rad_assert\<close> or \<open>fr_assert\<close> (the process aborts), or a loop that does not end,
    is the result \<open>None\<close>; everything else is \<open>Some\<close>.
  \<^item> What the operating system and the module answer (\<open>time\<close>, \<open>gettimeofday\<close>, \<open>talloc\<close>,
    \<open>malloc\<close>, \<open>create\<close>) is the record \<open>env\<close> passed to each operation.
  \<^item> \<^verbatim>\<open>fr_connection_spawn\<close> and \<^verbatim>\<open>fr_connection_pool_check\<close> give up the mutex in the middle;
    they are split there, so that the pieces can be interleaved (theory \<open>ConnectionPool\<close>).
  Log messages and the open/close triggers are not modelled.
\<close>

section \<open>State\<close>

type_synonym timeval = "int \<times> int"

record conn =
  created :: int
  last_reserved :: timeval
  last_released :: timeval
  num_uses :: nat
  number :: nat
  connection :: nat
  in_use :: bool

datatype heap_cmp = LastReserved | LastReleased

record pool =
  p_ref :: nat
  p_start :: nat
  p_min :: nat
  p_max :: nat
  p_spare :: nat
  p_pending :: nat
  p_retry_delay :: nat
  p_cleanup_interval :: nat
  p_delay_interval :: nat
  p_next_delay :: nat
  p_max_uses :: nat
  p_lifetime :: nat
  p_idle_timeout :: nat
  p_max_pending :: nat
  p_spread :: bool
  s_last_checked :: int
  s_last_opened :: int
  s_last_closed :: int
  s_last_failed :: int
  s_last_throttled :: int
  s_last_at_max :: int
  s_opened :: nat
  s_closed :: nat
  s_failed :: nat
  s_num :: nat
  s_active :: nat
  p_heap :: "nat heap"
  p_heap_cmp :: heap_cmp
  p_list :: "nat list"
  p_store :: "nat \<Rightarrow> conn"

record env =
  e_now :: int
  e_closed_at :: int
  e_tv :: timeval
  e_ctx_ok :: bool
  e_handle :: "nat option"
  e_this :: "nat option"
  e_spawn_tv :: timeval
  e_opened_at :: int
  e_malloc :: bool
  e_mem :: "nat \<Rightarrow> nat"

definition rad_assert :: "bool \<Rightarrow> unit option" where
  "rad_assert b = (if b then Some () else None)"

section \<open>Ordering of the unused connections\<close>

definition last_reserved_cmp :: "conn \<Rightarrow> conn \<Rightarrow> int" where
  "last_reserved_cmp a b =
     (if fst (last_reserved a) < fst (last_reserved b) then -1
      else if fst (last_reserved a) > fst (last_reserved b) then 1
      else if snd (last_reserved a) < snd (last_reserved b) then -1
      else if snd (last_reserved a) > snd (last_reserved b) then 1
      else 0)"

definition last_released_cmp :: "conn \<Rightarrow> conn \<Rightarrow> int" where
  "last_released_cmp a b =
     (if fst (last_released b) < fst (last_released a) then -1
      else if fst (last_released b) > fst (last_released a) then 1
      else if snd (last_released b) < snd (last_released a) then -1
      else if snd (last_released b) > snd (last_released a) then 1
      else 0)"

definition conn_cmp :: "heap_cmp \<Rightarrow> (nat \<Rightarrow> conn) \<Rightarrow> nat cmp" where
  "conn_cmp k store a b =
     (case k of LastReserved \<Rightarrow> last_reserved_cmp (store a) (store b)
      | LastReleased \<Rightarrow> last_released_cmp (store a) (store b))"

abbreviation pool_cmp :: "pool \<Rightarrow> nat cmp" where
  "pool_cmp p \<equiv> conn_cmp (p_heap_cmp p) (p_store p)"

section \<open>The connection list\<close>

definition fr_connection_unlink :: "pool \<Rightarrow> nat \<Rightarrow> pool" where
  "fr_connection_unlink p c = p\<lparr>p_list := remove1 c (p_list p)\<rparr>"

definition fr_connection_link_head :: "pool \<Rightarrow> nat \<Rightarrow> pool option" where
  "fr_connection_link_head p c =
     do { rad_assert (p_list p = [] \<or> (hd (p_list p) \<noteq> c \<and> last (p_list p) \<noteq> c));
          Some (p\<lparr>p_list := c # p_list p\<rparr>) }"

text \<open>\<^verbatim>\<open>fr_connection_find\<close>: the first connection with this handle; it must be in use.\<close>

definition fr_connection_find :: "pool \<Rightarrow> nat option \<Rightarrow> nat option option" where
  "fr_connection_find p conn =
     (case conn of None \<Rightarrow> Some None
      | Some h \<Rightarrow>
        (case find (\<lambda>c. connection (p_store p c) = h) (p_list p) of
           None \<Rightarrow> Some None
         | Some c \<Rightarrow> do { rad_assert (in_use (p_store p c)); Some (Some c) }))"

definition heap_add :: "env \<Rightarrow> pool \<Rightarrow> nat \<Rightarrow> pool" where
  "heap_add e p c =
     p\<lparr>p_heap := fst (fr_heap_insert (pool_cmp p) (e_malloc e) (e_mem e) (p_heap p) c)\<rparr>"

definition heap_del :: "pool \<Rightarrow> nat \<Rightarrow> pool" where
  "heap_del p c = p\<lparr>p_heap := fst (fr_heap_extract (pool_cmp p) (p_heap p) (Some c))\<rparr>"

section \<open>Opening a connection\<close>

text \<open>The first critical section of \<^verbatim>\<open>fr_connection_spawn\<close>: claim a slot and a number.\<close>

definition spawn_locked :: "pool \<Rightarrow> int \<Rightarrow> (pool \<times> nat option) option" where
  "spawn_locked p now =
     do { rad_assert (s_num p \<le> p_max p);
          if s_num p + p_pending p \<ge> p_max p then Some (p, None)
          else if s_last_failed p \<noteq> 0 \<and> s_last_failed p + int (p_retry_delay p) > now
          then Some (if s_last_throttled p \<noteq> now then p\<lparr>s_last_throttled := now\<rparr> else p, None)
          else if p_pending p > p_max_pending p then Some (p, None)
          else Some (p\<lparr>p_pending := p_pending p + 1, s_opened := s_opened p + 1\<rparr>, Some (s_opened p)) }"

text \<open>The failure branch: the \<open>create\<close> callback returned NULL.\<close>

definition spawn_failed :: "pool \<Rightarrow> int \<Rightarrow> pool" where
  "spawn_failed p now =
     p\<lparr>s_last_failed := now, p_max_pending := 1, p_pending := p_pending p - 1,
       s_failed := s_failed p + 1\<rparr>"

text \<open>The second critical section: link the new connection \<open>c\<close> into the pool.\<close>

definition spawn_link :: "env \<Rightarrow> pool \<Rightarrow> int \<Rightarrow> bool \<Rightarrow> nat \<Rightarrow> nat \<Rightarrow> nat \<Rightarrow> pool option" where
  "spawn_link e p now inuse num h c =
     do { let p1 = p\<lparr>p_store := (p_store p)(c :=
               \<lparr>created = now, last_reserved = e_spawn_tv e, last_released = e_spawn_tv e,
                num_uses = 0, number = num, connection = h, in_use = inuse\<rparr>)\<rparr>;
          let p2 = (if \<not> inuse then heap_add e p1 c else p1);
          p3 \<leftarrow> fr_connection_link_head p2 c;
          let p4 = p3\<lparr>s_num := s_num p3 + 1\<rparr>;
          rad_assert (p_pending p4 > 0);
          let p5 = p4\<lparr>p_pending := p_pending p4 - 1\<rparr>;
          let p6 = (if p_max_pending p5 < p_max p5
                    then p5\<lparr>p_max_pending := p_max_pending p5 + 1\<rparr> else p5);
          Some (p6\<lparr>s_last_opened := e_opened_at e, p_delay_interval := p_cleanup_interval p6,
                   p_next_delay := p_cleanup_interval p6, s_last_failed := 0\<rparr>) }"

definition fr_connection_spawn ::
  "env \<Rightarrow> pool \<Rightarrow> int \<Rightarrow> bool \<Rightarrow> (pool \<times> nat option) option" where
  "fr_connection_spawn e p now inuse =
     (if s_num p = 0 \<and> p_pending p \<noteq> 0 \<and> s_last_failed p \<noteq> 0 then Some (p, None)
      else do { (p1, num) \<leftarrow> spawn_locked p now;
        case num of None \<Rightarrow> Some (p1, None)
        | Some n \<Rightarrow>
          (if \<not> e_ctx_ok e then Some (p1, None)
           else case e_handle e of None \<Rightarrow> Some (spawn_failed p1 now, None)
           | Some h \<Rightarrow>
             (case e_this e of None \<Rightarrow> Some (p1, None)
              | Some c \<Rightarrow> do { p2 \<leftarrow> spawn_link e p1 now inuse n h c; Some (p2, Some c) })) })"

section \<open>Closing and managing connections\<close>

definition fr_connection_close_internal :: "env \<Rightarrow> pool \<Rightarrow> nat \<Rightarrow> pool option" where
  "fr_connection_close_internal e p c =
     do { p1 \<leftarrow> (if in_use (p_store p c)
                 then do { let q = p\<lparr>p_store := (p_store p)(c := (p_store p c)\<lparr>in_use := False\<rparr>)\<rparr>;
                           rad_assert (s_active q \<noteq> 0);
                           Some (q\<lparr>s_active := s_active q - 1\<rparr>) }
                 else Some (heap_del p c));
          let p2 = fr_connection_unlink p1 c;
          rad_assert (s_num p2 > 0);
          Some (p2\<lparr>s_num := s_num p2 - 1, s_closed := s_closed p2 + 1,
                   s_last_closed := e_closed_at e\<rparr>) }"

definition fr_connection_manage ::
  "env \<Rightarrow> pool \<Rightarrow> nat \<Rightarrow> int \<Rightarrow> bool \<Rightarrow> (pool \<times> int) option" where
  "fr_connection_manage e p c now get =
     (let this = p_store p c;
          do_delete = do { q \<leftarrow> fr_connection_close_internal e p c; Some (q, 0) }
      in if in_use this then Some (p, 1)
         else if p_max_uses p > 0 \<and> num_uses this \<ge> p_max_uses p then do_delete
         else if p_lifetime p > 0 \<and> created this + int (p_lifetime p) < now then do_delete
         else if get then Some (p, 1)
         else if p_idle_timeout p > 0 \<and> fst (last_released this) + int (p_idle_timeout p) < now
         then do_delete
         else Some (p, 1))"

text \<open>The loop that picks a connection to close, from \<open>tail\<close> towards \<open>head\<close>.\<close>

definition timer_less :: "timeval \<Rightarrow> timeval \<Rightarrow> bool" where
  "timer_less a b \<longleftrightarrow> (if fst a = fst b then snd a < snd b else fst a < fst b)"

fun find_unused :: "(nat \<Rightarrow> conn) \<Rightarrow> nat list \<Rightarrow> nat option \<Rightarrow> nat option" where
  "find_unused store [] found = found"
| "find_unused store (c # cs) found =
     (if in_use (store c) then find_unused store cs found
      else find_unused store cs
        (case found of None \<Rightarrow> Some c
         | Some f \<Rightarrow> if timer_less (last_reserved (store c)) (last_reserved (store f))
                     then Some c else Some f))"

datatype check_act = CheckDone | CheckSpawn | CheckManage

definition close_connection :: "env \<Rightarrow> pool \<Rightarrow> int \<Rightarrow> (pool \<times> check_act) option" where
  "close_connection e p now =
     (if now < s_last_opened p + int (p_delay_interval p) then Some (p, CheckManage)
      else case find_unused (p_store p) (rev (p_list p)) None of
        None \<Rightarrow> None
      | Some c \<Rightarrow>
          do { q \<leftarrow> fr_connection_close_internal e p c;
               let nd = p_next_delay q div 2;
               let nd' = (if nd = 0 then 1 else nd);
               Some (q\<lparr>p_next_delay := nd', p_delay_interval := p_delay_interval q + nd'\<rparr>,
                     CheckManage) })"

text \<open>\<^verbatim>\<open>fr_connection_pool_check\<close> up to \<open>manage_connections\<close>, or to the unlock before spawning.\<close>

definition pool_check_head :: "env \<Rightarrow> pool \<Rightarrow> int \<Rightarrow> (pool \<times> check_act) option" where
  "pool_check_head e p now =
     (if s_last_checked p = now then Some (p, CheckDone)
      else let num = s_num p + p_pending p; spare = p_pending p + (s_num p - s_active p)
      in if num < p_min p then Some (p, CheckSpawn)
         else if num > p_max p
         then (if p_pending p > 0 then Some (p, CheckManage) else close_connection e p now)
         else if spare = p_spare p then Some (p, CheckManage)
         else if spare > p_spare p
         then (if p_pending p > 0 then Some (p, CheckManage)
               else if num \<le> p_min p then Some (p, CheckManage)
               else close_connection e p now)
         else (if p_pending p \<ge> p_max_pending p then Some (p, CheckManage)
               else if num \<ge> p_max p then Some (p, CheckManage)
               else Some (p, CheckSpawn)))"

fun manage_all :: "env \<Rightarrow> pool \<Rightarrow> nat list \<Rightarrow> int \<Rightarrow> pool option" where
  "manage_all e p [] now = Some p"
| "manage_all e p (c # cs) now =
     do { (q, _) \<leftarrow> fr_connection_manage e p c now False; manage_all e q cs now }"

definition pool_check_tail :: "env \<Rightarrow> pool \<Rightarrow> int \<Rightarrow> pool option" where
  "pool_check_tail e p now =
     do { q \<leftarrow> manage_all e p (p_list p) now; Some (q\<lparr>s_last_checked := now\<rparr>) }"

definition fr_connection_pool_check :: "env \<Rightarrow> pool \<Rightarrow> pool option" where
  "fr_connection_pool_check e p =
     do { (q, act) \<leftarrow> pool_check_head e p (e_now e);
          case act of
            CheckDone \<Rightarrow> Some q
          | CheckManage \<Rightarrow> pool_check_tail e q (e_now e)
          | CheckSpawn \<Rightarrow>
              do { (r, _) \<leftarrow> fr_connection_spawn e q (e_now e) False;
                   pool_check_tail e r (e_now e) } }"

section \<open>Reserving and releasing\<close>

text \<open>
  The loop of \<^verbatim>\<open>fr_connection_get_internal\<close>: peek at the heap, close what is over its limits,
  until a usable connection or an empty heap is found. The heap shrinks in every round, so one
  more round than it has elements is enough fuel (lemma \<open>get_loop_inv\<close> of \<open>ConnectionPool\<close>).
\<close>

fun get_loop :: "env \<Rightarrow> nat \<Rightarrow> pool \<Rightarrow> int \<Rightarrow> (pool \<times> nat option) option" where
  "get_loop e 0 p now = None"
| "get_loop e (Suc fuel) p now =
     (case fr_heap_peek (p_heap p) of
        None \<Rightarrow> Some (p, None)
      | Some c \<Rightarrow>
          do { rad_assert (\<not> in_use (p_store p c));
               (q, r) \<leftarrow> fr_connection_manage e p c now True;
               if r = 0 then get_loop e fuel q now else Some (q, Some c) })"

datatype get_res = Got nat | AtMax | NeedSpawn | NoSpawn

definition get_locked :: "env \<Rightarrow> pool \<Rightarrow> bool \<Rightarrow> (pool \<times> get_res) option" where
  "get_locked e p spawn =
     do { (q, found) \<leftarrow> get_loop e (Suc (fr_heap_num_elements (p_heap p))) p (e_now e);
          case found of
            Some c \<Rightarrow> Some (heap_del q c, Got c)
          | None \<Rightarrow>
              (if \<not> spawn then Some (q, NoSpawn)
               else if s_num q = p_max q
               then Some (if s_last_at_max q \<noteq> e_now e then q\<lparr>s_last_at_max := e_now e\<rparr> else q, AtMax)
               else Some (q, NeedSpawn)) }"

definition do_return :: "env \<Rightarrow> pool \<Rightarrow> nat \<Rightarrow> pool \<times> nat option" where
  "do_return e p c =
     (let this = p_store p c;
          p1 = p\<lparr>s_active := s_active p + 1,
                 p_store := (p_store p)(c := this\<lparr>num_uses := num_uses this + 1,
                    last_reserved := e_tv e, in_use := True\<rparr>)\<rparr>
      in (p1, Some (connection this)))"

definition fr_connection_get_internal ::
  "env \<Rightarrow> bool \<Rightarrow> pool \<Rightarrow> bool \<Rightarrow> (pool \<times> nat option) option" where
  "fr_connection_get_internal e exiting p spawn =
     (if exiting then Some (p, None)
      else do { (q, r) \<leftarrow> get_locked e p spawn;
           case r of
             Got c \<Rightarrow> Some (do_return e q c)
           | AtMax \<Rightarrow> Some (q, None)
           | NoSpawn \<Rightarrow> Some (q, None)
           | NeedSpawn \<Rightarrow>
               do { (q2, c) \<leftarrow> fr_connection_spawn e q (e_now e) True;
                    case c of None \<Rightarrow> Some (q2, None) | Some c \<Rightarrow> Some (do_return e q2 c) } })"

definition fr_connection_get :: "env \<Rightarrow> bool \<Rightarrow> pool \<Rightarrow> (pool \<times> nat option) option" where
  "fr_connection_get e exiting p = fr_connection_get_internal e exiting p True"

text \<open>\<^verbatim>\<open>fr_connection_release\<close> up to its call of \<^verbatim>\<open>fr_connection_pool_check\<close>.\<close>

definition release_locked :: "env \<Rightarrow> pool \<Rightarrow> nat \<Rightarrow> pool option" where
  "release_locked e p c =
     do { let q = p\<lparr>p_store := (p_store p)(c := (p_store p c)\<lparr>in_use := False, last_released := e_tv e\<rparr>)\<rparr>;
          let q2 = heap_add e q c;
          rad_assert (s_active q2 \<noteq> 0);
          Some (q2\<lparr>s_active := s_active q2 - 1\<rparr>) }"

definition fr_connection_release :: "env \<Rightarrow> pool \<Rightarrow> nat option \<Rightarrow> pool option" where
  "fr_connection_release e p conn =
     do { this \<leftarrow> fr_connection_find p conn;
          case this of None \<Rightarrow> Some p
          | Some c \<Rightarrow> do { q \<leftarrow> release_locked e p c; fr_connection_pool_check e q } }"

definition fr_connection_reconnect_internal ::
  "env \<Rightarrow> bool \<Rightarrow> pool \<Rightarrow> nat \<Rightarrow> (pool \<times> nat option) option" where
  "fr_connection_reconnect_internal e exiting p c =
     (if \<not> e_ctx_ok e then Some (p, None)
      else case e_handle e of
        None \<Rightarrow> do { q \<leftarrow> fr_connection_close_internal e p c;
                     fr_connection_get_internal e exiting q False }
      | Some h \<Rightarrow>
          Some (p\<lparr>p_store := (p_store p)(c := (p_store p c)\<lparr>connection := h\<rparr>)\<rparr>, Some h))"

definition fr_connection_reconnect ::
  "env \<Rightarrow> bool \<Rightarrow> pool \<Rightarrow> nat option \<Rightarrow> (pool \<times> nat option) option" where
  "fr_connection_reconnect e exiting p conn =
     (if conn = None then Some (p, None)
      else if exiting then do { q \<leftarrow> fr_connection_release e p conn; Some (q, None) }
      else do { this \<leftarrow> fr_connection_find p conn;
                case this of None \<Rightarrow> Some (p, None)
                | Some c \<Rightarrow> fr_connection_reconnect_internal e exiting p c })"

definition fr_connection_close :: "env \<Rightarrow> pool \<Rightarrow> nat option \<Rightarrow> (pool \<times> int) option" where
  "fr_connection_close e p conn =
     do { this \<leftarrow> fr_connection_find p conn;
          case this of None \<Rightarrow> Some (p, 0)
          | Some c \<Rightarrow> do { q \<leftarrow> fr_connection_close_internal e p c;
                          r \<leftarrow> fr_connection_pool_check e q;
                          Some (r, 1) } }"

section \<open>Creating and freeing a pool\<close>

record pool_conf =
  cf_start :: nat
  cf_min :: nat
  cf_max :: nat
  cf_spare :: nat
  cf_uses :: nat
  cf_lifetime :: nat
  cf_cleanup_interval :: nat
  cf_idle_timeout :: nat
  cf_retry_delay :: nat
  cf_spread :: bool

definition zero_conn :: conn where
  "zero_conn = \<lparr>created = 0, last_reserved = (0, 0), last_released = (0, 0), num_uses = 0,
     number = 0, connection = 0, in_use = False\<rparr>"

text \<open>\<open>talloc_zero\<close> of the pool, with the heap that is then stored in it.\<close>

definition zero_pool :: "nat heap \<Rightarrow> heap_cmp \<Rightarrow> pool" where
  "zero_pool hp k = \<lparr>p_ref = 0, p_start = 0, p_min = 0, p_max = 0, p_spare = 0, p_pending = 0,
     p_retry_delay = 0, p_cleanup_interval = 0, p_delay_interval = 0, p_next_delay = 0,
     p_max_uses = 0, p_lifetime = 0, p_idle_timeout = 0, p_max_pending = 0, p_spread = False,
     s_last_checked = 0, s_last_opened = 0, s_last_closed = 0, s_last_failed = 0,
     s_last_throttled = 0, s_last_at_max = 0, s_opened = 0, s_closed = 0, s_failed = 0,
     s_num = 0, s_active = 0, p_heap = hp, p_heap_cmp = k, p_list = [], p_store = (\<lambda>_. zero_conn)\<rparr>"

text \<open>\<open>cf_section_parse\<close> with \<open>connection_config\<close>: copy the parsed items into the pool.\<close>

definition parse_config :: "pool_conf \<Rightarrow> pool \<Rightarrow> pool" where
  "parse_config cf p =
     p\<lparr>p_start := cf_start cf, p_min := cf_min cf, p_max := cf_max cf, p_spare := cf_spare cf,
       p_max_uses := cf_uses cf, p_lifetime := cf_lifetime cf,
       p_cleanup_interval := cf_cleanup_interval cf, p_idle_timeout := cf_idle_timeout cf,
       p_retry_delay := cf_retry_delay cf, p_spread := cf_spread cf\<rparr>"

definition u32_sub :: "nat \<Rightarrow> nat \<Rightarrow> nat" where
  "u32_sub a b = nat ((int a - int b) mod 2 ^ 32)"

definition pool_limits :: "pool \<Rightarrow> pool option" where
  "pool_limits p =
     (if p_max p = 0 then None
      else let p1 = p\<lparr>p_max_pending := p_max p\<rparr>
      in if p_min p1 > p_max p1 then None
         else let p2 = (if p_max p1 \<le> 1024 then p1 else p1\<lparr>p_max := 1024\<rparr>);
                  p3 = (if p_start p2 \<le> p_max p2 then p2 else p2\<lparr>p_start := p_max p2\<rparr>);
                  p4 = (if p_spare p3 \<le> u32_sub (p_max p3) (p_min p3) then p3
                        else p3\<lparr>p_spare := u32_sub (p_max p3) (p_min p3)\<rparr>);
                  p5 = (if p_lifetime p4 > 0 \<and> \<not> p_idle_timeout p4 \<le> p_lifetime p4
                        then p4\<lparr>p_idle_timeout := 0\<rparr> else p4);
                  p6 = (if p_idle_timeout p5 > 0 \<and> \<not> p_cleanup_interval p5 \<le> p_idle_timeout p5
                        then p5\<lparr>p_cleanup_interval := p_idle_timeout p5\<rparr> else p5)
              in Some p6)"

text \<open>
  Freeing: the head is closed until the list is empty. Closing \<open>c\<close> unlinks exactly \<open>c\<close>, so the
  successive heads are the elements of the list. The result says whether the pool was freed.
\<close>

fun close_heads :: "env \<Rightarrow> pool \<Rightarrow> nat list \<Rightarrow> pool option" where
  "close_heads e p [] = Some p"
| "close_heads e p (c # cs) = do { q \<leftarrow> fr_connection_close_internal e p c; close_heads e q cs }"

definition fr_connection_pool_free :: "env \<Rightarrow> pool \<Rightarrow> (pool \<times> bool) option" where
  "fr_connection_pool_free e p =
     (if p_ref p > 0 then Some (p\<lparr>p_ref := p_ref p - 1\<rparr>, False)
      else do { q \<leftarrow> close_heads e p (p_list p);
                rad_assert (p_list q = []);
                rad_assert (s_num q = 0);
                Some (q, True) })"

fun spawn_start :: "(nat \<Rightarrow> env) \<Rightarrow> pool \<Rightarrow> int \<Rightarrow> nat \<Rightarrow> nat \<Rightarrow> (pool \<times> bool) option" where
  "spawn_start es p now i 0 = Some (p, True)"
| "spawn_start es p now i (Suc k) =
     do { (q, c) \<leftarrow> fr_connection_spawn (es i) p now False;
          case c of None \<Rightarrow> Some (q, False) | Some _ \<Rightarrow> spawn_start es q now (Suc i) k }"

text \<open>\<open>offsetof(fr_connection_t, heap)\<close> on a 64-bit target; only \<open>\<noteq> 0\<close> matters.\<close>

definition conn_heap_offset :: nat where
  "conn_heap_offset = 84"

definition fr_connection_pool_init ::
  "(nat \<Rightarrow> env) \<Rightarrow> env \<Rightarrow> bool \<Rightarrow> bool \<Rightarrow> bool \<Rightarrow> (nat \<Rightarrow> nat) \<Rightarrow> (nat \<Rightarrow> int) \<Rightarrow>
     pool_conf option \<Rightarrow> bool \<Rightarrow> int \<Rightarrow> pool option option" where
  "fr_connection_pool_init es e_free args_ok alloc_ok heap_ok mem pos conf check_config now =
     (if \<not> args_ok then Some None
      else if \<not> alloc_ok then Some None
      else
        let spread = False;  \<comment> \<open>the pool is still zeroed memory here\<close>
            k = (if \<not> spread then LastReserved else LastReleased)
        in case fr_heap_create True heap_ok heap_ok conn_heap_offset mem pos of
          None \<Rightarrow> Some None
        | Some hp \<Rightarrow>
          (let p0 = zero_pool hp k in
           case conf of
             None \<Rightarrow> do { _ \<leftarrow> fr_connection_pool_free e_free p0; Some None }
           | Some cf \<Rightarrow>
             (let p1 = parse_config cf p0 in
              case pool_limits p1 of
                None \<Rightarrow> do { _ \<leftarrow> fr_connection_pool_free e_free p1; Some None }
              | Some p2 \<Rightarrow>
                (if check_config then Some (Some (p2\<lparr>p_start := 1, p_min := 1, p_max := 1\<rparr>))
                 else do { (p3, ok) \<leftarrow> spawn_start es p2 now 0 (p_start p2);
                           if ok then Some (Some p3)
                           else do { _ \<leftarrow> fr_connection_pool_free e_free p3; Some None } }))))"

end
