(* ===== verification/ConnectionPool.thy ===== *)
theory ConnectionPool
  imports Connection
begin

text \<open>
  Correctness of the connection pool. \<open>pool_inv m G p\<close> is the consistency of a pool whose
  mutex is free while \<open>m\<close> threads are between the two critical sections of
  \<^verbatim>\<open>fr_connection_spawn\<close> and the threads that own the connections in \<open>G\<close> have linked a
  new connection for their own use but have not yet counted it as active (the end of
  \<^verbatim>\<open>fr_connection_get_internal\<close>). Every operation is shown to keep it; the heap's part is
  used only through the \<open>indexed_heap\<close> interface.
\<close>

section \<open>The comparison callbacks are orders\<close>

lemma last_reserved_cmp_less:
  "last_reserved_cmp a b < 0 \<longleftrightarrow> timer_less (last_reserved a) (last_reserved b)"
  by (auto simp: last_reserved_cmp_def timer_less_def)

lemma last_released_cmp_less:
  "last_released_cmp a b < 0 \<longleftrightarrow> timer_less (last_released b) (last_released a)"
  by (auto simp: last_released_cmp_def timer_less_def)

lemma timer_less_asym: "timer_less a b \<Longrightarrow> \<not> timer_less b a"
  by (auto simp: timer_less_def split: if_splits)

lemma timer_less_cotrans: "timer_less a c \<Longrightarrow> timer_less a b \<or> timer_less b c"
  by (auto simp: timer_less_def split: if_splits)

lemma conn_cmp_order [simp]: "cmp_order (conn_cmp k store)"
proof (cases k)
  case LastReserved
  show ?thesis
    unfolding cmp_order_def LastReserved conn_cmp_def heap_cmp.case last_reserved_cmp_less
    using timer_less_asym timer_less_cotrans by blast
next
  case LastReleased
  show ?thesis
    unfolding cmp_order_def LastReleased conn_cmp_def heap_cmp.case last_released_cmp_less
    using timer_less_asym timer_less_cotrans by blast
qed

lemma conn_cmp_upd:
  "a \<noteq> c \<Longrightarrow> b \<noteq> c \<Longrightarrow> conn_cmp k (store(c := v)) a b = conn_cmp k store a b"
  by (simp add: conn_cmp_def split: heap_cmp.split)

lemma conn_cmp_times:
  assumes "\<And>x. last_reserved (s x) = last_reserved (t x)" "\<And>x. last_released (s x) = last_released (t x)"
  shows "conn_cmp k s = conn_cmp k t"
  by (intro ext, cases k) (simp_all add: conn_cmp_def last_reserved_cmp_def last_released_cmp_def assms)

lemma conn_cmp_in_use [simp]:
  "conn_cmp k (store(c := (store c)\<lparr>in_use := b\<rparr>)) = conn_cmp k store"
  by (rule conn_cmp_times) auto

lemma tracked_upd:
  assumes "tracked_inv (conn_cmp k store) h" "c \<notin> heap_set h"
  shows "tracked_inv (conn_cmp k (store(c := v))) h"
  using assms(2) by (intro hp.inv_cong [OF assms(1)] conn_cmp_upd) auto

section \<open>The pool invariant\<close>

definition used :: "pool \<Rightarrow> nat set" where
  "used p = {c \<in> set (p_list p). in_use (p_store p c)}"

definition unused :: "pool \<Rightarrow> nat set" where
  "unused p = {c \<in> set (p_list p). \<not> in_use (p_store p c)}"

definition pool_inv :: "nat \<Rightarrow> nat set \<Rightarrow> pool \<Rightarrow> bool" where
  "pool_inv m G p \<longleftrightarrow>
     distinct (p_list p) \<and> s_num p = length (p_list p) \<and>
     s_num p + p_pending p \<le> p_max p \<and> p_max p \<le> 1024 \<and> m \<le> p_pending p \<and>
     G \<subseteq> used p \<and> s_active p + card G = card (used p) \<and>
     inj_on (\<lambda>c. connection (p_store p c)) (set (p_list p)) \<and>
     tracked_inv (pool_cmp p) (p_heap p) \<and> heap_set (p_heap p) = unused p \<and>
     2048 \<le> hp_size (p_heap p)"

lemma pool_invD:
  assumes "pool_inv m G p"
  shows "distinct (p_list p)" "s_num p = length (p_list p)" "s_num p + p_pending p \<le> p_max p"
    "p_max p \<le> 1024" "m \<le> p_pending p" "G \<subseteq> used p" "s_active p + card G = card (used p)"
    "inj_on (\<lambda>c. connection (p_store p c)) (set (p_list p))"
    "tracked_inv (pool_cmp p) (p_heap p)" "heap_set (p_heap p) = unused p"
    "2048 \<le> hp_size (p_heap p)"
  using assms by (auto simp: pool_inv_def)

lemma pool_invI:
  assumes "distinct (p_list p)" "s_num p = length (p_list p)" "s_num p + p_pending p \<le> p_max p"
    "p_max p \<le> 1024" "m \<le> p_pending p" "G \<subseteq> used p" "s_active p + card G = card (used p)"
    "inj_on (\<lambda>c. connection (p_store p c)) (set (p_list p))"
    "tracked_inv (pool_cmp p) (p_heap p)" "heap_set (p_heap p) = unused p"
    "2048 \<le> hp_size (p_heap p)"
  shows "pool_inv m G p"
  using assms by (simp add: pool_inv_def)

lemma finite_used [simp]: "finite (used p)" and finite_unused [simp]: "finite (unused p)"
  by (auto simp: used_def unused_def)

lemma num_split:
  assumes "pool_inv m G p"
  shows "s_num p = card (used p) + card (unused p)"
proof -
  have "set (p_list p) = used p \<union> unused p" "used p \<inter> unused p = {}"
    by (auto simp: used_def unused_def)
  then show ?thesis
    using pool_invD(1,2) [OF assms]
    by (metis card_Un_disjoint distinct_card finite_unused finite_used)
qed

text \<open>Fields the invariant does not read.\<close>

lemma pool_inv_stats [simp]:
  "pool_inv m G (p\<lparr>s_last_throttled := t\<rparr>) = pool_inv m G p"
  "pool_inv m G (p\<lparr>s_last_checked := t\<rparr>) = pool_inv m G p"
  "pool_inv m G (p\<lparr>s_last_at_max := t\<rparr>) = pool_inv m G p"
  "pool_inv m G (p\<lparr>p_next_delay := n, p_delay_interval := d\<rparr>) = pool_inv m G p"
  "pool_inv m G (p\<lparr>p_ref := n\<rparr>) = pool_inv m G p"
  by (simp_all add: pool_inv_def used_def unused_def)

section \<open>Opening connections\<close>

lemma rad_assert_simps [simp]: "rad_assert True = Some ()" "rad_assert False = None"
  by (simp_all add: rad_assert_def)

lemma spawn_locked_inv:
  assumes "pool_inv m G p"
  shows "\<exists>q r. spawn_locked p now = Some (q, r) \<and>
    pool_inv (if r = None then m else Suc m) G q"
proof -
  note inv = pool_invD [OF assms]
  have a: "s_num p \<le> p_max p" using inv(3) by linarith
  show ?thesis
    using a assms by (auto simp: spawn_locked_def pool_inv_def used_def unused_def)
qed

lemma spawn_failed_inv: "pool_inv (Suc m) G p \<Longrightarrow> pool_inv m G (spawn_failed p now)"
  by (auto simp: spawn_failed_def pool_inv_def used_def unused_def)

lemma spawn_forget: "pool_inv (Suc m) G p \<Longrightarrow> pool_inv m G p"
  by (auto simp: pool_inv_def)

lemma spawn_link_inv:
  assumes inv: "pool_inv (Suc m) G p" and new: "c \<notin> set (p_list p)"
    and fresh: "h \<notin> (\<lambda>c. connection (p_store p c)) ` set (p_list p)"
  shows "\<exists>q. spawn_link e p now b n h c = Some q \<and>
     pool_inv m (if b then insert c G else G) q \<and> p_list q = c # p_list p \<and>
     connection (p_store q c) = h \<and> in_use (p_store q c) = b \<and> p_max q = p_max p \<and>
     (\<forall>d. d \<noteq> c \<longrightarrow> p_store q d = p_store p d)"
proof -
  note I = pool_invD [OF inv]
  let ?v = "\<lparr>created = now, last_reserved = e_spawn_tv e, last_released = e_spawn_tv e,
                num_uses = 0, number = n, connection = h, in_use = b\<rparr>"
  define p1 where "p1 = p\<lparr>p_store := (p_store p)(c := ?v)\<rparr>"
  define p2 where "p2 = (if \<not> b then heap_add e p1 c else p1)"
  have lst: "p_list p2 = p_list p" "p_store p2 = (p_store p)(c := ?v)" "p_max p2 = p_max p"
    "p_pending p2 = p_pending p" "s_num p2 = s_num p" "s_active p2 = s_active p"
    "p_heap_cmp p2 = p_heap_cmp p" "p_max_pending p2 = p_max_pending p"
    by (auto simp: p2_def p1_def heap_add_def)
  have out: "c \<notin> heap_set (p_heap p)" using I(10) new by (auto simp: unused_def)
  have t: "tracked_inv (pool_cmp p1) (p_heap p)" using tracked_upd [OF I(9) out] by (simp add: p1_def)
  have "card (unused p) < hp_size (p_heap p)" using num_split [OF inv] I(3,4,11) by linarith
  then have room: "card (heap_set (p_heap p)) < hp_size (p_heap p)" using I(10) by simp
  have h: "tracked_inv (pool_cmp p2) (p_heap p2) \<and> 2048 \<le> hp_size (p_heap p2) \<and>
      heap_set (p_heap p2) = (if b then unused p else insert c (unused p))"
  proof (cases b)
    case True
    then show ?thesis using t I by (simp add: p2_def p1_def)
  next
    case False
    obtain h' r where i: "fr_heap_insert (pool_cmp p1) (e_malloc e) (e_mem e) (p_heap p) c = (h', r)"
      by force
    have "p_heap p1 = p_heap p" by (simp add: p1_def)
    then show ?thesis
      using False i hp.ins_member [OF conn_cmp_order t out room i] I(10,11) by (simp add: p2_def heap_add_def)
  qed
  define q where "q = (let p4 = p2\<lparr>p_list := c # p_list p, s_num := s_num p + 1, p_pending := p_pending p - 1\<rparr>;
      p6 = (if p_max_pending p4 < p_max p4 then p4\<lparr>p_max_pending := p_max_pending p4 + 1\<rparr> else p4)
      in p6\<lparr>s_last_opened := e_opened_at e, p_delay_interval := p_cleanup_interval p6,
            p_next_delay := p_cleanup_interval p6, s_last_failed := 0\<rparr>)"
  have "p_list p = [] \<or> hd (p_list p) \<noteq> c \<and> last (p_list p) \<noteq> c"
    using new hd_in_set last_in_set by metis
  then have run: "spawn_link e p now b n h c = Some q"
    using I(5) lst unfolding spawn_link_def q_def Let_def p1_def [symmetric] p2_def [symmetric]
    by (auto simp: fr_connection_link_head_def)
  have f: "p_list q = c # p_list p" "p_store q = (p_store p)(c := ?v)" "p_max q = p_max p"
    "p_pending q = p_pending p - 1" "s_num q = s_num p + 1" "s_active q = s_active p"
    "pool_cmp q = pool_cmp p2" "p_heap q = p_heap p2"
    by (auto simp: q_def Let_def lst)
  have us: "used q = (if b then insert c (used p) else used p)"
    "unused q = (if b then unused p else insert c (unused p))"
    using new by (auto simp: used_def unused_def f)
  have cu: "c \<notin> used p" "c \<notin> G" using new I(6) by (auto simp: used_def)
  have "pool_inv m (if b then insert c G else G) q"
  proof (rule pool_invI)
    have fin: "finite G" using I(6) by (rule finite_subset) simp
    show "s_active q + card (if b then insert c G else G) = card (used q)"
      using us cu I(7) f fin by simp
    have eq: "connection (((p_store p)(c := ?v)) d) = connection (p_store p d)" if "d \<in> set (p_list p)" for d
      using that new by auto
    then have "inj_on (\<lambda>d. connection (((p_store p)(c := ?v)) d)) (set (p_list p))"
      using I(8) by (simp add: inj_on_def)
    then show "inj_on (\<lambda>c. connection (p_store q c)) (set (p_list q))"
      using fresh new eq by (auto simp: f inj_on_def image_iff)
  qed (use I f us h new in \<open>auto simp del: fun_upd_apply\<close>)
  then show ?thesis using run f by auto
qed

text \<open>
  What the allocator and the \<open>create\<close> callback promise: the address of a new connection and its
  handle are not those of a live connection.
\<close>

definition env_ok :: "env \<Rightarrow> pool \<Rightarrow> bool" where
  "env_ok e p \<longleftrightarrow>
     (\<forall>c. e_this e = Some c \<longrightarrow> c \<notin> set (p_list p)) \<and>
     (\<forall>h. e_handle e = Some h \<longrightarrow> h \<notin> (\<lambda>c. connection (p_store p c)) ` set (p_list p))"

lemma env_ok_mono:
  assumes "env_ok e p" "set (p_list q) \<subseteq> set (p_list p)"
    and "\<And>c. c \<in> set (p_list q) \<Longrightarrow> connection (p_store q c) = connection (p_store p c)"
  shows "env_ok e q"
  using assms unfolding env_ok_def image_iff by blast

lemma spawn_locked_same:
  "spawn_locked p now = Some (q, r) \<Longrightarrow> p_list q = p_list p \<and> p_store q = p_store p \<and> p_max q = p_max p"
  by (auto simp: spawn_locked_def rad_assert_def split: if_splits)

lemma spawn_inv:
  assumes inv: "pool_inv m G p" and env: "env_ok e p"
  shows "\<exists>q r. fr_connection_spawn e p now b = Some (q, r) \<and>
     (case r of
        None \<Rightarrow> pool_inv m G q \<and> p_list q = p_list p \<and> p_store q = p_store p
      | Some c \<Rightarrow> pool_inv m (if b then insert c G else G) q \<and> p_list q = c # p_list p \<and>
          c \<notin> set (p_list p) \<and> in_use (p_store q c) = b \<and>
          (\<forall>d. d \<noteq> c \<longrightarrow> p_store q d = p_store p d) \<and>
          e_this e = Some c \<and> e_handle e = Some (connection (p_store q c)))"
proof (cases "s_num p = 0 \<and> p_pending p \<noteq> 0 \<and> s_last_failed p \<noteq> 0")
  case True
  then show ?thesis using inv by (simp add: fr_connection_spawn_def)
next
  case False
  obtain p1 r where l: "spawn_locked p now = Some (p1, r)"
    and i1: "pool_inv (if r = None then m else Suc m) G p1"
    using spawn_locked_inv [OF inv] by blast
  note same = spawn_locked_same [OF l]
  note unf = fr_connection_spawn_def if_not_P [OF False] l
  show ?thesis
  proof (cases r)
    case None
    then show ?thesis using i1 same unfolding unf by simp
  next
    case [simp]: (Some n)
    have i1': "pool_inv (Suc m) G p1" using i1 by simp
    have env1: "env_ok e p1" using env same by (simp add: env_ok_def)
    show ?thesis
    proof (cases "e_ctx_ok e \<and> e_handle e \<noteq> None \<and> e_this e \<noteq> None")
      case True
      then obtain h c where hc: "e_handle e = Some h" "e_this e = Some c" by auto
      then have new: "c \<notin> set (p_list p1)" "h \<notin> (\<lambda>c. connection (p_store p1 c)) ` set (p_list p1)"
        using env1 by (auto simp: env_ok_def)
      obtain q where "spawn_link e p1 now b n h c = Some q"
        "pool_inv m (if b then insert c G else G) q" "p_list q = c # p_list p1" "in_use (p_store q c) = b"
        "\<forall>d. d \<noteq> c \<longrightarrow> p_store q d = p_store p1 d" "connection (p_store q c) = h"
        using spawn_link_inv [OF i1' new] by blast
      then show ?thesis using True hc new same unfolding unf by simp
    next
      case False
      then show ?thesis
        using spawn_forget [OF i1'] spawn_failed_inv [OF i1'] same
        unfolding unf by (auto simp: spawn_failed_def split: option.splits)
    qed
  qed
qed

section \<open>Closing connections\<close>

lemma close_internal_inv:
  assumes inv: "pool_inv m G p" and c: "c \<in> set (p_list p)" "c \<notin> G"
  shows "\<exists>q. fr_connection_close_internal e p c = Some q \<and> pool_inv m G q \<and>
     p_list q = remove1 c (p_list p) \<and> (\<forall>d. d \<noteq> c \<longrightarrow> p_store q d = p_store p d) \<and>
     p_spare q = p_spare p \<and> p_heap_cmp q = p_heap_cmp p"
proof -
  note I = pool_invD [OF inv]
  have n: "s_num p = Suc (length (remove1 c (p_list p)))"
    using I(2) c(1) by (simp add: length_remove1) (metis Suc_pred length_pos_if_in_set)
  have setq: "set (remove1 c (p_list p)) = set (p_list p) - {c}" using I(1) by (simp add: set_remove1_eq)
  have inj: "inj_on (\<lambda>c. connection (p_store p c)) (set (p_list p) - {c})"
    using I(8) by (rule inj_on_subset) simp
  show ?thesis
  proof (cases "in_use (p_store p c)")
    case True
    let ?s = "(p_store p)(c := (p_store p c)\<lparr>in_use := False\<rparr>)"
    define q where "q = p\<lparr>p_store := ?s, s_active := s_active p - 1, p_list := remove1 c (p_list p),
      s_num := s_num p - 1, s_closed := s_closed p + 1, s_last_closed := e_closed_at e\<rparr>"
    have cu: "c \<in> used p" using c True by (simp add: used_def)
    with c(2) I(6) have "card G < card (used p)" by (intro psubset_card_mono) auto
    then have act: "s_active p \<noteq> 0" using I(7) by linarith
    have "fr_connection_close_internal e p c = Some q"
      using True act n by (simp add: fr_connection_close_internal_def fr_connection_unlink_def q_def)
    moreover have us: "used q = used p - {c}" "unused q = unused p"
      using setq True by (auto simp: q_def used_def unused_def)
    then have "s_active q + card G = card (used q)"
      using cu act I(7) by (simp add: q_def)
    have "pool_inv m G q"
    proof (rule pool_invI)
      show "s_active q + card G = card (used q)" by fact
      show "inj_on (\<lambda>c. connection (p_store q c)) (set (p_list q))"
        using inj setq by (simp add: q_def inj_on_def)
      show "tracked_inv (pool_cmp q) (p_heap q)" using I(9) by (simp add: q_def)
      show "heap_set (p_heap q) = unused q" using I(10) us by (simp add: q_def)
      show "s_num q + p_pending q \<le> p_max q" using I(3) n by (simp add: q_def)
    qed (use I n us c in \<open>auto simp: q_def\<close>)
    ultimately show ?thesis by (simp add: q_def)
  next
    case False
    define q where "q = p\<lparr>p_heap := fst (fr_heap_extract (pool_cmp p) (p_heap p) (Some c)),
      p_list := remove1 c (p_list p), s_num := s_num p - 1, s_closed := s_closed p + 1,
      s_last_closed := e_closed_at e\<rparr>"
    have cu: "c \<in> heap_set (p_heap p)" using c False I(10) by (simp add: unused_def)
    obtain h' r where x: "fr_heap_extract (pool_cmp p) (p_heap p) (Some c) = (h', r)" by force
    note ex = hp.ext_member [OF conn_cmp_order I(9) cu x]
    have "fr_connection_close_internal e p c = Some q"
      using False n
      by (simp add: fr_connection_close_internal_def fr_connection_unlink_def heap_del_def q_def)
    moreover have us: "used q = used p" "unused q = unused p - {c}"
      using setq False by (auto simp: q_def used_def unused_def)
    moreover have "pool_inv m G q"
    proof (rule pool_invI)
      show "inj_on (\<lambda>c. connection (p_store q c)) (set (p_list q))"
        using inj setq by (simp add: q_def)
      show "tracked_inv (pool_cmp q) (p_heap q)" using ex x by (simp add: q_def)
      show "heap_set (p_heap q) = unused q" using ex x us I(10) by (simp add: q_def)
      show "2048 \<le> hp_size (p_heap q)" using ex x I(11) by (simp add: q_def)
      show "s_num q + p_pending q \<le> p_max q" using I(3) n by (simp add: q_def)
    qed (use I n us in \<open>auto simp: q_def\<close>)
    ultimately show ?thesis by (simp add: q_def)
  qed
qed

lemma manage_inv:
  assumes inv: "pool_inv m G p" and c: "c \<in> set (p_list p)"
  shows "\<exists>q r. fr_connection_manage e p c now get = Some (q, r) \<and> pool_inv m G q \<and>
     (if r = 0 then p_list q = remove1 c (p_list p) \<and> \<not> in_use (p_store p c) else q = p) \<and>
     (\<forall>d. d \<noteq> c \<longrightarrow> p_store q d = p_store p d)"
proof (cases "in_use (p_store p c)")
  case True
  then show ?thesis using inv by (simp add: fr_connection_manage_def)
next
  case False
  then have "c \<notin> G" using pool_invD(6) [OF inv] by (auto simp: used_def)
  from close_internal_inv [OF inv c this, of e] obtain q where
    "fr_connection_close_internal e p c = Some q" "pool_inv m G q" "p_list q = remove1 c (p_list p)"
    "\<forall>d. d \<noteq> c \<longrightarrow> p_store q d = p_store p d" by blast
  with False inv show ?thesis by (auto simp: fr_connection_manage_def Let_def)
qed

lemma manage_all_inv:
  assumes "pool_inv m G p" "set cs \<subseteq> set (p_list p)" "distinct cs"
  shows "\<exists>q. manage_all e p cs now = Some q \<and> pool_inv m G q"
  using assms
proof (induction cs arbitrary: p)
  case (Cons c cs)
  obtain q r where mg: "fr_connection_manage e p c now False = Some (q, r)" "pool_inv m G q"
    "if r = 0 then p_list q = remove1 c (p_list p) \<and> \<not> in_use (p_store p c) else q = p"
    using manage_inv [OF Cons.prems(1), of c e now False] Cons.prems(2) by auto
  have "set cs \<subseteq> set (p_list q)"
    using mg(3) Cons.prems pool_invD(1) [OF Cons.prems(1)] by (auto simp: set_remove1_eq split: if_splits)
  then show ?case using Cons mg by auto
qed simp

lemma pool_check_tail_inv:
  assumes "pool_inv m G p"
  shows "\<exists>q. pool_check_tail e p now = Some q \<and> pool_inv m G q"
  using manage_all_inv [OF assms subset_refl, of e now] pool_invD(1) [OF assms]
  by (auto simp: pool_check_tail_def)

lemma find_unused_None:
  "find_unused store cs found = None \<longleftrightarrow> found = None \<and> (\<forall>c \<in> set cs. in_use (store c))"
  by (induction store cs found rule: find_unused.induct) (auto split: option.splits if_splits)

lemma find_unused_Some:
  "find_unused store cs found = Some c \<Longrightarrow> (c \<in> set cs \<and> \<not> in_use (store c)) \<or> found = Some c"
  by (induction store cs found rule: find_unused.induct) (auto split: option.splits if_splits)

lemma close_connection_inv:
  assumes inv: "pool_inv m G p"
  shows "case close_connection e p now of
     None \<Rightarrow> unused p = {}
   | Some (q, a) \<Rightarrow> pool_inv m G q \<and> a = CheckManage"
proof (cases "now < s_last_opened p + int (p_delay_interval p)")
  case True
  then show ?thesis using inv by (simp add: close_connection_def)
next
  case False
  let ?f = "find_unused (p_store p) (rev (p_list p)) None"
  show ?thesis
  proof (cases ?f)
    case None
    then have "\<forall>c \<in> set (p_list p). in_use (p_store p c)" by (simp add: find_unused_None)
    with None False show ?thesis by (auto simp: close_connection_def unused_def)
  next
    case (Some c)
    then have c: "c \<in> set (p_list p)" "c \<notin> G"
      using find_unused_Some [OF Some] pool_invD(6) [OF inv] by (auto simp: used_def)
    show ?thesis
      using close_internal_inv [OF inv c, of e] Some False
      by (auto simp: close_connection_def Let_def)
  qed
qed

text \<open>
  The head of \<^verbatim>\<open>fr_connection_pool_check\<close> can only fail its assertion \<open>found != NULL\<close> when more
  connections are waiting to be counted as active than the pool keeps spare.
\<close>

lemma pool_check_head_inv:
  assumes inv: "pool_inv m G p"
  shows "case pool_check_head e p now of
     None \<Rightarrow> p_spare p < card G \<and> unused p = {}
   | Some (q, a) \<Rightarrow> pool_inv m G q"
proof -
  note I = pool_invD [OF inv]
  let ?num = "s_num p + p_pending p" and ?spare = "p_pending p + (s_num p - s_active p)"
  have le: "\<not> ?num > p_max p" using I(3) by linarith
  have "card G \<le> card (used p)" using I(6) by (intro card_mono) auto
  then have sp: "s_num p - s_active p = card (unused p) + card G"
    using num_split [OF inv] I(7) by linarith
  show ?thesis
  proof (cases "s_last_checked p \<noteq> now \<and> \<not> ?num < p_min p \<and> ?spare > p_spare p \<and>
      p_pending p = 0 \<and> \<not> ?num \<le> p_min p")
    case True
    then have "pool_check_head e p now = close_connection e p now"
      using le by (simp add: pool_check_head_def Let_def)
    then show ?thesis
      using close_connection_inv [OF inv, of e now] sp True by (auto split: option.splits)
  next
    case False
    then show ?thesis using le inv by (auto simp: pool_check_head_def Let_def)
  qed
qed


section \<open>Reserving connections\<close>

lemma heap_num_card:
  assumes "pool_inv m G p"
  shows "fr_heap_num_elements (p_heap p) = card (unused p)"
  using pool_invD(9,10) [OF assms] heap_set_card by (metis fr_heap_num_elements_def)

lemma peek_unused:
  assumes inv: "pool_inv m G p"
  shows "fr_heap_peek (p_heap p) = None \<longleftrightarrow> unused p = {}"
    and "fr_heap_peek (p_heap p) = Some c \<Longrightarrow>
      c \<in> unused p \<and> (\<forall>d \<in> unused p. not_after (pool_cmp p) c d)"
  using hp.pk_None [OF pool_invD(9) [OF inv]] hp.pk_min [OF conn_cmp_order pool_invD(9) [OF inv]]
    pool_invD(10) [OF inv] by auto

text \<open>Closing unused connections: what is left, and that nothing else changed.\<close>

definition shrunk :: "pool \<Rightarrow> pool \<Rightarrow> bool" where
  "shrunk p q \<longleftrightarrow> set (p_list q) \<subseteq> set (p_list p) \<and> (\<forall>c \<in> set (p_list q). p_store q c = p_store p c) \<and>
     p_heap_cmp q = p_heap_cmp p \<and> p_spare q = p_spare p \<and> p_max q = p_max p \<and>
     p_max_uses q = p_max_uses p \<and> p_lifetime q = p_lifetime p \<and> used q = used p"

lemma shrunk_refl [simp]: "shrunk p p"
  by (simp add: shrunk_def)

lemma shrunk_trans: "shrunk p q \<Longrightarrow> shrunk q r \<Longrightarrow> shrunk p r"
  unfolding shrunk_def by (metis subset_iff)

lemma shrunk_env_ok: "shrunk p q \<Longrightarrow> env_ok e p \<Longrightarrow> env_ok e q"
  by (rule env_ok_mono) (auto simp: shrunk_def)

lemma close_internal_frame:
  assumes "fr_connection_close_internal e p c = Some q"
  shows "p_spare q = p_spare p \<and> p_heap_cmp q = p_heap_cmp p \<and> p_max q = p_max p \<and>
     p_max_uses q = p_max_uses p \<and> p_lifetime q = p_lifetime p"
proof (cases "in_use (p_store p c)")
  case True
  show ?thesis
    using assms unfolding fr_connection_close_internal_def if_P [OF True]
    by (simp add: fr_connection_unlink_def rad_assert_def split: if_split_asm) (hypsubst, simp)
next
  case False
  show ?thesis
    using assms unfolding fr_connection_close_internal_def if_not_P [OF False]
    by (simp add: fr_connection_unlink_def heap_del_def rad_assert_def split: if_split_asm) (hypsubst, simp)
qed

lemma if_ladder:
  "(if a then x else if b then d else if c then d else if g then x else if i then d else x) = y \<Longrightarrow>
     x = y \<or> d = y"
  by (auto split: if_split_asm)

lemma manage_cases:
  assumes "fr_connection_manage e p c now get = Some (q, r)"
  shows "(q = p \<and> r = 1) \<or> (fr_connection_close_internal e p c = Some q \<and> r = 0)"
proof -
  have "Some (p, 1) = Some (q, r) \<or>
      fr_connection_close_internal e p c \<bind> (\<lambda>q. Some (q, 0)) = Some (q, r)"
    using if_ladder [OF assms [unfolded fr_connection_manage_def Let_def]] .
  then show ?thesis by (auto split: Option.bind_splits)
qed

lemma manage_shrunk:
  assumes inv: "pool_inv m G p" and c: "c \<in> unused p"
  shows "\<exists>q r. fr_connection_manage e p c now get = Some (q, r) \<and> pool_inv m G q \<and> shrunk p q \<and>
     (if r = 0 then unused q = unused p - {c} else q = p)"
proof -
  have cl: "c \<in> set (p_list p)" "\<not> in_use (p_store p c)" using c by (auto simp: unused_def)
  obtain q r where m: "fr_connection_manage e p c now get = Some (q, r)" "pool_inv m G q"
    "if r = 0 then p_list q = remove1 c (p_list p) \<and> \<not> in_use (p_store p c) else q = p"
    "\<forall>d. d \<noteq> c \<longrightarrow> p_store q d = p_store p d"
    using manage_inv [OF inv cl(1), of e now get] by blast
  show ?thesis
  proof (cases "r = 0")
    case False
    then show ?thesis using m by auto
  next
    case True
    then have l: "set (p_list q) = set (p_list p) - {c}"
      using m(3) pool_invD(1) [OF inv] by (simp add: set_remove1_eq)
    have fr: "p_spare q = p_spare p \<and> p_heap_cmp q = p_heap_cmp p \<and> p_max q = p_max p \<and>
      p_max_uses q = p_max_uses p \<and> p_lifetime q = p_lifetime p"
      using manage_cases [OF m(1)] close_internal_frame by blast
    have "used q = used p" "unused q = unused p - {c}"
      using l m(4) cl by (auto simp: used_def unused_def)
    moreover have "\<forall>d \<in> set (p_list q). p_store q d = p_store p d" using l m(4) by blast
    ultimately have "shrunk p q" using l fr unfolding shrunk_def by blast
    then show ?thesis using True \<open>unused q = unused p - {c}\<close> m(1,2) by simp
  qed
qed

lemma get_loop_inv:
  assumes "pool_inv m G p" "card (unused p) < n"
  shows "\<exists>q r. get_loop e n p now = Some (q, r) \<and> pool_inv m G q \<and> shrunk p q \<and>
     (case r of None \<Rightarrow> unused q = {}
      | Some c \<Rightarrow> fr_heap_peek (p_heap q) = Some c \<and> fr_connection_manage e q c now True = Some (q, 1))"
  using assms
proof (induction n arbitrary: p)
  case (Suc n)
  show ?case
  proof (cases "fr_heap_peek (p_heap p)")
    case None
    moreover have "unused p = {}" using None peek_unused(1) [OF Suc.prems(1)] by simp
    ultimately show ?thesis using Suc.prems(1) by auto
  next
    case (Some c)
    then have c: "c \<in> unused p" using peek_unused(2) [OF Suc.prems(1)] by blast
    then have nu: "\<not> in_use (p_store p c)" by (simp add: unused_def)
    obtain q r where m: "fr_connection_manage e p c now True = Some (q, r)" "pool_inv m G q"
      "shrunk p q" "if r = 0 then unused q = unused p - {c} else q = p"
      using manage_shrunk [OF Suc.prems(1) c] by blast
    show ?thesis
    proof (cases "r = 0")
      case True
      then have "card (unused q) < card (unused p)"
        using m(4) c by (intro psubset_card_mono) auto
      then have "card (unused q) < n" using Suc.prems(2) by linarith
      from Suc.IH [OF m(2) this] show ?thesis
        using True m Some nu shrunk_trans [OF m(3)] by auto
    next
      case False
      then have "r = 1" using manage_cases [OF m(1)] by blast
      then show ?thesis using False m Some nu by auto
    qed
  qed
qed simp

lemma shrunk_at_max [simp]: "shrunk p (q\<lparr>s_last_at_max := t\<rparr>) = shrunk p q"
  by (simp add: shrunk_def used_def)

text \<open>
  A reserved connection has left the heap but is not marked in use until \<open>do_return\<close>, so the two
  steps are one here, as they are in the code's critical section.
\<close>

lemma do_return_unused:
  fixes e :: env
  assumes inv: "pool_inv m G p" and c: "c \<in> unused p"
  defines "q \<equiv> fst (do_return e (heap_del p c) c)"
  shows "pool_inv m G q \<and> used q = insert c (used p) \<and> unused q = unused p - {c} \<and>
    p_list q = p_list p \<and> connection (p_store q c) = connection (p_store p c) \<and>
    (\<forall>d. d \<noteq> c \<longrightarrow> p_store q d = p_store p d) \<and> p_spare q = p_spare p"
proof -
  note I = pool_invD [OF inv]
  obtain h' r where x: "fr_heap_extract (pool_cmp p) (p_heap p) (Some c) = (h', r)" by force
  have cl: "c \<in> set (p_list p)" "c \<notin> used p" using c by (auto simp: unused_def used_def)
  have ch: "c \<in> heap_set (p_heap p)" using c I(10) by simp
  note ex = hp.ext_member [OF conn_cmp_order I(9) ch x]
  have f: "p_list q = p_list p" "s_num q = s_num p" "p_pending q = p_pending p" "p_max q = p_max p"
    "p_heap q = h'" "s_active q = s_active p + 1" "p_heap_cmp q = p_heap_cmp p" "p_spare q = p_spare p"
    "p_store q = (p_store p)(c := (p_store p c)\<lparr>num_uses := num_uses (p_store p c) + 1,
         last_reserved := e_tv e, in_use := True\<rparr>)"
    by (simp_all add: q_def do_return_def heap_del_def x Let_def)
  have us: "used q = insert c (used p)" "unused q = unused p - {c}"
    using cl by (auto simp: used_def unused_def f)
  have "pool_inv m G q"
  proof (rule pool_invI)
    show "s_active q + card G = card (used q)" using us cl I(7) f by simp
    have "connection (p_store q d) = connection (p_store p d)" for d by (simp add: f)
    then show "inj_on (\<lambda>c. connection (p_store q c)) (set (p_list q))" using I(8) f by simp
    have "c \<notin> heap_set h'" using ex by simp
    then show "tracked_inv (pool_cmp q) (p_heap q)" using ex tracked_upd by (simp add: f)
    show "heap_set (p_heap q) = unused q" using ex us I(10) f by simp
  qed (use I f us ex in auto)
  then show ?thesis using us f by auto
qed

lemma do_return_gap:
  fixes e :: env
  assumes inv: "pool_inv m G p" and c: "c \<in> G"
  defines "q \<equiv> fst (do_return e p c)"
  shows "pool_inv m (G - {c}) q \<and> used q = used p \<and> unused q = unused p \<and>
    p_list q = p_list p \<and> connection (p_store q c) = connection (p_store p c) \<and>
    (\<forall>d. d \<noteq> c \<longrightarrow> p_store q d = p_store p d) \<and> p_spare q = p_spare p"
proof -
  note I = pool_invD [OF inv]
  have cu: "c \<in> used p" using c I(6) by auto
  then have out: "c \<notin> heap_set (p_heap p)" using I(10) by (auto simp: used_def unused_def)
  have f: "p_list q = p_list p" "s_num q = s_num p" "p_pending q = p_pending p" "p_max q = p_max p"
    "p_heap q = p_heap p" "s_active q = s_active p + 1" "p_heap_cmp q = p_heap_cmp p" "p_spare q = p_spare p"
    "p_store q = (p_store p)(c := (p_store p c)\<lparr>num_uses := num_uses (p_store p c) + 1,
         last_reserved := e_tv e, in_use := True\<rparr>)"
    by (simp_all add: q_def do_return_def Let_def)
  have us: "used q = used p" "unused q = unused p"
    using cu by (auto simp: used_def unused_def f)
  have fin: "finite G" using I(6) by (rule finite_subset) simp
  have "pool_inv m (G - {c}) q"
  proof (rule pool_invI)
    show "s_active q + card (G - {c}) = card (used q)"
      using us c fin I(7) f card_Suc_Diff1 [OF fin c] by simp
    have "connection (p_store q d) = connection (p_store p d)" for d by (simp add: f)
    then show "inj_on (\<lambda>c. connection (p_store q c)) (set (p_list q))" using I(8) f by simp
    show "tracked_inv (pool_cmp q) (p_heap q)" using I(9) tracked_upd [OF _ out] by (simp add: f)
  qed (use I f us in auto)
  then show ?thesis using us f by auto
qed


lemma get_locked_inv:
  assumes inv: "pool_inv m G p"
  shows "\<exists>q r. get_locked e p spawn = Some (q, r) \<and>
     (case r of
        Got c \<Rightarrow> \<exists>q0. pool_inv m G q0 \<and> shrunk p q0 \<and> fr_heap_peek (p_heap q0) = Some c \<and>
          fr_connection_manage e q0 c (e_now e) True = Some (q0, 1) \<and> q = heap_del q0 c
      | AtMax \<Rightarrow> pool_inv m G q \<and> shrunk p q \<and> unused q = {} \<and> spawn
      | NeedSpawn \<Rightarrow> pool_inv m G q \<and> shrunk p q \<and> unused q = {} \<and> spawn
      | NoSpawn \<Rightarrow> pool_inv m G q \<and> shrunk p q \<and> unused q = {} \<and> \<not> spawn)"
proof -
  have "card (unused p) < Suc (fr_heap_num_elements (p_heap p))" using heap_num_card [OF inv] by simp
  from get_loop_inv [OF inv this] obtain q r where
    l: "get_loop e (Suc (fr_heap_num_elements (p_heap p))) p (e_now e) = Some (q, r)"
      "pool_inv m G q" "shrunk p q"
      "case r of None \<Rightarrow> unused q = {} | Some c \<Rightarrow> fr_heap_peek (p_heap q) = Some c \<and>
         fr_connection_manage e q c (e_now e) True = Some (q, 1)"
    by blast
  show ?thesis
  proof (cases r)
    case (Some c)
    then show ?thesis using l unfolding get_locked_def l(1) by auto
  next
    case None
    moreover have "unused (q\<lparr>s_last_at_max := t\<rparr>) = unused q" for t by (simp add: unused_def)
    ultimately show ?thesis using l unfolding get_locked_def l(1) by simp
  qed
qed

text \<open>
  What a reservation does: nothing is given away, or a connection that nobody held is now held,
  and its handle is returned.
\<close>

definition reserved :: "pool \<Rightarrow> pool \<Rightarrow> nat option \<Rightarrow> bool" where
  "reserved p q r \<longleftrightarrow>
     (case r of None \<Rightarrow> used q = used p
      | Some h \<Rightarrow> \<exists>c. c \<notin> used p \<and> used q = insert c (used p) \<and> connection (p_store q c) = h) \<and>
     (\<forall>c \<in> used p. p_store q c = p_store p c)"

lemma used_shrunk: "shrunk p q \<Longrightarrow> used q = used p \<and> (\<forall>c \<in> used p. p_store q c = p_store p c)"
  unfolding shrunk_def used_def by blast

lemma get_internal_inv:
  assumes inv: "pool_inv m G p" and env: "env_ok e p"
  shows "\<exists>q r. fr_connection_get_internal e exiting p spawn = Some (q, r) \<and> pool_inv m G q \<and>
     reserved p q r"
proof (cases exiting)
  case True
  then show ?thesis using inv by (simp add: fr_connection_get_internal_def reserved_def)
next
  case False
  obtain q r where l: "get_locked e p spawn = Some (q, r)" and
    g: "case r of
        Got c \<Rightarrow> \<exists>q0. pool_inv m G q0 \<and> shrunk p q0 \<and> fr_heap_peek (p_heap q0) = Some c \<and>
          fr_connection_manage e q0 c (e_now e) True = Some (q0, 1) \<and> q = heap_del q0 c
      | AtMax \<Rightarrow> pool_inv m G q \<and> shrunk p q \<and> unused q = {} \<and> spawn
      | NeedSpawn \<Rightarrow> pool_inv m G q \<and> shrunk p q \<and> unused q = {} \<and> spawn
      | NoSpawn \<Rightarrow> pool_inv m G q \<and> shrunk p q \<and> unused q = {} \<and> \<not> spawn"
    using get_locked_inv [OF inv] by blast
  have idle: ?thesis if "r = AtMax \<or> r = NoSpawn"
  proof -
    have "pool_inv m G q" "shrunk p q" using that g by auto
    then show ?thesis
      using that l False used_shrunk by (auto simp: fr_connection_get_internal_def reserved_def)
  qed
  show ?thesis
  proof (cases r)
    case (Got c)
    then obtain q0 where q0: "pool_inv m G q0" "shrunk p q0" "fr_heap_peek (p_heap q0) = Some c"
      "q = heap_del q0 c" using g by auto
    have c: "c \<in> unused q0" using peek_unused(2) [OF q0(1,3)] by blast
    then have cu: "c \<notin> used p" using used_shrunk [OF q0(2)] by (auto simp: used_def unused_def)
    let ?q = "fst (do_return e q c)"
    note d = do_return_unused [OF q0(1) c, of e, folded q0(4)]
    have "do_return e q c = (?q, Some (connection (p_store q0 c)))"
      by (simp add: do_return_def Let_def q0(4) heap_del_def)
    then have run: "fr_connection_get_internal e exiting p spawn = Some (?q, Some (connection (p_store q0 c)))"
      using l Got False by (simp add: fr_connection_get_internal_def)
    have "reserved p ?q (Some (connection (p_store q0 c)))"
      using d used_shrunk [OF q0(2)] cu unfolding reserved_def by force
    then show ?thesis using run d by blast
  next
    case NeedSpawn
    then have q: "pool_inv m G q" "shrunk p q" using g by auto
    have envq: "env_ok e q" using shrunk_env_ok [OF q(2) env] .
    obtain q2 s where sp: "fr_connection_spawn e q (e_now e) True = Some (q2, s)" and
      s: "case s of None \<Rightarrow> pool_inv m G q2 \<and> p_list q2 = p_list q \<and> p_store q2 = p_store q
        | Some c \<Rightarrow> pool_inv m (if True then insert c G else G) q2 \<and> p_list q2 = c # p_list q \<and>
          c \<notin> set (p_list q) \<and> in_use (p_store q2 c) = True \<and>
          (\<forall>d. d \<noteq> c \<longrightarrow> p_store q2 d = p_store q d) \<and>
          e_this e = Some c \<and> e_handle e = Some (connection (p_store q2 c))"
      using spawn_inv [OF q(1) envq, of "e_now e" True] by blast
    note run = fr_connection_get_internal_def if_not_P [OF False] l NeedSpawn sp
    show ?thesis
    proof (cases s)
      case None
      then have "used q2 = used q" "\<forall>c. p_store q2 c = p_store q c" using s by (auto simp: used_def)
      then show ?thesis using None s used_shrunk [OF q(2)] unfolding run
        by (auto simp: reserved_def sp)
    next
      case (Some c)
      have c: "pool_inv m (insert c G) q2" "p_list q2 = c # p_list q" "c \<notin> set (p_list q)"
        "in_use (p_store q2 c)" "\<forall>d. d \<noteq> c \<longrightarrow> p_store q2 d = p_store q d"
        using s Some by auto
      then have cu: "used q2 = insert c (used q)" "c \<notin> used q" by (auto simp: used_def)
      have "c \<notin> G" using cu(2) pool_invD(6) [OF q(1)] by auto
      then have G: "insert c G - {c} = G" by simp
      let ?q = "fst (do_return e q2 c)"
      have d: "pool_inv m G ?q" "used ?q = used q2" "connection (p_store ?q c) = connection (p_store q2 c)"
        "\<forall>d. d \<noteq> c \<longrightarrow> p_store ?q d = p_store q2 d"
        using do_return_gap [OF c(1) insertI1, of e] unfolding G by blast+
      have ret: "do_return e q2 c = (?q, Some (connection (p_store q2 c)))"
        by (simp add: do_return_def Let_def)
      have keep: "p_store ?q x = p_store p x" if "x \<in> used p" for x
        using that cu(2) c(5) d(4) used_shrunk [OF q(2)] by metis
      have u: "c \<notin> used p \<and> used ?q = insert c (used p)" using cu d(2) used_shrunk [OF q(2)] by simp
      then have "\<exists>d. d \<notin> used p \<and> used ?q = insert d (used p) \<and>
          connection (p_store ?q d) = connection (p_store q2 c)"
        using d(3) by blast
      then have "reserved p ?q (Some (connection (p_store q2 c)))"
        using keep by (simp add: reserved_def)
      moreover have "fr_connection_get_internal e exiting p spawn = Some (?q, Some (connection (p_store q2 c)))"
        using Some ret unfolding run by (simp add: sp)
      ultimately show ?thesis using d(1) by blast
    qed
  qed (use idle in blast)+
qed


section \<open>Checking the pool, releasing, closing\<close>

text \<open>The connections in use are untouched.\<close>

definition keeps :: "pool \<Rightarrow> pool \<Rightarrow> bool" where
  "keeps p q \<longleftrightarrow> used q = used p \<and> (\<forall>c \<in> used p. p_store q c = p_store p c)"

lemma keeps_refl [simp]: "keeps p p"
  by (simp add: keeps_def)

lemma keeps_trans: "keeps p q \<Longrightarrow> keeps q r \<Longrightarrow> keeps p r"
  by (simp add: keeps_def)

lemma keeps_shrunk: "shrunk p q \<Longrightarrow> keeps p q"
  using used_shrunk by (simp add: keeps_def)

lemma keeps_checked [simp]: "keeps p (q\<lparr>s_last_checked := t\<rparr>) = keeps p q"
  "keeps p (q\<lparr>p_next_delay := n, p_delay_interval := d\<rparr>) = keeps p q"
  by (simp_all add: keeps_def used_def)

lemma manage_all_keeps:
  assumes "pool_inv m G p" "set cs \<subseteq> set (p_list p)" "distinct cs"
  shows "\<exists>q. manage_all e p cs now = Some q \<and> pool_inv m G q \<and> shrunk p q"
  using assms
proof (induction cs arbitrary: p)
  case (Cons c cs)
  show ?case
  proof (cases "in_use (p_store p c)")
    case True
    then have "fr_connection_manage e p c now False = Some (p, 1)" by (simp add: fr_connection_manage_def)
    then show ?thesis using Cons by auto
  next
    case False
    then have c: "c \<in> unused p" using Cons.prems by (simp add: unused_def)
    obtain q r where mg: "fr_connection_manage e p c now False = Some (q, r)" "pool_inv m G q"
      "shrunk p q" "if r = 0 then unused q = unused p - {c} else q = p"
      using manage_shrunk [OF Cons.prems(1) c, of e now False] by blast
    have "set (p_list q) = used q \<union> unused q" "set (p_list p) = used p \<union> unused p"
      by (auto simp: used_def unused_def)
    moreover have "used q = used p" using used_shrunk [OF mg(3)] by blast
    moreover have "unused p - {c} \<subseteq> unused q" using mg(4) by (cases "r = 0") auto
    ultimately have "set cs \<subseteq> set (p_list q)" using Cons.prems(2,3) by auto
    then obtain s where "manage_all e q cs now = Some s" "pool_inv m G s" "shrunk q s"
      using Cons.IH [OF mg(2)] Cons.prems(3) by auto
    then show ?thesis using mg shrunk_trans by auto
  qed
qed simp

lemma pool_check_tail_keeps:
  assumes "pool_inv m G p"
  shows "\<exists>q. pool_check_tail e p now = Some q \<and> pool_inv m G q \<and> keeps p q"
  using manage_all_keeps [OF assms subset_refl, of e now] pool_invD(1) [OF assms] keeps_shrunk
  by (auto simp: pool_check_tail_def)

lemma close_connection_keeps:
  assumes inv: "pool_inv m G p" and run: "close_connection e p now = Some (q, a)"
  shows "keeps p q \<and> p_list q \<in> {p_list p} \<union> {remove1 c (p_list p) | c. c \<in> set (p_list p)} \<and>
    (\<forall>c \<in> set (p_list q). p_store q c = p_store p c)"
proof (cases "now < s_last_opened p + int (p_delay_interval p)")
  case True
  then show ?thesis using run by (simp add: close_connection_def)
next
  case False
  then obtain c where c: "find_unused (p_store p) (rev (p_list p)) None = Some c"
    using run by (auto simp: close_connection_def split: option.splits)
  then have cl: "c \<in> set (p_list p)" "\<not> in_use (p_store p c)"
    using find_unused_Some [OF c] by auto
  then have "c \<notin> G" using pool_invD(6) [OF inv] by (auto simp: used_def)
  from close_internal_inv [OF inv cl(1) this, of e] obtain s where
    s: "fr_connection_close_internal e p c = Some s" "p_list s = remove1 c (p_list p)"
    "\<forall>d. d \<noteq> c \<longrightarrow> p_store s d = p_store p d" by blast
  have l: "set (p_list s) = set (p_list p) - {c}" using s(2) pool_invD(1) [OF inv] by (simp add: set_remove1_eq)
  obtain x y where q: "q = s\<lparr>p_next_delay := x, p_delay_interval := y\<rparr>"
    using run False c s(1) by (auto simp: close_connection_def Let_def)
  have "used s = used p" "\<forall>d \<in> used p. d \<noteq> c" using l s(3) cl by (auto simp: used_def)
  then have "keeps p s" using s(3) by (simp add: keeps_def)
  moreover have "\<forall>d \<in> set (p_list s). p_store s d = p_store p d" using l s(3) by auto
  ultimately show ?thesis using q s(2) cl(1) by auto
qed

lemma pool_check_head_keeps:
  assumes inv: "pool_inv m G p" and run: "pool_check_head e p now = Some (q, a)"
  shows "keeps p q \<and> set (p_list q) \<subseteq> set (p_list p) \<and> (\<forall>c \<in> set (p_list q). p_store q c = p_store p c)"
proof -
  have "q = p \<or> close_connection e p now = Some (q, a)"
    using run by (auto simp: pool_check_head_def Let_def split: if_splits)
  then show ?thesis
  proof
    assume "close_connection e p now = Some (q, a)"
    then have "keeps p q \<and> p_list q \<in> {p_list p} \<union> {remove1 c (p_list p) | c. c \<in> set (p_list p)} \<and>
      (\<forall>c \<in> set (p_list q). p_store q c = p_store p c)" using close_connection_keeps [OF inv] by blast
    then show ?thesis using set_remove1_subset by fastforce
  qed simp
qed

lemma pool_check_inv:
  assumes inv: "pool_inv m G p" and env: "env_ok e p" and spare: "card G \<le> p_spare p"
  shows "\<exists>q. fr_connection_pool_check e p = Some q \<and> pool_inv m G q \<and> keeps p q"
proof -
  obtain q a where h: "pool_check_head e p (e_now e) = Some (q, a)" and q: "pool_inv m G q"
    using pool_check_head_inv [OF inv, of e "e_now e"] spare by (auto split: option.splits)
  note k = pool_check_head_keeps [OF inv h]
  have envq: "env_ok e q" using k by (intro env_ok_mono [OF env]) auto
  show ?thesis
  proof (cases a)
    case CheckDone
    then show ?thesis using h q k by (auto simp: fr_connection_pool_check_def)
  next
    case CheckManage
    then show ?thesis using h q k pool_check_tail_keeps [OF q, of e "e_now e"] keeps_trans
      unfolding fr_connection_pool_check_def by auto
  next
    case CheckSpawn
    obtain s r where sp: "fr_connection_spawn e q (e_now e) False = Some (s, r)" and
      s: "case r of None \<Rightarrow> pool_inv m G s \<and> p_list s = p_list q \<and> p_store s = p_store q
        | Some c \<Rightarrow> pool_inv m (if False then insert c G else G) s \<and> p_list s = c # p_list q \<and>
          c \<notin> set (p_list q) \<and> in_use (p_store s c) = False \<and> (\<forall>d. d \<noteq> c \<longrightarrow> p_store s d = p_store q d) \<and>
          e_this e = Some c \<and> e_handle e = Some (connection (p_store s c))"
      using spawn_inv [OF q envq, of "e_now e" False] by blast
    have si: "pool_inv m G s" using s by (auto split: option.splits)
    have "keeps q s"
    proof (cases r)
      case None
      then show ?thesis using s by (simp add: keeps_def used_def)
    next
      case (Some c)
      then have "p_store s d = p_store q d" if "d \<in> set (p_list q)" for d
        using s that by (cases "d = c") auto
      then show ?thesis using s Some by (auto simp: keeps_def used_def)
    qed
    then have "keeps p s" using k keeps_trans by blast
    then show ?thesis using h sp CheckSpawn pool_check_tail_keeps [OF si, of e "e_now e"] keeps_trans
      unfolding fr_connection_pool_check_def by auto
  qed
qed

text \<open>Looking up a handle somebody holds, and one nobody holds.\<close>

lemma find_held:
  assumes inv: "pool_inv m G p" and c: "c \<in> used p"
  shows "fr_connection_find p (Some (connection (p_store p c))) = Some (Some c)"
proof -
  have mem: "c \<in> set (p_list p)" and use: "in_use (p_store p c)" using c by (auto simp: used_def)
  let ?P = "\<lambda>d. connection (p_store p d) = connection (p_store p c)"
  obtain d where d: "find ?P (p_list p) = Some d"
    using mem find_None_iff [of ?P "p_list p"] by (cases "find ?P (p_list p)") auto
  then have "?P d" "d \<in> set (p_list p)" by (auto simp: find_Some_iff)
  then have "d = c" using pool_invD(8) [OF inv] mem by (auto dest: inj_onD)
  then show ?thesis using d use by (simp add: fr_connection_find_def)
qed

lemma find_unknown:
  "h \<notin> (\<lambda>c. connection (p_store p c)) ` set (p_list p) \<Longrightarrow> fr_connection_find p (Some h) = Some None"
  by (auto simp: fr_connection_find_def find_None_iff image_iff split: option.splits
      dest!: find_Some_iff [THEN iffD1])

lemma release_locked_inv:
  assumes inv: "pool_inv m G p" and c: "c \<in> used p" "c \<notin> G"
  shows "\<exists>q. release_locked e p c = Some q \<and> pool_inv m G q \<and> used q = used p - {c} \<and>
     unused q = insert c (unused p) \<and> p_list q = p_list p \<and> p_spare q = p_spare p \<and>
     (\<forall>d. connection (p_store q d) = connection (p_store p d)) \<and> (\<forall>d. d \<noteq> c \<longrightarrow> p_store q d = p_store p d)"
proof -
  note I = pool_invD [OF inv]
  let ?v = "(p_store p c)\<lparr>in_use := False, last_released := e_tv e\<rparr>"
  define p1 where "p1 = p\<lparr>p_store := (p_store p)(c := ?v)\<rparr>"
  have out: "c \<notin> heap_set (p_heap p1)" using I(10) c by (simp add: p1_def used_def unused_def)
  have t: "tracked_inv (pool_cmp p1) (p_heap p1)" using tracked_upd [OF I(9)] out by (simp add: p1_def)
  have "card (unused p) < hp_size (p_heap p)" using num_split [OF inv] I(3,4,11) by linarith
  then have room: "card (heap_set (p_heap p1)) < hp_size (p_heap p1)" using I(10) by (simp add: p1_def)
  obtain h' r where i: "fr_heap_insert (pool_cmp p1) (e_malloc e) (e_mem e) (p_heap p1) c = (h', r)"
    by force
  note ins = hp.ins_member [OF conn_cmp_order t out room i]
  have "card G < card (used p)" using c I(6) by (intro psubset_card_mono) auto
  then have act: "s_active p \<noteq> 0" using I(7) by linarith
  define q where "q = p1\<lparr>p_heap := h', s_active := s_active p - 1\<rparr>"
  have run: "release_locked e p c = Some q"
    using act i unfolding release_locked_def p1_def [symmetric] Let_def heap_add_def
    by (simp add: q_def p1_def)
  have f: "p_list q = p_list p" "s_num q = s_num p" "p_pending q = p_pending p" "p_max q = p_max p"
    "p_heap q = h'" "s_active q = s_active p - 1" "pool_cmp q = pool_cmp p1" "p_spare q = p_spare p"
    "p_store q = (p_store p)(c := ?v)"
    by (simp_all add: q_def p1_def)
  have cl: "c \<in> set (p_list p)" using c by (simp add: used_def)
  have us: "used q = used p - {c}" "unused q = insert c (unused p)"
    using cl by (auto simp: used_def unused_def f)
  have conn: "connection (p_store q d) = connection (p_store p d)" for d by (simp add: f)
  have "pool_inv m G q"
  proof (rule pool_invI)
    show "s_active q + card G = card (used q)" using us c act I(7) f by simp
    show "inj_on (\<lambda>c. connection (p_store q c)) (set (p_list q))" using conn I(8) f by simp
    show "tracked_inv (pool_cmp q) (p_heap q)" using ins f by simp
    show "heap_set (p_heap q) = unused q" using ins us I(10) f by (simp add: p1_def)
    show "2048 \<le> hp_size (p_heap q)" using ins I(11) f by (simp add: p1_def)
  qed (use I f us c in auto)
  then show ?thesis using run f us conn by auto
qed

end
