(* ===== verification/PoolOps.thy ===== *)
theory PoolOps
  imports ConnectionPool
begin

text \<open>
  The operations of the connection pool called by one thread at a time, from pool creation to
  \<^verbatim>\<open>fr_connection_pool_free\<close>: each returns (no assertion fails, every loop ends), keeps
  the pool consistent, and reserves, returns or closes exactly one connection.
\<close>

section \<open>Which connection is reserved\<close>

definition usable :: "pool \<Rightarrow> int \<Rightarrow> nat \<Rightarrow> bool" where
  "usable p now c \<longleftrightarrow>
     \<not> (p_max_uses p > 0 \<and> num_uses (p_store p c) \<ge> p_max_uses p) \<and>
     \<not> (p_lifetime p > 0 \<and> created (p_store p c) + int (p_lifetime p) < now)"

lemma manage_get_iff:
  assumes "fr_connection_manage e p c now True = Some (q, r)" "\<not> in_use (p_store p c)"
  shows "r = (if usable p now c then 1 else 0)"
  using assms by (auto simp: fr_connection_manage_def usable_def Let_def split: if_splits Option.bind_splits)

lemma usable_shrunk: "shrunk p q \<Longrightarrow> c \<in> set (p_list q) \<Longrightarrow> usable q now c = usable p now c"
  by (simp add: shrunk_def usable_def)

lemma not_after_shrunk:
  assumes "shrunk p q" "c \<in> set (p_list q)" "d \<in> set (p_list q)"
  shows "not_after (pool_cmp q) c d = not_after (pool_cmp p) c d"
  using assms by (simp add: shrunk_def not_after_def conn_cmp_def split: heap_cmp.split)

lemma get_loop_best:
  assumes "pool_inv m G p" "get_loop e n p now = Some (q, r)"
  shows "case r of None \<Rightarrow> \<forall>d \<in> unused p. \<not> usable p now d
     | Some c \<Rightarrow> c \<in> unused p \<and> usable p now c \<and>
         (\<forall>d \<in> unused p. usable p now d \<longrightarrow> not_after (pool_cmp p) c d)"
  using assms
proof (induction n arbitrary: p)
  case (Suc n)
  show ?case
  proof (cases "fr_heap_peek (p_heap p)")
    case None
    moreover have "unused p = {}" using None peek_unused(1) [OF Suc.prems(1)] by simp
    ultimately show ?thesis using Suc.prems by auto
  next
    case (Some c)
    then have c: "c \<in> unused p" "\<forall>d \<in> unused p. not_after (pool_cmp p) c d"
      using peek_unused(2) [OF Suc.prems(1)] by blast+
    then have nu: "\<not> in_use (p_store p c)" by (simp add: unused_def)
    obtain s k where m: "fr_connection_manage e p c now True = Some (s, k)" "pool_inv m G s"
      "shrunk p s" "if k = 0 then unused s = unused p - {c} else s = p"
      using manage_shrunk [OF Suc.prems(1) c(1)] by blast
    note k = manage_get_iff [OF m(1) nu]
    show ?thesis
    proof (cases "usable p now c")
      case True
      then have "s = p" "r = Some c" using Suc.prems(2) Some nu m k by auto
      then show ?thesis using True c by simp
    next
      case False
      then have l: "get_loop e n s now = Some (q, r)" and u: "unused s = unused p - {c}"
        using Suc.prems(2) Some nu m k by auto
      have mem: "d \<in> set (p_list s)" if "d \<in> unused p - {c}" for d using that u by (auto simp: unused_def)
      note us = usable_shrunk [OF m(3) mem] and na = not_after_shrunk [OF m(3) mem mem]
      have skip: "(\<forall>d \<in> unused p. usable p now d \<longrightarrow> P d) \<longleftrightarrow> (\<forall>d \<in> unused p - {c}. usable p now d \<longrightarrow> P d)" for P
        using False by auto
      show ?thesis
      proof (cases r)
        case None
        then have "\<forall>d \<in> unused s. \<not> usable s now d" using Suc.IH [OF m(2) l] by simp
        then show ?thesis using None u us False by auto
      next
        case (Some x)
        then have "x \<in> unused s" "usable s now x"
          "\<forall>d \<in> unused s. usable s now d \<longrightarrow> not_after (pool_cmp s) x d"
          using Suc.IH [OF m(2) l] by auto
        then show ?thesis using Some u us na unfolding skip by simp
      qed
    qed
  qed
qed simp

text \<open>Handles of unused connections survive until they are closed.\<close>

lemma get_internal_best:
  assumes inv: "pool_inv m G p" and d: "d \<in> unused p" "usable p (e_now e) d"
    and run: "fr_connection_get_internal e False p spawn = Some (q, r)"
  shows "\<exists>c \<in> unused p. r = Some (connection (p_store p c)) \<and> usable p (e_now e) c \<and>
     in_use (p_store q c) \<and> p_store q c = (p_store p c)\<lparr>num_uses := num_uses (p_store p c) + 1,
         last_reserved := e_tv e, in_use := True\<rparr> \<and>
     (\<forall>x \<in> unused p. usable p (e_now e) x \<longrightarrow> not_after (pool_cmp p) c x)"
proof -
  let ?n = "Suc (fr_heap_num_elements (p_heap p))"
  have "card (unused p) < ?n" using heap_num_card [OF inv] by simp
  from get_loop_inv [OF inv this] obtain s x where
    l: "get_loop e ?n p (e_now e) = Some (s, x)" "pool_inv m G s" "shrunk p s"
      "case x of None \<Rightarrow> unused s = {} | Some c \<Rightarrow> fr_heap_peek (p_heap s) = Some c \<and>
         fr_connection_manage e s c (e_now e) True = Some (s, 1)"
    by blast
  note b = get_loop_best [OF inv l(1)]
  obtain c where [simp]: "x = Some c" using b d by (cases x) auto
  have "c \<in> unused s" using l(4) peek_unused(2) [OF l(2)] by auto
  then have st: "p_store s c = p_store p c" using l(3) by (simp add: shrunk_def unused_def)
  have "get_locked e p spawn = Some (heap_del s c, Got c)" using l(1) by (simp add: get_locked_def)
  then have "(q, r) = do_return e (heap_del s c) c"
    using run by (simp add: fr_connection_get_internal_def)
  then show ?thesis using b st by (auto simp: do_return_def heap_del_def Let_def)
qed

section \<open>Closing everything\<close>

lemma close_heads_inv:
  assumes "pool_inv m {} p" "cs = p_list p"
  shows "\<exists>q. close_heads e p cs = Some q \<and> pool_inv m {} q \<and> p_list q = []"
  using assms
proof (induction cs arbitrary: p)
  case (Cons c cs)
  have "c \<in> set (p_list p)" using Cons.prems(2) by (metis list.set_intros(1))
  from close_internal_inv [OF Cons.prems(1) this, of e] obtain q where
    q: "fr_connection_close_internal e p c = Some q" "pool_inv m {} q" "p_list q = remove1 c (p_list p)"
    by blast
  have "cs = p_list q" using q(3) Cons.prems(2) by (metis remove1.simps(2))
  then show ?case using Cons.IH [OF q(2)] q(1) by simp
qed simp

lemma pool_free_inv:
  assumes "pool_inv m {} p"
  shows "\<exists>q b. fr_connection_pool_free e p = Some (q, b) \<and>
     (if p_ref p > 0 then \<not> b \<and> q = p\<lparr>p_ref := p_ref p - 1\<rparr> else b \<and> p_list q = [])"
proof (cases "p_ref p > 0")
  case True
  then show ?thesis by (auto simp: fr_connection_pool_free_def)
next
  case False
  obtain q where q: "close_heads e p (p_list p) = Some q" "pool_inv m {} q" "p_list q = []"
    using close_heads_inv [OF assms refl] by blast
  then show ?thesis using False pool_invD(2) [OF q(2)] by (auto simp: fr_connection_pool_free_def)
qed

section \<open>Starting a pool\<close>

text \<open>Every call of the allocator and of \<open>create\<close> returns something new.\<close>

definition envs_fresh :: "(nat \<Rightarrow> env) \<Rightarrow> bool" where
  "envs_fresh es \<longleftrightarrow> (\<forall>i j. i \<noteq> j \<longrightarrow>
     (e_this (es i) = None \<or> e_this (es i) \<noteq> e_this (es j)) \<and>
     (e_handle (es i) = None \<or> e_handle (es i) \<noteq> e_handle (es j)))"

definition from_envs :: "(nat \<Rightarrow> env) \<Rightarrow> nat \<Rightarrow> pool \<Rightarrow> bool" where
  "from_envs es i p \<longleftrightarrow> (\<forall>c \<in> set (p_list p). \<exists>j < i. e_this (es j) = Some c \<and>
     e_handle (es j) = Some (connection (p_store p c)))"

lemma from_envs_ok:
  assumes "envs_fresh es" "from_envs es i p"
  shows "env_ok (es i) p"
proof -
  have A: "False" if h: "e_this (es i) = Some c" "c \<in> set (p_list p)" for c
  proof -
    obtain j where "j < i" "e_this (es j) = Some c" using assms(2) h(2) by (auto simp: from_envs_def)
    then show False using assms(1) h(1) unfolding envs_fresh_def by (metis less_irrefl option.distinct(1))
  qed
  have B: "False" if h: "e_handle (es i) = Some (connection (p_store p c))" "c \<in> set (p_list p)" for c
  proof -
    obtain j where "j < i" "e_handle (es j) = Some (connection (p_store p c))"
      using assms(2) h(2) by (auto simp: from_envs_def)
    then show False using assms(1) h(1) unfolding envs_fresh_def by (metis less_irrefl option.distinct(1))
  qed
  show ?thesis using A B by (auto simp: env_ok_def)
qed

lemma spawn_locked_frame:
  "spawn_locked p now = Some (q, r) \<Longrightarrow>
     p_heap_cmp q = p_heap_cmp p \<and> p_spread q = p_spread p \<and> p_ref q = p_ref p"
  by (auto simp: spawn_locked_def rad_assert_def split: if_splits)

lemma if_pending [simp]:
  "(if b then p\<lparr>p_max_pending := x\<rparr> else p) = p\<lparr>p_max_pending := (if b then x else p_max_pending p)\<rparr>"
  by simp

lemma spawn_link_frame:
  "spawn_link e p now b n h c = Some q \<Longrightarrow>
     p_heap_cmp q = p_heap_cmp p \<and> p_spread q = p_spread p \<and> p_ref q = p_ref p"
  by (cases b) (auto simp: spawn_link_def heap_add_def fr_connection_link_head_def rad_assert_def Let_def
      split: if_split_asm)

lemma spawn_frame:
  assumes "fr_connection_spawn e p now b = Some (q, r)"
  shows "p_heap_cmp q = p_heap_cmp p \<and> p_spread q = p_spread p \<and> p_ref q = p_ref p"
proof (cases "s_num p = 0 \<and> p_pending p \<noteq> 0 \<and> s_last_failed p \<noteq> 0")
  case True
  then show ?thesis using assms by (simp add: fr_connection_spawn_def)
next
  case False
  then obtain p1 x where l: "spawn_locked p now = Some (p1, x)"
    using assms by (auto simp: fr_connection_spawn_def split: Option.bind_splits)
  note unf = fr_connection_spawn_def if_not_P [OF False] l bind.bind_lunit prod.case
  have "q = p1 \<or> q = spawn_failed p1 now \<or> (\<exists>n h c. spawn_link e p1 now b n h c = Some q)"
    using assms unfolding unf by (auto split: if_split_asm option.splits Option.bind_splits)
  then show ?thesis
    using spawn_locked_frame [OF l] spawn_link_frame by (auto simp: spawn_failed_def)
qed

lemma spawn_start_inv:
  assumes "pool_inv 0 {} p" "envs_fresh es" "from_envs es i p" "used p = {}"
  shows "\<exists>q ok. spawn_start es p now i k = Some (q, ok) \<and> pool_inv 0 {} q \<and> used q = {} \<and>
     (ok \<longrightarrow> s_num q = s_num p + k) \<and> p_heap_cmp q = p_heap_cmp p \<and> p_spread q = p_spread p"
  using assms
proof (induction k arbitrary: p i)
  case (Suc k)
  obtain q r where sp: "fr_connection_spawn (es i) p now False = Some (q, r)" and
    s: "case r of None \<Rightarrow> pool_inv 0 {} q \<and> p_list q = p_list p \<and> p_store q = p_store p
        | Some c \<Rightarrow> pool_inv 0 (if False then insert c {} else {}) q \<and> p_list q = c # p_list p \<and>
          c \<notin> set (p_list p) \<and> in_use (p_store q c) = False \<and> (\<forall>d. d \<noteq> c \<longrightarrow> p_store q d = p_store p d) \<and>
          e_this (es i) = Some c \<and> e_handle (es i) = Some (connection (p_store q c))"
    using spawn_inv [OF Suc.prems(1) from_envs_ok [OF Suc.prems(2,3)], of now False] by blast
  note fr = spawn_frame [OF sp]
  show ?case
  proof (cases r)
    case None
    then show ?thesis using sp s fr Suc.prems(4) by (auto simp: used_def)
  next
    case (Some c)
    then have c: "pool_inv 0 {} q" "p_list q = c # p_list p" "c \<notin> set (p_list p)" "\<not> in_use (p_store q c)"
      "\<forall>d. d \<noteq> c \<longrightarrow> p_store q d = p_store p d" "e_this (es i) = Some c"
      "e_handle (es i) = Some (connection (p_store q c))" using s by auto
    have same: "p_store q d = p_store p d" if "d \<in> set (p_list p)" for d
      using c(3,5) that by metis
    have fe: "from_envs es (Suc i) q"
      unfolding from_envs_def c(2)
    proof
      fix d assume "d \<in> set (c # p_list p)"
      then consider "d = c" | "d \<in> set (p_list p)" by auto
      then show "\<exists>j < Suc i. e_this (es j) = Some d \<and> e_handle (es j) = Some (connection (p_store q d))"
      proof cases
        case 2
        then obtain j where "j < i" "e_this (es j) = Some d" "e_handle (es j) = Some (connection (p_store p d))"
          using Suc.prems(3) by (auto simp: from_envs_def)
        then show ?thesis using same [OF 2] by (intro exI [of _ j]) simp
      qed (use c in auto)
    qed
    have u: "used q = {}" using Suc.prems(4) same c by (auto simp: used_def)
    have n: "s_num q = Suc (s_num p)" using pool_invD(2) c(1,2) Suc.prems(1) by (metis length_Cons)
    from Suc.IH [OF c(1) Suc.prems(2) fe u] show ?thesis using Some sp n fr by auto
  qed
qed (use exI [of id True] in auto)

text \<open>Conditional updates of one field, as updates with a conditional value.\<close>

lemma if_upd:
  "(if b then p else p\<lparr>p_max := x\<rparr>) = p\<lparr>p_max := (if b then p_max p else x)\<rparr>"
  "(if b then p else p\<lparr>p_start := x\<rparr>) = p\<lparr>p_start := (if b then p_start p else x)\<rparr>"
  "(if b then p else p\<lparr>p_spare := x\<rparr>) = p\<lparr>p_spare := (if b then p_spare p else x)\<rparr>"
  "(if b then p\<lparr>p_idle_timeout := x\<rparr> else p) = p\<lparr>p_idle_timeout := (if b then x else p_idle_timeout p)\<rparr>"
  "(if b then p\<lparr>p_cleanup_interval := x\<rparr> else p) =
     p\<lparr>p_cleanup_interval := (if b then x else p_cleanup_interval p)\<rparr>"
  by simp_all

lemma pool_limits_shape:
  "pool_limits p = (if p_max p = 0 \<or> p_max p < p_min p then None
     else let mx = min (p_max p) 1024;
              idle = (if p_lifetime p > 0 \<and> p_lifetime p < p_idle_timeout p then 0 else p_idle_timeout p)
          in Some (p\<lparr>p_max_pending := p_max p, p_max := mx, p_start := min (p_start p) mx,
               p_spare := min (p_spare p) (u32_sub mx (p_min p)), p_idle_timeout := idle,
               p_cleanup_interval := (if idle > 0 then min (p_cleanup_interval p) idle
                 else p_cleanup_interval p)\<rparr>))"
  unfolding pool_limits_def Let_def if_upd by (simp add: min_def not_le)

lemma if_None_Some: "(if b then None else Some x) = Some y \<longleftrightarrow> \<not> b \<and> y = x"
  by auto

lemma pool_limits_max:
  "pool_limits p = Some q \<Longrightarrow> 0 < p_max q \<and> p_max q \<le> 1024 \<and> p_start q \<le> p_max q"
  unfolding pool_limits_shape Let_def if_None_Some by (elim conjE) (simp add: min_le_iff_disj)

lemma pool_limits_frame:
  "pool_limits p = Some q \<Longrightarrow>
     p_list q = p_list p \<and> s_num q = s_num p \<and> p_pending q = p_pending p \<and> s_active q = s_active p \<and>
     p_heap q = p_heap p \<and> p_heap_cmp q = p_heap_cmp p \<and> p_store q = p_store p \<and> p_spread q = p_spread p"
  unfolding pool_limits_shape Let_def if_None_Some by (elim conjE) (simp add: min_le_iff_disj)

section \<open>Properties\<close>

text \<open>A small pool and the answers of its environment, used by the witnesses.\<close>

definition demo_conf :: "nat \<Rightarrow> nat \<Rightarrow> pool_conf" where
  "demo_conf start mx = \<lparr>cf_start = start, cf_min = 1, cf_max = mx, cf_spare = 1, cf_uses = 0, cf_lifetime = 0,
     cf_cleanup_interval = 0, cf_idle_timeout = 0, cf_retry_delay = 1, cf_spread = True\<rparr>"

definition demo_env :: "nat \<Rightarrow> env" where
  "demo_env i = \<lparr>e_now = 100 + int i, e_closed_at = 100 + int i, e_tv = (100 + int i, 0), e_ctx_ok = True,
     e_handle = Some (500 + i), e_this = Some (10 + i), e_spawn_tv = (100 + int i, 0),
     e_opened_at = 100 + int i, e_malloc = True, e_mem = (\<lambda>_. 0)\<rparr>"

definition demo_init :: "nat \<Rightarrow> nat \<Rightarrow> pool option option" where
  "demo_init start mx = fr_connection_pool_init demo_env (demo_env 0) True True True (\<lambda>_. 0) (\<lambda>_. -1)
     (Some (demo_conf start mx)) False 100"

lemma demo_envs_fresh: "envs_fresh demo_env"
  by (simp add: envs_fresh_def demo_env_def)

lemma pool_init_inv:
  assumes "envs_fresh es"
  shows "case fr_connection_pool_init es e_free args_ok alloc_ok heap_ok mem pos conf check now of
      None \<Rightarrow> False
    | Some None \<Rightarrow> True
    | Some (Some p) \<Rightarrow> (if check then p_list p = [] \<and> p_start p = 1 \<and> p_min p = 1 \<and> p_max p = 1
        else pool_inv 0 {} p \<and> used p = {} \<and> p_heap_cmp p = LastReserved \<and>
          (\<exists>cf hp q. conf = Some cf \<and> p_spread p = cf_spread cf \<and>
             pool_limits (parse_config cf (zero_pool hp LastReserved)) = Some q \<and> s_num p = p_start q))"
proof (cases "args_ok \<and> alloc_ok \<and> heap_ok")
  case False
  then show ?thesis by (auto simp: fr_connection_pool_init_def fr_heap_create_def)
next
  case True
  let ?hp = "\<lparr>hp_size = 2048, hp_num = 0, hp_offset = conn_heap_offset, hp_p = mem, hp_pos = pos\<rparr>"
  let ?p0 = "zero_pool ?hp LastReserved"
  have off: "conn_heap_offset \<noteq> 0" by (simp add: conn_heap_offset_def)
  have hc: "fr_heap_create True True True conn_heap_offset mem pos = Some ?hp"
    by (simp add: fr_heap_create_def)
  note tr = heap_create_tracked [OF hc off]
  have free0: "fr_connection_pool_free e_free p \<noteq> None" if "p_list p = []" "s_num p = 0" for p
    using that by (auto simp: fr_connection_pool_free_def)
  show ?thesis
  proof (cases conf)
    case None
    then show ?thesis using True hc free0 [of ?p0]
      by (auto simp: fr_connection_pool_init_def Let_def zero_pool_def)
  next
    case (Some cf)
    let ?p1 = "parse_config cf ?p0"
    show ?thesis
    proof (cases "pool_limits ?p1")
      case None
      then show ?thesis using True Some hc free0 [of ?p1]
        by (auto simp: fr_connection_pool_init_def Let_def zero_pool_def parse_config_def)
    next
      case lim: (Some q)
      note fr = pool_limits_frame [OF lim] and mx = pool_limits_max [OF lim]
      have q: "p_list q = []" "s_num q = 0" "p_pending q = 0" "s_active q = 0" "p_heap q = ?hp"
        "p_heap_cmp q = LastReserved" "p_spread q = cf_spread cf"
        using fr by (simp_all add: zero_pool_def parse_config_def)
      have iq: "pool_inv 0 {} q" "used q = {}"
        using q mx tr by (simp_all add: pool_inv_def used_def unused_def)
      have "from_envs es 0 q" using q by (simp add: from_envs_def)
      from spawn_start_inv [OF iq(1) assms this iq(2), of now "p_start q"] obtain s ok where
        sp: "spawn_start es q now 0 (p_start q) = Some (s, ok)" "pool_inv 0 {} s" "used s = {}"
          "ok \<longrightarrow> s_num s = s_num q + p_start q" "p_heap_cmp s = p_heap_cmp q" "p_spread s = p_spread q"
        by blast
      obtain x y where "fr_connection_pool_free e_free s = Some (x, y)" using pool_free_inv [OF sp(2)] by blast
      then have run: "fr_connection_pool_init es e_free args_ok alloc_ok heap_ok mem pos conf check now =
          (if check then Some (Some (q\<lparr>p_start := 1, p_min := 1, p_max := 1\<rparr>))
           else if ok then Some (Some s) else Some None)"
        using True Some lim hc sp by (simp add: fr_connection_pool_init_def Let_def)
      show ?thesis
        unfolding run using q Some sp lim by auto
    qed
  qed
qed

text \<open>
  C19: creating a pool never fails an assertion, whatever the configuration and wherever opening
  fails. A pool that is returned is consistent, nobody holds one of its connections, as many
  connections are open as \<open>start\<close> says after the limits were corrected, and the unused ones are
  ordered by \<open>last_reserved\<close> even when the configuration asks for \<open>spread\<close>.
\<close>

theorem pool_init_correct:
  assumes "envs_fresh es"
  shows "case fr_connection_pool_init es e_free args_ok alloc_ok heap_ok mem pos conf check now of
      None \<Rightarrow> False
    | Some None \<Rightarrow> True
    | Some (Some p) \<Rightarrow> (if check then p_list p = [] \<and> p_start p = 1 \<and> p_min p = 1 \<and> p_max p = 1
        else pool_inv 0 {} p \<and> used p = {} \<and> p_heap_cmp p = LastReserved \<and>
          (\<exists>cf hp q. conf = Some cf \<and> p_spread p = cf_spread cf \<and>
             pool_limits (parse_config cf (zero_pool hp LastReserved)) = Some q \<and> s_num p = p_start q))"
  using assms by (rule pool_init_inv)

lemmas demo_run = demo_init_def fr_connection_pool_init_def demo_conf_def demo_env_def fr_heap_create_def
  Let_def conn_heap_offset_def parse_config_def pool_limits_def zero_pool_def u32_sub_def
  fr_connection_spawn_def spawn_locked_def spawn_link_def fr_connection_link_head_def rad_assert_def
  heap_add_def fr_heap_insert_def SET_OFFSET_def fr_heap_num_elements_def

lemma demo_start: "\<exists>p. demo_init 1 3 = Some (Some p) \<and> pool_inv 0 {} p \<and> unused p = {10} \<and> used p = {} \<and>
    p_list p = [10] \<and> connection (p_store p 10) = 500 \<and> p_max_uses p = 0 \<and> p_lifetime p = 0 \<and> p_spare p = 1 \<and> p_ref p = 0"
proof -
  have "\<exists>p. demo_init 1 3 = Some (Some p) \<and> unused p = {10} \<and> used p = {} \<and> p_list p = [10] \<and>
      connection (p_store p 10) = 500 \<and> p_max_uses p = 0 \<and> p_lifetime p = 0 \<and> p_spare p = 1 \<and> p_ref p = 0"
    by (simp add: demo_run unused_def used_def)
  then show ?thesis
    using pool_init_inv [OF demo_envs_fresh, where ?e_free = "demo_env 0" and ?args_ok = True and
        ?alloc_ok = True and ?heap_ok = True and ?mem = "\<lambda>_. 0" and ?pos = "\<lambda>_. -1" and
        ?conf = "Some (demo_conf 1 3)" and ?check = False and ?now = 100]
    by (auto simp: demo_init_def)
qed

theorem pool_init_correct_witness:
  "\<exists>p. demo_init 1 3 = Some (Some p) \<and> pool_inv 0 {} p \<and> p_heap_cmp p = LastReserved \<and> p_spread p"
proof -
  obtain p where p: "demo_init 1 3 = Some (Some p)" using demo_start by blast
  then show ?thesis
    using pool_init_correct [OF demo_envs_fresh, where ?e_free = "demo_env 0" and ?args_ok = True and
        ?alloc_ok = True and ?heap_ok = True and ?mem = "\<lambda>_. 0" and ?pos = "\<lambda>_. -1" and
        ?conf = "Some (demo_conf 1 3)" and ?check = False and ?now = 100]
    by (auto simp: demo_init_def demo_conf_def)
qed


text \<open>
  C7: reserving from a consistent pool always returns, with the pool consistent again. A returned
  handle belongs to a connection nobody held before, which is now the only additional one in use;
  without a handle nothing changed hands. Connections held by others are not touched.
\<close>

theorem pool_get_correct:
  assumes "pool_inv m G p" "env_ok e p"
  shows "\<exists>q r. fr_connection_get e exiting p = Some (q, r) \<and> pool_inv m G q \<and>
     (case r of None \<Rightarrow> used q = used p
      | Some h \<Rightarrow> \<exists>c. c \<notin> used p \<and> used q = insert c (used p) \<and> connection (p_store q c) = h) \<and>
     (\<forall>c \<in> used p. p_store q c = p_store p c)"
  using get_internal_inv [OF assms, of exiting True] by (simp add: fr_connection_get_def reserved_def)

lemma demo_env_ok: "p_list p = [10] \<Longrightarrow> connection (p_store p 10) = 500 \<Longrightarrow> 0 < i \<Longrightarrow> env_ok (demo_env i) p"
  by (simp add: env_ok_def demo_env_def)

theorem pool_get_correct_witness:
  "\<exists>p q r. demo_init 1 3 = Some (Some p) \<and> fr_connection_get (demo_env 1) False p = Some (q, r) \<and>
     pool_inv 0 {} q"
proof -
  obtain p where p: "demo_init 1 3 = Some (Some p)" "pool_inv 0 {} p" "p_list p = [10]"
    "connection (p_store p 10) = 500" using demo_start by blast
  show ?thesis using pool_get_correct [OF p(2) demo_env_ok [OF p(3,4)], of 1 False] p(1) by auto
qed

text \<open>
  C28: among the unused connections within their limits, \<^verbatim>\<open>fr_connection_get\<close> hands out one
  that no other precedes in the heap's order. For the order every pool has, it is a connection
  reserved the longest time ago, where the comments speak of the most recently used one.
\<close>

theorem pool_get_longest_unreserved:
  assumes "pool_inv m G p" "p_heap_cmp p = LastReserved" "d \<in> unused p" "usable p (e_now e) d"
    and "fr_connection_get e False p = Some (q, r)"
  shows "\<exists>c \<in> unused p. r = Some (connection (p_store p c)) \<and> usable p (e_now e) c \<and>
     p_store q c = (p_store p c)\<lparr>num_uses := num_uses (p_store p c) + 1,
         last_reserved := e_tv e, in_use := True\<rparr> \<and>
     (\<forall>x \<in> unused p. usable p (e_now e) x \<longrightarrow>
        \<not> timer_less (last_reserved (p_store p x)) (last_reserved (p_store p c)))"
proof -
  have "not_after (pool_cmp p) c x \<longleftrightarrow>
      \<not> timer_less (last_reserved (p_store p x)) (last_reserved (p_store p c))" for c x
    using assms(2) by (simp add: not_after_def conn_cmp_def last_reserved_cmp_less)
  then show ?thesis
    using get_internal_best [OF assms(1,3,4)] assms(5) unfolding fr_connection_get_def by fastforce
qed

lemma usable_no_limits: "p_max_uses p = 0 \<Longrightarrow> p_lifetime p = 0 \<Longrightarrow> usable p now c"
  by (simp add: usable_def)

lemma demo_reserved: "\<exists>p q. demo_init 1 3 = Some (Some p) \<and>
    fr_connection_get (demo_env 1) False p = Some (q, Some 500) \<and> pool_inv 0 {} q \<and> used q = {10} \<and>
    connection (p_store q 10) = 500 \<and> p_list q = [10] \<and> p_spare q = 1"
proof -
  obtain p where p: "demo_init 1 3 = Some (Some p)" "pool_inv 0 {} p" "p_list p = [10]"
    "connection (p_store p 10) = 500" "unused p = {10}" "used p = {}" "p_max_uses p = 0"
    "p_lifetime p = 0" "p_spare p = 1" using demo_start by blast
  obtain q r where q: "fr_connection_get_internal (demo_env 1) False p True = Some (q, r)" "pool_inv 0 {} q"
    "reserved p q r"
    using get_internal_inv [OF p(2) demo_env_ok [OF p(3,4) zero_less_one], of False True] by blast
  have "r = Some 500" using get_internal_best [OF p(2) _ usable_no_limits [OF p(7,8)] q(1)] p by simp
  have peek: "fr_heap_peek (p_heap p) = Some 10"
    using peek_unused [OF p(2)] p(5) by (cases "fr_heap_peek (p_heap p)") auto
  have "\<not> in_use (p_store p 10)" using p(5) by (auto simp: unused_def)
  then have "get_locked (demo_env 1) p True = Some (heap_del p 10, Got 10)"
    using peek p(7,8) by (simp add: get_locked_def fr_connection_manage_def Let_def)
  then have "q = fst (do_return (demo_env 1) (heap_del p 10) 10)"
    using q(1) by (simp add: fr_connection_get_internal_def prod_eq_iff)
  then have "used q = {10} \<and> connection (p_store q 10) = 500 \<and> p_list q = [10] \<and> p_spare q = 1"
    using do_return_unused [OF p(2), of 10 "demo_env 1"] p by simp
  then show ?thesis
    using p(1) q(1,2) \<open>r = Some 500\<close> unfolding fr_connection_get_def by blast
qed

theorem pool_get_longest_unreserved_witness:
  "\<exists>p q r. demo_init 1 3 = Some (Some p) \<and> fr_connection_get (demo_env 1) False p = Some (q, r) \<and>
     (\<exists>c \<in> unused p. r = Some (connection (p_store p c)))"
proof -
  obtain p where p: "demo_init 1 3 = Some (Some p)" "pool_inv 0 {} p" "unused p = {10}" "p_max_uses p = 0"
    "p_lifetime p = 0" using demo_start by blast
  have "p_heap_cmp p = LastReserved"
    using pool_init_inv [OF demo_envs_fresh, where ?e_free = "demo_env 0" and ?args_ok = True and
        ?alloc_ok = True and ?heap_ok = True and ?mem = "\<lambda>_. 0" and ?pos = "\<lambda>_. -1" and
        ?conf = "Some (demo_conf 1 3)" and ?check = False and ?now = 100] p(1)
    by (simp add: demo_init_def)
  note hyp = this p(3-5)
  obtain q where "fr_connection_get (demo_env 1) False p = Some (q, Some 500)"
    using demo_reserved p(1) by auto
  with pool_get_longest_unreserved [OF p(2) hyp(1) _ usable_no_limits [OF p(4,5)], of 10 "demo_env 1" q "Some 500"]
  show ?thesis using p(1,3) by auto
qed


text \<open>
  C20: releasing a handle somebody holds always returns while no other thread is inside
  \<^verbatim>\<open>fr_connection_get\<close> with more new connections than the pool keeps spare; exactly that
  connection stops being in use, and the pool is consistent after the check that follows.
\<close>

theorem pool_release_correct:
  assumes "pool_inv m G p" "env_ok e p" "card G \<le> p_spare p" "c \<in> used p" "c \<notin> G"
  shows "\<exists>q. fr_connection_release e p (Some (connection (p_store p c))) = Some q \<and> pool_inv m G q \<and>
     used q = used p - {c} \<and> (\<forall>d \<in> used q. p_store q d = p_store p d)"
proof -
  obtain s where s: "release_locked e p c = Some s" "pool_inv m G s" "used s = used p - {c}"
    "p_list s = p_list p" "p_spare s = p_spare p" "\<forall>d. connection (p_store s d) = connection (p_store p d)"
    "\<forall>d. d \<noteq> c \<longrightarrow> p_store s d = p_store p d"
    using release_locked_inv [OF assms(1,4,5)] by blast
  have env: "env_ok e s" using s(4,6) assms(2) by (simp add: env_ok_def)
  have "card G \<le> p_spare s" using assms(3) s(5) by simp
  from pool_check_inv [OF s(2) env this] obtain q where
    "fr_connection_pool_check e s = Some q" "pool_inv m G q" "keeps s q" by blast
  then show ?thesis
    using s(1,3,7) find_held [OF assms(1,4)] by (auto simp: fr_connection_release_def keeps_def)
qed

theorem pool_release_correct_witness:
  "\<exists>p q r. demo_init 1 3 = Some (Some p) \<and> fr_connection_get (demo_env 1) False p = Some (q, Some 500) \<and>
     fr_connection_release (demo_env 2) q (Some 500) = Some r \<and> pool_inv 0 {} r \<and> used r = {}"
proof -
  obtain p q where p: "demo_init 1 3 = Some (Some p)" "pool_inv 0 {} q" "used q = {10}" "p_spare q = 1"
    "fr_connection_get (demo_env 1) False p = Some (q, Some 500)" "p_list q = [10]"
    "connection (p_store q 10) = 500" using demo_reserved by blast
  from pool_release_correct [OF p(2) demo_env_ok [OF p(6,7)], of 2 10] show ?thesis
    using p by auto
qed



lemma rehandle_inv:
  assumes inv: "pool_inv m G p" and c: "c \<in> used p"
    and h: "h \<notin> (\<lambda>c. connection (p_store p c)) ` set (p_list p)"
  shows "pool_inv m G (p\<lparr>p_store := (p_store p)(c := (p_store p c)\<lparr>connection := h\<rparr>)\<rparr>)"
    "used (p\<lparr>p_store := (p_store p)(c := (p_store p c)\<lparr>connection := h\<rparr>)\<rparr>) = used p"
proof -
  note I = pool_invD [OF inv]
  let ?s = "(p_store p)(c := (p_store p c)\<lparr>connection := h\<rparr>)"
  let ?q = "p\<lparr>p_store := ?s\<rparr>"
  have us: "used ?q = used p" "unused ?q = unused p" by (auto simp: used_def unused_def)
  have cmp: "conn_cmp (p_heap_cmp p) ?s = pool_cmp p" by (rule conn_cmp_times) auto
  have inj: "inj_on (\<lambda>d. connection (?s d)) (set (p_list p))"
    using I(8) h by (auto simp: inj_on_def)
  have "pool_cmp ?q = pool_cmp p" using cmp by simp
  then show "pool_inv m G ?q"
    using I us inj by (intro pool_invI) (simp_all del: fun_upd_apply)
  show "used ?q = used p" by (rule us)
qed

lemma reconnect_inv:
  assumes "pool_inv m G p" "env_ok e p" "c \<in> used p" "c \<notin> G"
  shows "\<exists>q r. fr_connection_reconnect e False p (Some (connection (p_store p c))) = Some (q, r) \<and>
     pool_inv m G q \<and>
     (if \<not> e_ctx_ok e then q = p \<and> r = None
      else case e_handle e of
        Some h \<Rightarrow> r = Some h \<and> used q = used p \<and> connection (p_store q c) = h
      | None \<Rightarrow> (case r of None \<Rightarrow> used q = used p - {c}
          | Some h \<Rightarrow> \<exists>d. d \<notin> used p - {c} \<and> used q = insert d (used p - {c}) \<and>
                         connection (p_store q d) = h))"
proof -
  have f: "fr_connection_reconnect e False p (Some (connection (p_store p c))) =
      fr_connection_reconnect_internal e False p c"
    using find_held [OF assms(1,3)] by (simp add: fr_connection_reconnect_def)
  consider "\<not> e_ctx_ok e" | h where "e_ctx_ok e" "e_handle e = Some h" | "e_ctx_ok e" "e_handle e = None"
    by fastforce
  then show ?thesis
  proof cases
    case 1
    then show ?thesis using assms(1) f by (simp add: fr_connection_reconnect_internal_def)
  next
    case 2
    then have "h \<notin> (\<lambda>c. connection (p_store p c)) ` set (p_list p)"
      using assms(2) by (auto simp: env_ok_def)
    from rehandle_inv [OF assms(1,3) this] show ?thesis
      using 2 f by (simp add: fr_connection_reconnect_internal_def)
  next
    case 3
    have cl: "c \<in> set (p_list p)" using assms(3) by (simp add: used_def)
    from close_internal_inv [OF assms(1) cl assms(4), of e] obtain s where
      s: "fr_connection_close_internal e p c = Some s" "pool_inv m G s" "p_list s = remove1 c (p_list p)"
        "\<forall>d. d \<noteq> c \<longrightarrow> p_store s d = p_store p d" by blast
    have l: "set (p_list s) = set (p_list p) - {c}"
      using s(3) pool_invD(1) [OF assms(1)] by (simp add: set_remove1_eq)
    have env: "env_ok e s" using l s(4) by (intro env_ok_mono [OF assms(2)]) auto
    have u: "used s = used p - {c}" using l s(4) by (auto simp: used_def)
    from get_internal_inv [OF s(2) env, of False False] obtain q r where
      "fr_connection_get_internal e False s False = Some (q, r)" "pool_inv m G q" "reserved s q r"
      by blast
    then show ?thesis
      using 3 f s(1) u by (cases r) (auto simp: fr_connection_reconnect_internal_def reserved_def)
  qed
qed



text \<open>
  C22: freeing a pool that nobody shares closes every connection: the loop over the heads ends,
  neither of its assertions fails, and no connection is left. A shared pool only loses a reference.
\<close>

theorem pool_free_correct:
  assumes "pool_inv m {} p"
  shows "\<exists>q b. fr_connection_pool_free e p = Some (q, b) \<and>
     (if p_ref p > 0 then \<not> b \<and> q = p\<lparr>p_ref := p_ref p - 1\<rparr> else b \<and> p_list q = [])"
  using assms by (rule pool_free_inv)

theorem pool_free_correct_witness:
  "\<exists>p q. demo_init 1 3 = Some (Some p) \<and> fr_connection_pool_free (demo_env 9) p = Some (q, True) \<and>
     p_list q = []"
proof -
  obtain p where p: "demo_init 1 3 = Some (Some p)" "pool_inv 0 {} p" "p_ref p = 0"
    using demo_start by blast
  from pool_free_correct [OF p(2), of "demo_env 9"] show ?thesis using p by auto
qed

text \<open>
  C30: what the corrected limits of a pool guarantee. A \<open>max\<close> of 0 and a \<open>min\<close> above \<open>max\<close> are
  refused; otherwise \<open>max\<close> is at most 1024 and \<open>start\<close> at most \<open>max\<close>, and with a configured \<open>max\<close> of
  at most 1024 also \<open>min + spare\<close> is at most \<open>max\<close>. A \<open>min\<close> above 1024 passes the test that
  refuses a \<open>min\<close> above \<open>max\<close>, and \<open>spare\<close> is then limited only by a subtraction that wrapped.
\<close>

theorem pool_limits_correct:
  "(pool_limits p = None \<longleftrightarrow> p_max p = 0 \<or> p_max p < p_min p) \<and>
   (\<forall>q. pool_limits p = Some q \<longrightarrow>
      p_max q = min (p_max p) 1024 \<and> p_start q \<le> p_max q \<and> p_min q = p_min p \<and>
      (p_max p \<le> 1024 \<longrightarrow> p_min q + p_spare q \<le> p_max q) \<and>
      (1024 < p_min p \<and> p_max p < 2 ^ 32 \<longrightarrow>
         p_max q < p_min q \<and> p_spare q = min (p_spare p) (2 ^ 32 + 1024 - p_min p)) \<and>
      (p_lifetime q > 0 \<longrightarrow> p_idle_timeout q \<le> p_lifetime q) \<and>
      (p_idle_timeout q > 0 \<longrightarrow> p_cleanup_interval q \<le> p_idle_timeout q))"
proof -
  have sub: "b \<le> a \<Longrightarrow> a < 2 ^ 32 \<Longrightarrow> u32_sub a b = a - b" for a b
    by (simp add: u32_sub_def nat_diff_distrib' flip: of_nat_diff)
  have wrap: "u32_sub 1024 b = 2 ^ 32 + 1024 - b" if "1024 < b" "b < 2 ^ 32" for b
  proof -
    have "(1024 - int b) mod 2 ^ 32 = (1024 - int b + 2 ^ 32) mod 2 ^ 32"
      by (rule mod_add_self2 [symmetric])
    also have "\<dots> = 1024 - int b + 2 ^ 32" using that by (intro mod_pos_pos_trivial) auto
    finally show ?thesis using that by (simp add: u32_sub_def)
  qed
  have *: "pool_limits p = Some q \<Longrightarrow>
      p_max q = min (p_max p) 1024 \<and> p_start q \<le> p_max q \<and> p_min q = p_min p \<and>
      p_spare q = min (p_spare p) (u32_sub (p_max q) (p_min p)) \<and> p_min p \<le> p_max p \<and>
      (p_lifetime q > 0 \<longrightarrow> p_idle_timeout q \<le> p_lifetime q) \<and>
      (p_idle_timeout q > 0 \<longrightarrow> p_cleanup_interval q \<le> p_idle_timeout q)" for q
    unfolding pool_limits_shape Let_def if_None_Some by (elim conjE) (simp add: min_le_iff_disj)
  have spare: "p_min q + p_spare q \<le> p_max q" if "pool_limits p = Some q" "p_max p \<le> 1024" for q
  proof -
    have "p_min p \<le> p_max p" "p_max q = p_max p" "p_min q = p_min p" using * [OF that(1)] that(2) by auto
    moreover then have "p_spare q \<le> p_max p - p_min p"
      using * [OF that(1)] that(2) sub [of "p_min p" "p_max p"] by simp
    ultimately show ?thesis by linarith
  qed
  have over: "p_max q < p_min q \<and> p_spare q = min (p_spare p) (2 ^ 32 + 1024 - p_min p)"
    if "pool_limits p = Some q" "1024 < p_min p \<and> p_max p < 2 ^ 32" for q
  proof -
    have "p_min p < 2 ^ 32" "p_max q = 1024" using * [OF that(1)] that(2) by auto
    then show ?thesis using * [OF that(1)] that(2) wrap [of "p_min p"] by simp
  qed
  have "pool_limits p = None \<longleftrightarrow> p_max p = 0 \<or> p_max p < p_min p"
    by (auto simp: pool_limits_def Let_def)
  then show ?thesis using * spare over by blast
qed

theorem pool_limits_correct_witness:
  "\<exists>q. pool_limits ((zero_pool undefined LastReserved)\<lparr>p_max := 2000, p_min := 1500, p_spare := 10\<rparr>) = Some q \<and>
     p_max q = 1024 \<and> p_min q = 1500 \<and> p_spare q = 10"
proof -
  let ?p = "(zero_pool undefined LastReserved)\<lparr>p_max := 2000, p_min := 1500, p_spare := 10\<rparr>"
  have l: "p_max ?p = 2000" "p_min ?p = 1500" "p_spare ?p = 10" by (simp_all add: zero_pool_def)
  have "pool_limits ?p \<noteq> None" using pool_limits_correct [THEN conjunct1, of ?p] l by simp
  then obtain q where q: "pool_limits ?p = Some q" by blast
  then have "p_max q = min (p_max ?p) 1024 \<and> p_min q = p_min ?p \<and>
      p_spare q = min (p_spare ?p) (2 ^ 32 + 1024 - p_min ?p)"
    using pool_limits_correct [THEN conjunct2, THEN spec, of ?p q] l by (simp only:) simp
  then show ?thesis using q l by simp
qed

end
