(* ===== verification/PoolThreads.thy ===== *)
theory PoolThreads
  imports PoolOps "HOL-Library.Multiset"
begin

text \<open>
  Threads sharing one connection pool. The mutex of the pool makes the critical sections of
  \<^verbatim>\<open>main/connection.c\<close> atomic; \<open>sys\<close> is the pool and what the threads between two critical
  sections remember, \<open>perform\<close> the effect of one critical section, \<open>pstep\<close> the interleaving.

  \<^item> \<open>y_want\<close>: threads about to enter \<^verbatim>\<open>fr_connection_spawn\<close> (\<open>now\<close> and \<open>in_use\<close> as passed);
  \<^item> \<open>y_open\<close>: threads between its two critical sections, in the module's \<open>create\<close>;
  \<^item> \<open>y_gap\<close>: the new connections of threads before \<open>do_return\<close>;
  \<^item> \<open>y_check\<close>: threads of \<^verbatim>\<open>fr_connection_pool_check\<close> between spawning and \<open>manage_connections\<close>.
\<close>

record sys =
  y_pool :: pool
  y_want :: "(int \<times> bool) multiset"
  y_open :: "(int \<times> nat \<times> bool) multiset"
  y_gap :: "nat set"
  y_check :: "int multiset"

datatype action =
    GetLocked env
  | SpawnSkip int bool
  | SpawnLock int bool
  | SpawnNoMem int nat bool
  | SpawnFailed int nat bool int
  | SpawnLink int nat bool env nat nat
  | GapReturn env nat
  | Release env nat
  | Close env nat
  | Reconnect env nat
  | CheckTail env int

text \<open>After a spawn of \<^verbatim>\<open>fr_connection_pool_check\<close> the thread goes on to manage the pool.\<close>

definition spawned :: "sys \<Rightarrow> int \<Rightarrow> bool \<Rightarrow> sys" where
  "spawned s now b = (if b then s else s\<lparr>y_check := add_mset now (y_check s)\<rparr>)"

text \<open>The rest of the critical section of \<open>release\<close> and \<open>close\<close>: the start of the pool check.\<close>

definition check_locked :: "env \<Rightarrow> sys \<Rightarrow> pool \<Rightarrow> sys option" where
  "check_locked e s p =
     do { (q, act) \<leftarrow> pool_check_head e p (e_now e);
          case act of
            CheckDone \<Rightarrow> Some (s\<lparr>y_pool := q\<rparr>)
          | CheckManage \<Rightarrow> do { r \<leftarrow> pool_check_tail e q (e_now e); Some (s\<lparr>y_pool := r\<rparr>) }
          | CheckSpawn \<Rightarrow> Some (s\<lparr>y_pool := q, y_want := add_mset (e_now e, False) (y_want s)\<rparr>) }"

definition enabled :: "action \<Rightarrow> sys \<Rightarrow> bool" where
  "enabled a s =
     (case a of
        GetLocked e \<Rightarrow> True
      | SpawnSkip now b \<Rightarrow> (now, b) \<in># y_want s \<and> s_num (y_pool s) = 0 \<and>
          p_pending (y_pool s) \<noteq> 0 \<and> s_last_failed (y_pool s) \<noteq> 0
      | SpawnLock now b \<Rightarrow> (now, b) \<in># y_want s
      | SpawnNoMem now n b \<Rightarrow> (now, n, b) \<in># y_open s
      | SpawnFailed now n b t \<Rightarrow> (now, n, b) \<in># y_open s
      | SpawnLink now n b e h c \<Rightarrow> (now, n, b) \<in># y_open s \<and> c \<notin> set (p_list (y_pool s)) \<and>
          h \<notin> (\<lambda>c. connection (p_store (y_pool s) c)) ` set (p_list (y_pool s))
      | GapReturn e c \<Rightarrow> c \<in> y_gap s
      | Release e c \<Rightarrow> c \<in> used (y_pool s) - y_gap s
      | Close e c \<Rightarrow> c \<in> used (y_pool s) - y_gap s
      | Reconnect e c \<Rightarrow> c \<in> used (y_pool s) - y_gap s \<and> env_ok e (y_pool s)
      | CheckTail e now \<Rightarrow> now \<in># y_check s)"

fun perform :: "action \<Rightarrow> sys \<Rightarrow> sys option" where
  "perform (GetLocked e) s =
     do { (q, r) \<leftarrow> get_locked e (y_pool s) True;
          case r of
            Got c \<Rightarrow> Some (s\<lparr>y_pool := fst (do_return e q c)\<rparr>)
          | NeedSpawn \<Rightarrow> Some (s\<lparr>y_pool := q, y_want := add_mset (e_now e, True) (y_want s)\<rparr>)
          | _ \<Rightarrow> Some (s\<lparr>y_pool := q\<rparr>) }"
| "perform (SpawnSkip now b) s =
     Some (spawned (s\<lparr>y_want := y_want s - {#(now, b)#}\<rparr>) now b)"
| "perform (SpawnLock now b) s =
     do { (q, r) \<leftarrow> spawn_locked (y_pool s) now;
          let s' = s\<lparr>y_pool := q, y_want := y_want s - {#(now, b)#}\<rparr>;
          case r of None \<Rightarrow> Some (spawned s' now b)
          | Some n \<Rightarrow> Some (s'\<lparr>y_open := add_mset (now, n, b) (y_open s)\<rparr>) }"
| "perform (SpawnNoMem now n b) s =
     Some (spawned (s\<lparr>y_open := y_open s - {#(now, n, b)#}\<rparr>) now b)"
| "perform (SpawnFailed now n b t) s =
     Some (spawned (s\<lparr>y_pool := spawn_failed (y_pool s) now, y_open := y_open s - {#(now, n, b)#}\<rparr>) now b)"
| "perform (SpawnLink now n b e h c) s =
     do { q \<leftarrow> spawn_link e (y_pool s) now b n h c;
          let s' = s\<lparr>y_pool := q, y_open := y_open s - {#(now, n, b)#}\<rparr>;
          Some (if b then s'\<lparr>y_gap := insert c (y_gap s)\<rparr> else spawned s' now b) }"
| "perform (GapReturn e c) s =
     Some (s\<lparr>y_pool := fst (do_return e (y_pool s) c), y_gap := y_gap s - {c}\<rparr>)"
| "perform (Release e c) s =
     do { this \<leftarrow> fr_connection_find (y_pool s) (Some (connection (p_store (y_pool s) c)));
          case this of None \<Rightarrow> Some s
          | Some c \<Rightarrow> do { q \<leftarrow> release_locked e (y_pool s) c; check_locked e s q } }"
| "perform (Close e c) s =
     do { this \<leftarrow> fr_connection_find (y_pool s) (Some (connection (p_store (y_pool s) c)));
          case this of None \<Rightarrow> Some s
          | Some c \<Rightarrow> do { q \<leftarrow> fr_connection_close_internal e (y_pool s) c; check_locked e s q } }"
| "perform (Reconnect e c) s =
     do { (q, r) \<leftarrow> fr_connection_reconnect e False (y_pool s) (Some (connection (p_store (y_pool s) c)));
          Some (s\<lparr>y_pool := q\<rparr>) }"
| "perform (CheckTail e now) s =
     do { q \<leftarrow> pool_check_tail e (y_pool s) now;
          Some (s\<lparr>y_pool := q, y_check := y_check s - {#now#}\<rparr>) }"

inductive pstep :: "sys \<Rightarrow> sys \<Rightarrow> bool" where
  act: "enabled a s \<Longrightarrow> perform a s = Some t \<Longrightarrow> pstep s t"

inductive_cases pstepE: "pstep s t"

definition sys_start :: "pool \<Rightarrow> sys" where
  "sys_start p = \<lparr>y_pool = p, y_want = {#}, y_open = {#}, y_gap = {}, y_check = {#}\<rparr>"

inductive reachable :: "pool \<Rightarrow> sys \<Rightarrow> bool" for p where
  start: "reachable p (sys_start p)"
| step: "reachable p s \<Longrightarrow> pstep s t \<Longrightarrow> reachable p t"

text \<open>An assertion that a thread can reach fails: the server aborts.\<close>

definition aborts :: "action \<Rightarrow> sys \<Rightarrow> bool" where
  "aborts a s \<longleftrightarrow> enabled a s \<and> perform a s = None"

section \<open>The invariant\<close>

definition sys_inv :: "sys \<Rightarrow> bool" where
  "sys_inv s \<longleftrightarrow> pool_inv (size (y_open s)) (y_gap s) (y_pool s)"

lemma sys_inv_spawned [simp]: "sys_inv (spawned s now b) = sys_inv s"
  by (simp add: spawned_def sys_inv_def)

lemma size_open: "x \<in># y_open s \<Longrightarrow> size (y_open s) = Suc (size (y_open s - {#x#}))"
  by (metis size_Suc_Diff1)

lemma check_locked_inv:
  assumes "pool_inv (size (y_open s)) (y_gap s) p"
  shows "case check_locked e s p of
     None \<Rightarrow> p_spare p < card (y_gap s) \<and> unused p = {}
   | Some t \<Rightarrow> sys_inv t"
proof (cases "pool_check_head e p (e_now e)")
  case None
  then show ?thesis
    using pool_check_head_inv [OF assms, of e "e_now e"] by (simp add: check_locked_def)
next
  case (Some x)
  then obtain q a where h: "pool_check_head e p (e_now e) = Some (q, a)" by (cases x) auto
  have q: "pool_inv (size (y_open s)) (y_gap s) q"
    using pool_check_head_inv [OF assms, of e "e_now e"] h by simp
  show ?thesis
  proof (cases a)
    case CheckManage
    obtain r where "pool_check_tail e q (e_now e) = Some r" "pool_inv (size (y_open s)) (y_gap s) r"
      using pool_check_tail_inv [OF q] by blast
    then show ?thesis using CheckManage h by (simp add: check_locked_def sys_inv_def)
  qed (use h q in \<open>simp_all add: check_locked_def sys_inv_def\<close>)
qed

lemma get_locked_pool:
  assumes "pool_inv m G p"
  shows "\<exists>q r. get_locked e p True = Some (q, r) \<and>
     (case r of Got c \<Rightarrow> pool_inv m G (fst (do_return e q c)) | _ \<Rightarrow> pool_inv m G q)"
proof -
  obtain q r where l: "get_locked e p True = Some (q, r)" and
    g: "case r of
        Got c \<Rightarrow> \<exists>q0. pool_inv m G q0 \<and> shrunk p q0 \<and> fr_heap_peek (p_heap q0) = Some c \<and>
          fr_connection_manage e q0 c (e_now e) True = Some (q0, 1) \<and> q = heap_del q0 c
      | AtMax \<Rightarrow> pool_inv m G q \<and> shrunk p q \<and> unused q = {} \<and> True
      | NeedSpawn \<Rightarrow> pool_inv m G q \<and> shrunk p q \<and> unused q = {} \<and> True
      | NoSpawn \<Rightarrow> pool_inv m G q \<and> shrunk p q \<and> unused q = {} \<and> \<not> True"
    using get_locked_inv [OF assms] by blast
  show ?thesis
  proof (cases r)
    case (Got c)
    then obtain q0 where q0: "pool_inv m G q0" "fr_heap_peek (p_heap q0) = Some c" "q = heap_del q0 c"
      using g by auto
    have "c \<in> unused q0" using peek_unused(2) [OF q0(1,2)] by blast
    from do_return_unused [OF q0(1) this, of e] show ?thesis using l Got q0(3) by simp
  qed (use l g in auto)
qed


lemma rad_assert_fail_free:
  "pool_inv m G p \<Longrightarrow> \<exists>q r. spawn_locked p now = Some (q, r) \<and>
     pool_inv (case r of None \<Rightarrow> m | Some _ \<Rightarrow> Suc m) G q"
  using spawn_locked_inv [of m G p now] by (force split: option.split)

text \<open>
  One step. The only assertion that can fail is \<open>found != NULL\<close> in the check that follows a
  close, when no connection is unused and more new connections than \<open>spare\<close> are on their way to
  the threads that opened them.
\<close>

lemma perform_inv:
  assumes inv: "sys_inv s" and en: "enabled a s"
  shows "case perform a s of
     None \<Rightarrow> (\<exists>e c. a = Close e c) \<and> p_spare (y_pool s) < card (y_gap s) \<and> unused (y_pool s) = {}
   | Some t \<Rightarrow> sys_inv t"
proof -
  have I: "pool_inv (size (y_open s)) (y_gap s) (y_pool s)" using inv by (simp add: sys_inv_def)
  show ?thesis
  proof (cases a)
    case (GetLocked e)
    from get_locked_pool [OF I, of e] obtain q r where
      l: "get_locked e (y_pool s) True = Some (q, r)"
      "case r of Got c \<Rightarrow> pool_inv (size (y_open s)) (y_gap s) (fst (do_return e q c))
       | _ \<Rightarrow> pool_inv (size (y_open s)) (y_gap s) q"
      by blast
    then show ?thesis using GetLocked by (cases r) (auto simp: sys_inv_def)
  next
    case (SpawnSkip now b)
    then show ?thesis using I by (simp, simp add: sys_inv_def)
  next
    case (SpawnLock now b)
    from rad_assert_fail_free [OF I, of now] show ?thesis
      using SpawnLock by (auto simp: Let_def split: option.splits) (auto simp: sys_inv_def)
  next
    case (SpawnNoMem now n b)
    then have "size (y_open s) = Suc (size (y_open s - {#(now, n, b)#}))"
      using en size_open [of "(now, n, b)" s] by (simp add: enabled_def)
    then show ?thesis using SpawnNoMem I spawn_forget by (simp, simp add: sys_inv_def)
  next
    case (SpawnFailed now n b t)
    then have "size (y_open s) = Suc (size (y_open s - {#(now, n, b)#}))"
      using en size_open [of "(now, n, b)" s] by (simp add: enabled_def)
    then show ?thesis using SpawnFailed I spawn_failed_inv by (simp, simp add: sys_inv_def)
  next
    case (SpawnLink now n b e h c)
    then have sz: "size (y_open s) = Suc (size (y_open s - {#(now, n, b)#}))"
      and new: "c \<notin> set (p_list (y_pool s))"
        "h \<notin> (\<lambda>c. connection (p_store (y_pool s) c)) ` set (p_list (y_pool s))"
      using en size_open [of "(now, n, b)" s] by (simp_all add: enabled_def)
    obtain q where q: "spawn_link e (y_pool s) now b n h c = Some q"
      "pool_inv (size (y_open s - {#(now, n, b)#})) (if b then insert c (y_gap s) else y_gap s) q"
      using spawn_link_inv [OF I [unfolded sz] new] by blast
    show ?thesis
    proof (cases b)
      case True
      then show ?thesis using SpawnLink q by (simp add: sys_inv_def Let_def)
    next
      case False
      then show ?thesis using SpawnLink q by (simp add: Let_def, simp add: sys_inv_def)
    qed
  next
    case (GapReturn e c)
    then have "c \<in> y_gap s" using en by (simp add: enabled_def)
    from do_return_gap [OF I this, of e] show ?thesis using GapReturn by (simp add: sys_inv_def)
  next
    case (Release e c)
    then have c: "c \<in> used (y_pool s)" "c \<notin> y_gap s" using en by (auto simp: enabled_def)
    obtain q where q: "release_locked e (y_pool s) c = Some q"
      "pool_inv (size (y_open s)) (y_gap s) q" "unused q = insert c (unused (y_pool s))"
      using release_locked_inv [OF I c, of e] by blast
    show ?thesis
      using Release q find_held [OF I c(1)] check_locked_inv [OF q(2), of e] by (auto split: option.splits)
  next
    case (Close e c)
    then have c: "c \<in> used (y_pool s)" "c \<notin> y_gap s" using en by (auto simp: enabled_def)
    then have cl: "c \<in> set (p_list (y_pool s))" by (simp add: used_def)
    obtain q where q: "fr_connection_close_internal e (y_pool s) c = Some q"
      "pool_inv (size (y_open s)) (y_gap s) q" "p_list q = remove1 c (p_list (y_pool s))"
      "\<forall>d. d \<noteq> c \<longrightarrow> p_store q d = p_store (y_pool s) d" "p_spare q = p_spare (y_pool s)"
      using close_internal_inv [OF I cl c(2), of e] by blast
    have "set (p_list q) = set (p_list (y_pool s)) - {c}"
      using q(3) pool_invD(1) [OF I] by (simp add: set_remove1_eq)
    then have "unused q = unused (y_pool s)" using q(4) c(1) by (auto simp: unused_def used_def)
    then show ?thesis
      using Close q find_held [OF I c(1)] check_locked_inv [OF q(2), of e] by (auto split: option.splits)
  next
    case (Reconnect e c)
    then have c: "c \<in> used (y_pool s)" "c \<notin> y_gap s" "env_ok e (y_pool s)"
      using en by (auto simp: enabled_def)
    from reconnect_inv [OF I c(3,1,2)] show ?thesis using Reconnect by (auto simp: sys_inv_def)
  next
    case (CheckTail e now)
    from pool_check_tail_inv [OF I, of e now] show ?thesis using CheckTail by (auto simp: sys_inv_def)
  qed
qed

lemma reachable_inv:
  assumes "pool_inv 0 {} p" "reachable p s"
  shows "sys_inv s"
  using assms(2)
proof induction
  case start
  then show ?case using assms(1) by (simp add: sys_inv_def sys_start_def)
next
  case (step s t)
  from step(2) show ?case
    by (rule pstepE) (use perform_inv [OF step(3)] in force)
qed

section \<open>Properties\<close>

text \<open>
  C5: however threads interleave their critical sections on a pool that \<^verbatim>\<open>fr_connection_pool_init\<close>
  returned, the pool stays consistent: open and opening connections together never exceed \<open>max\<close>,
  \<open>num\<close> is the length of the list, no two connections share a handle, \<open>active\<close> counts the
  connections in use except those between linking and \<open>do_return\<close>, and the heap holds exactly the
  unused ones.
\<close>

theorem pool_reachable_consistent:
  assumes "pool_inv 0 {} p" "reachable p s"
  shows "s_num (y_pool s) + p_pending (y_pool s) \<le> p_max (y_pool s) \<and>
     size (y_open s) \<le> p_pending (y_pool s) \<and>
     s_num (y_pool s) = length (p_list (y_pool s)) \<and> distinct (p_list (y_pool s)) \<and>
     inj_on (\<lambda>c. connection (p_store (y_pool s) c)) (set (p_list (y_pool s))) \<and>
     s_active (y_pool s) + card (y_gap s) = card (used (y_pool s)) \<and>
     heap_inv (pool_cmp (y_pool s)) (p_heap (y_pool s)) \<and>
     heap_set (p_heap (y_pool s)) = unused (y_pool s)"
proof -
  have "pool_inv (size (y_open s)) (y_gap s) (y_pool s)"
    using reachable_inv [OF assms] by (simp add: sys_inv_def)
  from pool_invD [OF this] show ?thesis by (simp add: tracked_inv_def)
qed

theorem pool_reachable_consistent_witness:
  "\<exists>p s. demo_init 1 3 = Some (Some p) \<and> reachable p s \<and>
     s_num (y_pool s) + p_pending (y_pool s) \<le> p_max (y_pool s)"
proof -
  obtain p where p: "demo_init 1 3 = Some (Some p)" "pool_inv 0 {} p" using demo_start by blast
  from pool_reachable_consistent [OF p(2) reachable.start] show ?thesis
    using p(1) reachable.start by blast
qed

text \<open>
  C6: in a reachable state no assertion fails, with one exception: the check after a close,
  when nothing is unused and the connections other threads have linked but not yet counted as
  active outnumber \<open>spare\<close>.
\<close>

theorem pool_abort_only_close:
  assumes "pool_inv 0 {} p" "reachable p s" "aborts a s"
  shows "(\<exists>e c. a = Close e c) \<and> p_spare (y_pool s) < card (y_gap s) \<and> unused (y_pool s) = {}"
  using perform_inv [OF reachable_inv [OF assms(1,2)], of a] assms(3) by (auto simp: aborts_def)


text \<open>A schedule: the actions performed one after the other, if each is enabled.\<close>

fun schedule :: "action list \<Rightarrow> sys \<Rightarrow> sys option" where
  "schedule [] s = Some s"
| "schedule (a # as) s = (if enabled a s then perform a s \<bind> schedule as else None)"

lemma schedule_reachable: "reachable p s \<Longrightarrow> schedule as s = Some t \<Longrightarrow> reachable p t"
proof (induction as arbitrary: s)
  case (Cons a as)
  then obtain u where "enabled a s" "perform a s = Some u" "schedule as u = Some t"
    by (auto split: if_splits Option.bind_splits)
  then show ?case using Cons pstep.act reachable.step by blast
qed simp

text \<open>Two threads and a pool that keeps nothing open: A closes while B is about to return.\<close>

definition race_init :: "pool option option" where
  "race_init = fr_connection_pool_init demo_env (demo_env 0) True True True (\<lambda>_. 0) (\<lambda>_. -1)
     (Some (demo_conf 0 3\<lparr>cf_min := 0, cf_spare := 0\<rparr>)) False 100"

definition race_schedule :: "action list" where
  "race_schedule =
     [GetLocked (demo_env 0), SpawnLock 100 True, SpawnLink 100 0 True (demo_env 0) 500 10,
      GapReturn (demo_env 0) 10,
      GetLocked (demo_env 1), SpawnLock 101 True, SpawnLink 101 1 True (demo_env 1) 501 11]"

lemma race_start: "\<exists>p. race_init = Some (Some p) \<and> pool_inv 0 {} p"
proof -
  have "\<exists>p. race_init = Some (Some p)" by (simp add: race_init_def demo_run)
  then show ?thesis
    using pool_init_inv [OF demo_envs_fresh, where ?e_free = "demo_env 0" and ?args_ok = True and
        ?alloc_ok = True and ?heap_ok = True and ?mem = "\<lambda>_. 0" and ?pos = "\<lambda>_. -1" and
        ?conf = "Some (demo_conf 0 3\<lparr>cf_min := 0, cf_spare := 0\<rparr>)" and ?check = False and ?now = 100]
    by (auto simp: race_init_def)
qed

lemma race_aborts:
  assumes "race_init = Some (Some p)"
  shows "\<exists>s. schedule race_schedule (sys_start p) = Some s \<and> aborts (Close (demo_env 2) 10) s"
proof -
  have p: "p = the (the race_init)" by (simp only: assms option.sel)
  have "\<exists>s. schedule race_schedule (sys_start (the (the race_init))) = Some s \<and> aborts (Close (demo_env 2) 10) s"
    by (simp add: race_init_def race_schedule_def demo_run sys_start_def enabled_def get_locked_def
        fr_heap_peek_def do_return_def aborts_def used_def fr_connection_find_def
        fr_connection_close_internal_def fr_connection_unlink_def check_locked_def pool_check_head_def
        close_connection_def)
  then show ?thesis unfolding p .
qed

theorem pool_abort_only_close_witness:
  "\<exists>p s. race_init = Some (Some p) \<and> reachable p s \<and> aborts (Close (demo_env 2) 10) s \<and>
     p_spare (y_pool s) < card (y_gap s) \<and> unused (y_pool s) = {}"
proof -
  obtain p where p: "race_init = Some (Some p)" "pool_inv 0 {} p" using race_start by blast
  obtain s where s: "schedule race_schedule (sys_start p) = Some s" "aborts (Close (demo_env 2) 10) s"
    using race_aborts [OF p(1)] by blast
  have "reachable p s" using schedule_reachable [OF reachable.start s(1)] .
  with pool_abort_only_close [OF p(2) this s(2)] p(1) s(2) show ?thesis by blast
qed

text \<open>
  A schedule that aborts. In a pool with \<open>min\<close>, \<open>spare\<close> and \<open>cleanup_interval\<close> 0, thread A
  reserves a connection, thread B opens another and is about to take it, and A closes its own:
  the check takes the connection of B for a spare one, looks for an unused connection to close,
  finds none and fails the assertion, which aborts the server.
\<close>

lemma pool_close_race:
  "\<exists>p s. race_init = Some (Some p) \<and> reachable p s \<and> enabled (Close (demo_env 2) 10) s \<and>
     perform (Close (demo_env 2) 10) s = None"
proof -
  obtain p where p: "race_init = Some (Some p)" using race_start by blast
  obtain s where s: "schedule race_schedule (sys_start p) = Some s" "aborts (Close (demo_env 2) 10) s"
    using race_aborts [OF p] by blast
  have "reachable p s" using schedule_reachable [OF reachable.start s(1)] .
  then show ?thesis using p s(2) unfolding aborts_def by blast
qed

end
