(* ===== verification/Cbuff.thy ===== *)
theory Cbuff
  imports Prelude
begin

text \<open>
  The circular buffer of \<^verbatim>\<open>lib/cbuff.c\<close>, which keeps the newest elements and drops the oldest.
  \<open>cb_elem\<close> lists the slots the allocation holds; using an index beyond them is undefined in C
  and the result \<open>None\<close> here. \<open>fr_cbuff_rp_insert\<close> also returns the object it freed. The
  optional mutex makes each operation atomic and is not modelled.
\<close>

section \<open>State and operations\<close>

record 'a cbuff =
  cb_size :: u32
  cb_in :: u32
  cb_out :: u32
  cb_elem :: "'a option list"

text \<open>\<open>for (pow = 1; pow < size; pow <<= 1);\<close> for sizes above \<open>2^31\<close> it never ends.\<close>

partial_function (option) pow_loop :: "u32 \<Rightarrow> u32 \<Rightarrow> u32 option" where
  "pow_loop sz pow = (if pow < sz then pow_loop sz (push_bit 1 pow) else Some pow)"

definition fr_cbuff_alloc :: "u32 \<Rightarrow> bool \<Rightarrow> bool \<Rightarrow> 'a cbuff option option" where
  "fr_cbuff_alloc sz ok_cbuff ok_elem =
     (case pow_loop sz 1 of None \<Rightarrow> None
      | Some pow \<Rightarrow>
        (let sz = pow - 1 in
         if \<not> ok_cbuff then Some None
         else if \<not> ok_elem then Some None
         else Some (Some \<lparr>cb_size = sz, cb_in = 0, cb_out = 0,
                          cb_elem = replicate (unat sz) None\<rparr>)))"

definition fr_cbuff_rp_insert :: "'a cbuff \<Rightarrow> 'a \<Rightarrow> ('a cbuff \<times> 'a option) option" where
  "fr_cbuff_rp_insert cb obj =
     (if unat (cb_in cb) \<ge> length (cb_elem cb) then None
      else let freed = cb_elem cb ! unat (cb_in cb);
               cb1 = cb\<lparr>cb_elem := (cb_elem cb)[unat (cb_in cb) := Some obj]\<rparr>;
               cb2 = cb1\<lparr>cb_in := (cb_in cb1 + 1) AND cb_size cb1\<rparr>;
               cb3 = (if cb_in cb2 = cb_out cb2
                      then cb2\<lparr>cb_out := (cb_out cb2 + 1) AND cb_size cb2\<rparr> else cb2)
           in Some (cb3, freed))"

definition fr_cbuff_rp_next :: "'a cbuff \<Rightarrow> ('a cbuff \<times> 'a option) option" where
  "fr_cbuff_rp_next cb =
     (if cb_out cb = cb_in cb then Some (cb, None)
      else if unat (cb_out cb) \<ge> length (cb_elem cb) then None
      else let obj = cb_elem cb ! unat (cb_out cb)
           in Some (cb\<lparr>cb_out := (cb_out cb + 1) AND cb_size cb\<rparr>, obj))"

section \<open>The allocated size\<close>

lemma pow_loop_stuck:
  assumes "0 < sz"
  shows "pow_loop sz 0 = None"
proof -
  have "pow_loop sz p = Some r \<Longrightarrow> p = 0 \<longrightarrow> sz = 0" for sz p r
    by (rule pow_loop.raw_induct [of "\<lambda>sz p r. p = 0 \<longrightarrow> sz = 0"])
      (auto simp: word_le_0_iff not_less split: if_splits)
  then show ?thesis using assms by fastforce
qed

lemma unat_pow2 [simp]: "k < 32 \<Longrightarrow> unat (2 ^ k :: u32) = 2 ^ k"
proof -
  assume k: "k < 32"
  then have "(2::nat) ^ k < 2 ^ 32" by (intro power_strict_increasing) auto
  then have "unat (of_nat (2 ^ k) :: u32) = 2 ^ k"
    by (simp only: unat_of_nat) (simp add: take_bit_nat_eq_self)
  then show "unat (2 ^ k :: u32) = 2 ^ k" by simp
qed

lemma pow2_step: "push_bit 1 (2 ^ k :: u32) = 2 ^ k * 2"
  by (simp add: push_bit_eq_mult)

lemma pow2_less: "k < 32 \<Longrightarrow> (2 ^ k :: u32) < sz \<longleftrightarrow> 2 ^ k < unat sz"
  by (simp add: word_less_nat_alt)

lemma pow_loop_from:
  assumes "k \<le> 31" "unat sz \<le> 2 ^ 31" "k = 0 \<or> 2 ^ (k - 1) < unat sz"
  shows "\<exists>j \<le> 31. pow_loop sz (2 ^ k) = Some (2 ^ j) \<and> unat sz \<le> 2 ^ j \<and> (j = 0 \<or> 2 ^ (j - 1) < unat sz)"
  using assms
proof (induction "31 - k" arbitrary: k)
  case 0
  then have "k = 31" by simp
  moreover have "\<not> (2 ^ 31 :: u32) < sz" using 0 pow2_less [of 31 sz] by simp
  then have "pow_loop sz (2 ^ 31) = Some (2 ^ 31)" by (subst pow_loop.simps) simp
  ultimately show ?case using 0 by blast
next
  case (Suc n)
  show ?case
  proof (cases "2 ^ k < unat sz")
    case True
    then have "\<exists>j \<le> 31. pow_loop sz (2 ^ Suc k) = Some (2 ^ j) \<and> unat sz \<le> 2 ^ j \<and>
        (j = 0 \<or> 2 ^ (j - 1) < unat sz)"
      using Suc by (intro Suc.hyps(1)) auto
    moreover have "pow_loop sz (2 ^ k) = pow_loop sz (2 ^ Suc k)"
      using True Suc(2) by (subst pow_loop.simps) (simp add: pow2_less pow2_step mult.commute)
    ultimately show ?thesis by simp
  next
    case False
    then have "pow_loop sz (2 ^ k) = Some (2 ^ k)"
      using Suc(2) by (subst pow_loop.simps) (simp add: pow2_less)
    then show ?thesis using Suc False by (intro exI [of _ k]) auto
  qed
qed

lemma pow_loop_endless:
  assumes "2 ^ 31 < unat sz" "k \<le> 32"
  shows "pow_loop sz (2 ^ k) = None"
  using assms(2)
proof (induction "32 - k" arbitrary: k)
  case 0
  then have "k = 32" by simp
  then have z: "(2 ^ k :: u32) = 0" by simp
  have "0 < sz" using assms(1) by (metis word_gt_0 unat_eq_zero not_less_zero)
  then show ?case unfolding z by (rule pow_loop_stuck)
next
  case (Suc n)
  then have "(2::nat) ^ k \<le> 2 ^ 31" by (intro power_increasing) auto
  then have "(2 ^ k :: u32) < sz" using assms(1) Suc(2) by (subst pow2_less) auto
  then have "pow_loop sz (2 ^ k) = pow_loop sz (2 ^ Suc k)"
    by (subst pow_loop.simps) (simp add: pow2_step mult.commute)
  then show ?case using Suc.hyps(1) [of "Suc k"] Suc(2) by simp
qed

section \<open>The ring as a queue\<close>

text \<open>
  \<open>cb_ring k cb\<close>: the indices are those of a ring of \<open>2 ^ k\<close> slots and all of them exist.
  \<open>cb_items\<close> lists the elements from the read to the write index, oldest first.
\<close>

definition cb_ring :: "nat \<Rightarrow> 'a cbuff \<Rightarrow> bool" where
  "cb_ring k cb \<longleftrightarrow> k < 32 \<and> cb_size cb = mask k \<and> length (cb_elem cb) = 2 ^ k \<and>
     unat (cb_in cb) < 2 ^ k \<and> unat (cb_out cb) < 2 ^ k"

definition cb_count :: "nat \<Rightarrow> 'a cbuff \<Rightarrow> nat" where
  "cb_count k cb = (unat (cb_in cb) + 2 ^ k - unat (cb_out cb)) mod 2 ^ k"

definition cb_items :: "nat \<Rightarrow> 'a cbuff \<Rightarrow> 'a option list" where
  "cb_items k cb = map (\<lambda>i. cb_elem cb ! ((unat (cb_out cb) + i) mod 2 ^ k)) [0..<cb_count k cb]"

lemma unat_and_mask: "unat (x AND mask k :: u32) = unat x mod 2 ^ k"
proof -
  have "unat (x AND mask k) = unat (take_bit k x)" by (simp add: take_bit_eq_mask)
  also have "\<dots> = take_bit k (unat x)" by (rule unsigned_take_bit_eq)
  finally show ?thesis by (simp add: take_bit_eq_mod)
qed

lemma unat_pow2_minus_1: "k < 32 \<Longrightarrow> unat (2 ^ k - 1 :: u32) = 2 ^ k - 1"
  by (subst unat_sub) (simp_all add: word_le_nat_alt)

lemma ring_next:
  assumes "k < 32" "unat (x::u32) < 2 ^ k"
  shows "unat ((x + 1) AND mask k) = Suc (unat x) mod 2 ^ k"
proof -
  have "(2::nat) ^ k \<le> 2 ^ 31" using assms(1) by (intro power_increasing) auto
  then have "unat (x + 1) = Suc (unat x)" using assms(2) by (subst unat_word_ariths) simp
  then show ?thesis by (simp add: unat_and_mask)
qed

definition ring_list :: "(nat \<Rightarrow> 'a) \<Rightarrow> nat \<Rightarrow> nat \<Rightarrow> nat \<Rightarrow> 'a list" where
  "ring_list f N a c = map (\<lambda>j. f ((a + j) mod N)) [0..<c]"

lemma ring_list_length [simp]: "length (ring_list f N a c) = c"
  by (simp add: ring_list_def)

lemma ring_list_snoc:
  assumes "c < N" "a < N"
  shows "ring_list (f((a + c) mod N := x)) N a (Suc c) = ring_list f N a c @ [x]"
proof -
  have "(a + j) mod N \<noteq> (a + c) mod N" if "j < c" for j
    using ring_inj [OF assms(2), of j c] assms(1) that by auto
  then show ?thesis by (simp add: ring_list_def)
qed

lemma ring_list_tl: "ring_list f N (Suc a mod N) c = tl (ring_list f N a (Suc c))"
proof -
  have "(Suc a mod N + j) mod N = (a + Suc j) mod N" for j by (simp add: mod_add_left_eq)
  then show ?thesis
    unfolding ring_list_def by (simp add: upt_conv_Cons map_Suc_upt [symmetric] del: upt_Suc)
qed

text \<open>The count is the distance from the read to the write index.\<close>

lemma cb_count_eq:
  assumes "cb_ring k cb"
  shows "cb_count k cb = c \<longleftrightarrow> c < 2 ^ k \<and> (unat (cb_out cb) + c) mod 2 ^ k = unat (cb_in cb)"
proof -
  let ?N = "2 ^ k :: nat" and ?i = "unat (cb_in cb)" and ?o = "unat (cb_out cb)"
  have io: "?i < ?N" "?o < ?N" using assms by (simp_all add: cb_ring_def)
  have c: "cb_count k cb < ?N" by (simp add: cb_count_def)
  have "(?o + cb_count k cb) mod ?N = (?o + (?i + ?N - ?o)) mod ?N"
    by (simp add: cb_count_def mod_add_right_eq)
  also have "?o + (?i + ?N - ?o) = ?i + ?N" using io by simp
  finally have "(?o + cb_count k cb) mod ?N = ?i" using io by simp
  then show ?thesis using c ring_inj [OF io(2) c, of c] by auto
qed

lemma cb_items_ring:
  "cb_items k cb = ring_list (\<lambda>j. cb_elem cb ! j) (2 ^ k) (unat (cb_out cb)) (cb_count k cb)"
  by (simp add: cb_items_def ring_list_def)

lemma cb_insert_ring:
  assumes "cb_ring k cb"
  shows "\<exists>cb'. fr_cbuff_rp_insert cb x = Some (cb', cb_elem cb ! unat (cb_in cb)) \<and> cb_ring k cb' \<and>
     cb_items k cb' = (if Suc (cb_count k cb) < 2 ^ k then cb_items k cb @ [Some x]
        else tl (cb_items k cb @ [Some x]))"
proof -
  let ?N = "2 ^ k :: nat" and ?i = "unat (cb_in cb)" and ?o = "unat (cb_out cb)" and ?c = "cb_count k cb"
  have R: "k < 32" "cb_size cb = mask k" "length (cb_elem cb) = ?N" "?i < ?N" "?o < ?N"
    using assms by (auto simp: cb_ring_def)
  have c: "?c < ?N" "(?o + ?c) mod ?N = ?i" using cb_count_eq [OF assms, of ?c] by auto
  let ?e = "(cb_elem cb)[?i := Some x]"
  let ?in = "(cb_in cb + 1) AND mask k" and ?out = "(cb_out cb + 1) AND mask k"
  have nx: "unat ?in = Suc ?i mod ?N" "unat ?out = Suc ?o mod ?N"
    using ring_next [OF R(1)] R(4,5) by auto
  have f: "(\<lambda>j. ?e ! j) j = ((\<lambda>j. cb_elem cb ! j)((?o + ?c) mod ?N := Some x)) j" if "j < ?N" for j
    using that c(2) R(3,4) by (simp add: nth_list_update)
  have "ring_list (\<lambda>j. ?e ! j) ?N ?o (Suc ?c) =
      ring_list ((\<lambda>j. cb_elem cb ! j)((?o + ?c) mod ?N := Some x)) ?N ?o (Suc ?c)"
    unfolding ring_list_def using f by (intro map_cong refl) simp
  then have L: "ring_list (\<lambda>j. ?e ! j) ?N ?o (Suc ?c) = cb_items k cb @ [Some x]"
    using ring_list_snoc [OF c(1) R(5)] cb_items_ring by metis
  have Suc_c: "(?o + Suc ?c) mod ?N = Suc ?i mod ?N" using c(2) by (metis add_Suc_right mod_Suc_eq)
  show ?thesis
  proof (cases "Suc ?c < ?N")
    case True
    then have ne: "Suc ?i mod ?N \<noteq> ?o"
      using Suc_c ring_inj [OF R(5) True, of 0] R(5) by auto
    then have "?in \<noteq> cb_out cb" using nx(1) by metis
    let ?cb = "cb\<lparr>cb_elem := ?e, cb_in := ?in\<rparr>"
    have run: "fr_cbuff_rp_insert cb x = Some (?cb, cb_elem cb ! ?i)"
      using R \<open>?in \<noteq> cb_out cb\<close> by (simp add: fr_cbuff_rp_insert_def Let_def)
    have ring: "cb_ring k ?cb" using R nx by (simp add: cb_ring_def)
    have "cb_count k ?cb = Suc ?c" using cb_count_eq [OF ring] True Suc_c nx(1) by simp
    then have "cb_items k ?cb = cb_items k cb @ [Some x]" using L cb_items_ring [of k ?cb] by simp
    then show ?thesis using run ring True by auto
  next
    case False
    then have full: "Suc ?c = ?N" using c(1) by simp
    then have eq: "Suc ?i mod ?N = ?o" using Suc_c R(5) by simp
    then have "?in = cb_out cb" using nx(1) by (simp add: word_unat_eq_iff)
    let ?cb = "cb\<lparr>cb_elem := ?e, cb_in := ?in, cb_out := ?out\<rparr>"
    have run: "fr_cbuff_rp_insert cb x = Some (?cb, cb_elem cb ! ?i)"
      using R \<open>?in = cb_out cb\<close> by (simp add: fr_cbuff_rp_insert_def Let_def)
    have ring: "cb_ring k ?cb" using R nx by (simp add: cb_ring_def)
    have "(Suc ?o mod ?N + ?c) mod ?N = (?o + ?N) mod ?N"
      by (simp add: mod_add_left_eq flip: full)
    then have "cb_count k ?cb = ?c" using cb_count_eq [OF ring] c(1) nx eq R(5) by simp
    then have "cb_items k ?cb = tl (cb_items k cb @ [Some x])"
      unfolding L [symmetric] ring_list_tl [symmetric] using cb_items_ring [of k ?cb] nx(2) by simp
    then show ?thesis using run ring False by auto
  qed
qed

lemma cb_next_ring:
  assumes "cb_ring k cb"
  shows "\<exists>cb' r. fr_cbuff_rp_next cb = Some (cb', r) \<and> cb_ring k cb' \<and> cb_elem cb' = cb_elem cb \<and>
     (case cb_items k cb of [] \<Rightarrow> cb' = cb \<and> r = None
      | y # ys \<Rightarrow> r = y \<and> cb_items k cb' = ys)"
proof -
  let ?N = "2 ^ k :: nat" and ?i = "unat (cb_in cb)" and ?o = "unat (cb_out cb)" and ?c = "cb_count k cb"
  have R: "k < 32" "cb_size cb = mask k" "length (cb_elem cb) = ?N" "?i < ?N" "?o < ?N"
    using assms by (auto simp: cb_ring_def)
  have c: "?c < ?N" "(?o + ?c) mod ?N = ?i" using cb_count_eq [OF assms, of ?c] by auto
  show ?thesis
  proof (cases ?c)
    case 0
    then have "cb_out cb = cb_in cb" using c R(5) by (simp add: word_unat_eq_iff)
    then show ?thesis using 0 assms by (simp add: fr_cbuff_rp_next_def cb_items_def)
  next
    case (Suc d)
    then have "cb_out cb \<noteq> cb_in cb" using c ring_inj [OF R(5) c(1), of 0] R(5) by auto
    let ?out = "(cb_out cb + 1) AND mask k"
    let ?cb = "cb\<lparr>cb_out := ?out\<rparr>"
    have nx: "unat ?out = Suc ?o mod ?N" using ring_next [OF R(1)] R(5) by auto
    have run: "fr_cbuff_rp_next cb = Some (?cb, cb_elem cb ! ?o)"
      using R \<open>cb_out cb \<noteq> cb_in cb\<close> by (simp add: fr_cbuff_rp_next_def Let_def)
    have ring: "cb_ring k ?cb" using R nx by (simp add: cb_ring_def)
    have "(Suc ?o mod ?N + d) mod ?N = ?i" using c(2) Suc by (simp add: mod_add_left_eq)
    then have "cb_count k ?cb = d" using cb_count_eq [OF ring] c(1) Suc nx by simp
    then have tl: "cb_items k ?cb = tl (cb_items k cb)"
      using cb_items_ring [of k ?cb] cb_items_ring [of k cb] nx ring_list_tl Suc by simp
    have "cb_items k cb = cb_elem cb ! ?o # tl (cb_items k cb)"
      using Suc R(5) by (simp add: cb_items_def upt_conv_Cons del: upt_Suc)
    then have "case cb_items k cb of [] \<Rightarrow> ?cb = cb \<and> cb_elem cb ! ?o = None
        | y # ys \<Rightarrow> cb_elem cb ! ?o = y \<and> cb_items k ?cb = ys"
      using tl by (cases "cb_items k cb") auto
    then show ?thesis using run ring by (intro exI [of _ ?cb] exI [of _ "cb_elem cb ! ?o"]) simp
  qed
qed


section \<open>Runs\<close>

datatype 'a cb_op = Insert 'a | Next
datatype 'a cb_res = Freed "'a option" | Taken "'a option"

fun cb_run :: "'a cbuff \<Rightarrow> 'a cb_op list \<Rightarrow> ('a cbuff \<times> 'a cb_res list) option" where
  "cb_run cb [] = Some (cb, [])"
| "cb_run cb (Insert x # ops) =
     (case fr_cbuff_rp_insert cb x of None \<Rightarrow> None
      | Some (cb', y) \<Rightarrow> map_option (\<lambda>(c, outs). (c, Freed y # outs)) (cb_run cb' ops))"
| "cb_run cb (Next # ops) =
     (case fr_cbuff_rp_next cb of None \<Rightarrow> None
      | Some (cb', y) \<Rightarrow> map_option (\<lambda>(c, outs). (c, Taken y # outs)) (cb_run cb' ops))"

text \<open>The specification: a list of at most \<open>cap\<close> elements that drops its head when it is full.\<close>

fun lossy_run :: "nat \<Rightarrow> 'a list \<Rightarrow> 'a cb_op list \<Rightarrow> 'a list \<times> 'a option list" where
  "lossy_run cap q [] = (q, [])"
| "lossy_run cap q (Insert x # ops) =
     lossy_run cap (if length q < cap then q @ [x] else tl (q @ [x])) ops"
| "lossy_run cap q (Next # ops) =
     (case q of [] \<Rightarrow> (let (r, outs) = lossy_run cap [] ops in (r, None # outs))
      | y # ys \<Rightarrow> (let (r, outs) = lossy_run cap ys ops in (r, Some y # outs)))"

fun taken :: "'a cb_res list \<Rightarrow> 'a option list" where
  "taken [] = []"
| "taken (Taken y # outs) = y # taken outs"
| "taken (Freed y # outs) = taken outs"

lemma cb_run_simulates:
  assumes "cb_ring k cb" "cb_items k cb = map Some q"
  shows "\<exists>cb' outs. cb_run cb ops = Some (cb', outs) \<and> cb_ring k cb' \<and>
     (cb_items k cb' = map Some (fst (lossy_run (2 ^ k - 1) q ops))) \<and>
     taken outs = snd (lossy_run (2 ^ k - 1) q ops)"
  using assms
proof (induction ops arbitrary: cb q)
  case (Cons op ops)
  have len: "cb_count k cb = length q" using Cons.prems(2) by (metis cb_items_ring length_map ring_list_length)
  show ?case
  proof (cases op)
    case (Insert x)
    obtain cb1 where i: "fr_cbuff_rp_insert cb x = Some (cb1, cb_elem cb ! unat (cb_in cb))" "cb_ring k cb1"
      "cb_items k cb1 = (if Suc (length q) < 2 ^ k then map Some q @ [Some x] else tl (map Some q @ [Some x]))"
      using cb_insert_ring [OF Cons.prems(1), of x] Cons.prems(2) len by auto
    have "cb_items k cb1 = map Some (if length q < 2 ^ k - 1 then q @ [x] else tl (q @ [x]))"
      using i(3) by (auto simp: map_tl less_diff_conv)
    from Cons.IH [OF i(2) this] show ?thesis using Insert i(1) by auto
  next
    case Next
    obtain cb1 r where n: "fr_cbuff_rp_next cb = Some (cb1, r)" "cb_ring k cb1"
      "case cb_items k cb of [] \<Rightarrow> cb1 = cb \<and> r = None | y # ys \<Rightarrow> r = y \<and> cb_items k cb1 = ys"
      using cb_next_ring [OF Cons.prems(1)] by blast
    show ?thesis
    proof (cases q)
      case Nil
      from Cons.IH [OF Cons.prems(1), of "[]"] show ?thesis
        using Next n Nil Cons.prems(2) by (auto simp: split_beta)
    next
      case (Cons y ys)
      then have "cb_items k cb1 = map Some ys" "r = Some y" using n(3) Cons.prems(2) by auto
      with Cons.IH [OF n(2) this(1)] show ?thesis using Next n(1) Cons by (auto simp: split_beta)
    qed
  qed
qed simp

section \<open>Properties\<close>


definition two_slots :: "nat cbuff" where
  "two_slots = \<lparr>cb_size = 1, cb_in = 0, cb_out = 0, cb_elem = [None, None]\<rparr>"

lemma two_slots_ring: "cb_ring 1 two_slots"
  by (simp add: cb_ring_def two_slots_def mask_eq_exp_minus_1)


text \<open>
  \<^verbatim>\<open>fr_cbuff_alloc\<close> rounds the size up to the next power of two \<open>2^k\<close> and stores the mask
  \<open>2^k - 1\<close>, but allocates only \<open>2^k - 1\<close> slots. It never returns for sizes above \<open>2^31\<close>.
\<close>

lemma cbuff_alloc_rounds:
  "(if unat sz \<le> 2 ^ 31
    then \<exists>k \<le> 31. unat sz \<le> 2 ^ k \<and> (k = 0 \<or> 2 ^ (k - 1) < unat sz) \<and>
       (\<exists>cb. fr_cbuff_alloc sz True True = Some (Some cb) \<and>
          unat (cb_size cb) = 2 ^ k - 1 \<and> length (cb_elem cb) = 2 ^ k - 1)
    else fr_cbuff_alloc sz ok1 ok2 = None)"
proof (cases "unat sz \<le> 2 ^ 31")
  case True
  then obtain k where k: "k \<le> 31" "pow_loop sz (2 ^ 0) = Some (2 ^ k)" "unat sz \<le> 2 ^ k"
    "k = 0 \<or> 2 ^ (k - 1) < unat sz"
    using pow_loop_from [of 0 sz] by auto
  have "unat (2 ^ k - 1 :: u32) = 2 ^ k - 1"
    using k(1) by (intro unat_pow2_minus_1) simp
  then have "\<exists>cb. fr_cbuff_alloc sz True True = Some (Some cb) \<and>
      unat (cb_size cb) = 2 ^ k - 1 \<and> length (cb_elem cb) = 2 ^ k - 1"
    using k(2) by (simp add: fr_cbuff_alloc_def Let_def)
  then show ?thesis using True k by auto
next
  case False
  then have "pow_loop sz (2 ^ 0) = None" by (intro pow_loop_endless) auto
  then show ?thesis using False by (simp add: fr_cbuff_alloc_def)
qed

text \<open>Inserting without taking anything out.\<close>

fun insert_all :: "'a cbuff \<Rightarrow> 'a list \<Rightarrow> 'a cbuff option" where
  "insert_all cb [] = Some cb"
| "insert_all cb (x # xs) =
     (case fr_cbuff_rp_insert cb x of None \<Rightarrow> None | Some (cb', _) \<Rightarrow> insert_all cb' xs)"

lemma insert_all_short:
  assumes "k < 32" "cb_size cb = mask k" "length (cb_elem cb) = 2 ^ k - 1" "unat (cb_in cb) \<le> 2 ^ k - 1"
  shows "insert_all cb xs \<noteq> None \<longleftrightarrow> unat (cb_in cb) + length xs \<le> 2 ^ k - 1"
  using assms(2-4)
proof (induction xs arbitrary: cb)
  case (Cons x xs)
  show ?case
  proof (cases "unat (cb_in cb) < 2 ^ k - 1")
    case True
    obtain cb' y where i: "fr_cbuff_rp_insert cb x = Some (cb', y)"
      using True Cons.prems by (auto simp: fr_cbuff_rp_insert_def Let_def)
    then have f: "cb_size cb' = mask k" "length (cb_elem cb') = 2 ^ k - 1" "cb_in cb' = (cb_in cb + 1) AND mask k"
      using True Cons.prems by (auto simp: fr_cbuff_rp_insert_def Let_def split: if_splits)
    have "unat (cb_in cb') = Suc (unat (cb_in cb))"
      using ring_next [OF assms(1), of "cb_in cb"] True f(3) by simp
    then show ?thesis using Cons.IH [OF f(1,2)] i True by simp
  next
    case False
    then have "unat (cb_in cb) = 2 ^ k - 1" using Cons.prems(3) by simp
    moreover have "(2::nat) ^ k - 1 < 2 ^ k" by simp
    ultimately have "\<not> unat (cb_in cb) + length (x # xs) \<le> 2 ^ k - 1" unfolding length_Cons by linarith
    then show ?thesis
      using Cons.prems \<open>unat (cb_in cb) = 2 ^ k - 1\<close> by (simp add: fr_cbuff_rp_insert_def)
  qed
qed simp

text \<open>
  A buffer fresh from \<^verbatim>\<open>fr_cbuff_alloc\<close> takes exactly as many inserts as it has slots; the next
  one uses the index \<open>size\<close>, which lies behind the allocation.
\<close>

lemma cbuff_alloc_overrun:
  assumes "fr_cbuff_alloc sz True True = Some (Some cb)"
  shows "insert_all cb xs = None \<longleftrightarrow> unat (cb_size cb) < length xs"
proof -
  have sz: "unat sz \<le> 2 ^ 31"
  proof (rule ccontr)
    assume "\<not> ?thesis"
    then have "pow_loop sz (2 ^ 0) = None" by (intro pow_loop_endless) auto
    then show False using assms by (simp add: fr_cbuff_alloc_def)
  qed
  then obtain k where k: "k \<le> 31" "pow_loop sz (2 ^ 0) = Some (2 ^ k)"
    using pow_loop_from [of 0 sz] by auto
  then have cb: "cb = \<lparr>cb_size = mask k, cb_in = 0, cb_out = 0, cb_elem = replicate (unat (mask k :: u32)) None\<rparr>"
    using assms by (simp add: fr_cbuff_alloc_def Let_def mask_eq_exp_minus_1)
  have m: "unat (mask k :: u32) = 2 ^ k - 1"
    using k(1) by (simp add: mask_eq_exp_minus_1 unat_pow2_minus_1)
  show ?thesis using insert_all_short [of k cb xs] k(1) m by (auto simp: cb not_le)
qed

lemma cbuff_alloc_overrun_witness:
  "\<exists>cb. fr_cbuff_alloc 3 True True = Some (Some (cb :: nat cbuff)) \<and>
     insert_all cb [1, 2, 3] \<noteq> None \<and> insert_all cb [1, 2, 3, 4] = None"
proof -
  have run: "\<exists>cb. fr_cbuff_alloc 3 True True = Some (Some (cb :: nat cbuff)) \<and> unat (cb_size cb) = 3"
    by (simp add: fr_cbuff_alloc_def pow_loop.simps [of _ 1] pow_loop.simps [of _ 2] pow_loop.simps [of _ 4])
  then obtain cb :: "nat cbuff" where cb: "fr_cbuff_alloc 3 True True = Some (Some cb)" "unat (cb_size cb) = 3"
    by blast
  show ?thesis
    using cbuff_alloc_overrun [OF cb(1), of "[1, 2, 3]"] cbuff_alloc_overrun [OF cb(1), of "[1, 2, 3, 4]"] cb
    by auto
qed

text \<open>
  \<^verbatim>\<open>fr_cbuff_rp_next\<close> leaves the pointer it hands out in its slot. When the ring comes round to
  that slot, the insert frees the object although it belongs to the caller of \<open>next\<close>.
\<close>

lemma cbuff_frees_taken:
  "\<exists>cb. cb_run two_slots [Insert 5, Next, Insert 6, Insert 7] =
     Some (cb, [Freed None, Taken (Some 5), Freed None, Freed (Some 5)])"
  by (simp add: two_slots_def fr_cbuff_rp_insert_def fr_cbuff_rp_next_def Let_def)

end
