(* ===== verification/Base64.thy ===== *)
theory Base64
  imports Prelude
begin

text \<open>
  \<^verbatim>\<open>lib/base64.c\<close>: encoding and decoding. Characters are bytes (\<open>us(x)\<close> casts them to
  \<open>uint8_t\<close>), a string is the list of its characters without the final NUL. C promotes the
  operands of the shifts to \<open>int\<close>; none of the values leaves 32 bits, so they are \<open>u32\<close>.
  An output buffer is its capacity and the list of the bytes written to it.
\<close>

section \<open>The alphabet\<close>

definition b64str :: "byte list" where
  "b64str = map of_char ''ABCDEFGHIJKLMNOPQRSTUVWXYZabcdefghijklmnopqrstuvwxyz0123456789+/''"

text \<open>The conditional ladder of the macro \<open>B64\<close>: the characters are tested in this order.\<close>

fun B64_ladder :: "byte list \<Rightarrow> int \<Rightarrow> byte \<Rightarrow> int" where
  "B64_ladder [] v c = -1"
| "B64_ladder (x # xs) v c = (if c = x then v else B64_ladder xs (v + 1) c)"

definition B64 :: "byte \<Rightarrow> int" where
  "B64 c = B64_ladder b64str 0 c"

definition b64 :: "int list" where
  "b64 = map (\<lambda>i. B64 (word_of_nat i)) [0..<256]"

definition fr_is_base64 :: "byte \<Rightarrow> bool" where
  "fr_is_base64 c \<longleftrightarrow> b64 ! unat c \<ge> 0"

section \<open>Encoding\<close>

definition FR_BASE64_ENC_LENGTH :: "nat \<Rightarrow> nat" where
  "FR_BASE64_ENC_LENGTH x = ((x + 2) div 3) * 4"

definition enc_char :: "u32 \<Rightarrow> byte" where
  "enc_char x = b64str ! unat (x AND 0x3f)"

definition pad :: byte where
  "pad = of_char CHR ''=''"

text \<open>One round of the loop per equation, by how many bytes are left.\<close>

fun enc_loop :: "byte list \<Rightarrow> byte list" where
  "enc_loop [] = []"
| "enc_loop [a] =
     [enc_char (drop_bit 2 (ucast a)), enc_char (push_bit 4 (ucast a) + 0), pad, pad]"
| "enc_loop [a, b] =
     [enc_char (drop_bit 2 (ucast a)), enc_char (push_bit 4 (ucast a) + drop_bit 4 (ucast b)),
      enc_char (push_bit 2 (ucast b) + 0), pad]"
| "enc_loop (a # b # c # xs) =
     [enc_char (drop_bit 2 (ucast a)), enc_char (push_bit 4 (ucast a) + drop_bit 4 (ucast b)),
      enc_char (push_bit 2 (ucast b) + drop_bit 6 (ucast c)), enc_char (ucast c)] @ enc_loop xs"

definition fr_base64_encode :: "nat \<Rightarrow> byte list \<Rightarrow> byte list \<times> int" where
  "fr_base64_encode outlen xs =
     (if outlen < FR_BASE64_ENC_LENGTH (length xs) + 1 then ([], -1)
      else (enc_loop xs, int (length (enc_loop xs))))"

section \<open>Decoding\<close>

definition b64_val :: "byte \<Rightarrow> u32" where
  "b64_val c = word_of_int (b64 ! unat c)"

definition dec1 :: "byte \<Rightarrow> byte \<Rightarrow> byte" where
  "dec1 p0 p1 = ucast (push_bit 2 (b64_val p0) OR drop_bit 4 (b64_val p1))"

definition dec2 :: "byte \<Rightarrow> byte \<Rightarrow> byte" where
  "dec2 p1 p2 = ucast ((push_bit 4 (b64_val p1) AND 0xf0) OR drop_bit 2 (b64_val p2))"

definition dec3 :: "byte \<Rightarrow> byte \<Rightarrow> byte" where
  "dec3 p2 p3 = ucast ((push_bit 6 (b64_val p2) AND 0xc0) OR b64_val p3)"

text \<open>
  The loop over complete quanta: the bytes written so far, what is left of the input, and
  whether it stopped because the output buffer is too small.
\<close>

fun dec_quanta :: "nat \<Rightarrow> byte list \<Rightarrow> byte list \<Rightarrow> byte list \<times> byte list \<times> bool" where
  "dec_quanta outlen out (p0 # p1 # p2 # p3 # p) =
     (if \<not> fr_is_base64 p0 \<or> \<not> fr_is_base64 p1 \<or> \<not> fr_is_base64 p2 \<or> \<not> fr_is_base64 p3
      then (out, p0 # p1 # p2 # p3 # p, False)
      else if int outlen - int (length out) \<le> 3 then (out, p0 # p1 # p2 # p3 # p, True)
      else dec_quanta outlen (out @ [dec1 p0 p1, dec2 p1 p2, dec3 p2 p3]) p)"
| "dec_quanta outlen out p = (out, p, False)"

definition dec_pads :: "byte list \<Rightarrow> byte list \<Rightarrow> byte list \<times> int" where
  "dec_pads out p =
     (case dropWhile (\<lambda>c. c = pad) p of
        [] \<Rightarrow> (out, int (length out))
      | rest \<Rightarrow> (out, - int (length rest)))"

definition FR_BASE64_DEC_LENGTH :: "nat \<Rightarrow> nat" where
  "FR_BASE64_DEC_LENGTH x = 3 * (x div 4) + 2"

definition fr_base64_decode :: "nat \<Rightarrow> byte list \<Rightarrow> byte list \<times> int" where
  "fr_base64_decode outlen inp =
     (let (out, p, oob) = dec_quanta outlen [] inp;
          n = length (takeWhile fr_is_base64 p);
          left = int outlen - int (length out)
      in if oob then (out, - int (length p))
         else if n = 0 then dec_pads out p
         else if n = 2
         then (if left < 1 then (out, - int (length p))
               else dec_pads (out @ [dec1 (p ! 0) (p ! 1)]) (drop 2 p))
         else if n = 3
         then (if left < 2 then (out, - int (length p))
               else dec_pads (out @ [dec1 (p ! 0) (p ! 1), dec2 (p ! 1) (p ! 2)]) (drop 3 p))
         else (out, - int (length p)))"

section \<open>The alphabet is a bijection\<close>

lemma b64_nth: "b64 ! unat c = B64 c"
proof -
  have "unat c < 256" using unsigned_less [of c] by simp
  then show ?thesis by (simp add: b64_def)
qed

lemma b64str_length: "length b64str = 64"
  by (simp add: b64str_def)

lemma ladder_nth:
  assumes "distinct xs" "i < length xs"
  shows "B64_ladder xs v (xs ! i) = v + int i"
  using assms by (induction xs arbitrary: v i) (auto simp: nth_Cons split: nat.splits)

lemma ladder_notin: "c \<notin> set xs \<Longrightarrow> B64_ladder xs v c = -1"
  by (induction xs arbitrary: v) auto

lemma b64str_distinct: "distinct b64str"
  by (simp add: b64str_def)

lemma pad_notin: "pad \<notin> set b64str"
  by (simp add: b64str_def pad_def)


text \<open>The value of the six low bits and back.\<close>

lemma mask6_less: "unat (x AND 0x3f :: u32) < 64"
proof -
  have "x AND 0x3f \<le> 0x3f" by (simp add: word_and_le1)
  then show ?thesis by (simp add: word_le_nat_alt)
qed

lemma enc_val: "b64_val (enc_char x) = x AND 0x3f"
  using ladder_nth [OF b64str_distinct, of "unat (x AND 0x3f)" 0] mask6_less [of x] b64str_length
  by (simp add: b64_val_def b64_nth B64_def enc_char_def)

lemma enc_is: "fr_is_base64 (enc_char x)"
  using ladder_nth [OF b64str_distinct, of "unat (x AND 0x3f)" 0] mask6_less [of x] b64str_length
  by (simp add: fr_is_base64_def b64_nth B64_def enc_char_def)

lemma pad_not [simp]: "\<not> fr_is_base64 pad"
  by (simp add: fr_is_base64_def b64_nth B64_def ladder_notin [OF pad_notin])

text \<open>Bits of the quanta.\<close>

lemma add_or1: "(push_bit 4 (ucast (a::byte)) + drop_bit 4 (ucast (b::byte)) :: u32) =
    push_bit 4 (ucast a) OR drop_bit 4 (ucast b)"
  by (rule disjunctive_add) (auto simp: bit_simps dest: bit_imp_le_length)

lemma add_or2: "(push_bit 2 (ucast (a::byte)) + drop_bit 6 (ucast (b::byte)) :: u32) =
    push_bit 2 (ucast a) OR drop_bit 6 (ucast b)"
  by (rule disjunctive_add) (auto simp: bit_simps dest: bit_imp_le_length)

lemma mask_consts: "(0x3f :: u32) = mask 6" "(0xf0 :: u32) = push_bit 4 (mask 4)"
  "(0xc0 :: u32) = push_bit 6 (mask 2)"
  by (simp_all add: mask_numeral)

lemma Suc_Suc_diff: "2 \<le> n \<Longrightarrow> Suc (Suc (n - 2)) = n" "\<not> n < 2 \<Longrightarrow> Suc (Suc (n - 2)) = n"
  by simp_all

lemmas dec_defs = dec1_def dec2_def dec3_def enc_val mask_consts

lemma dec1_enc:
  "dec1 (enc_char (drop_bit 2 (ucast a))) (enc_char (push_bit 4 (ucast a) + drop_bit 4 (ucast (b::byte)))) = (a::byte)"
  "dec1 (enc_char (drop_bit 2 (ucast a))) (enc_char (push_bit 4 (ucast a) + 0)) = (a::byte)"
  unfolding dec_defs add_or1
  by (rule bit_word_eqI, auto simp: bit_simps Suc_Suc_diff dest: bit_imp_le_length)+

lemma dec2_enc:
  "dec2 (enc_char (push_bit 4 (ucast a) + drop_bit 4 (ucast b))) (enc_char (push_bit 2 (ucast b) + drop_bit 6 (ucast c))) = b"
  "dec2 (enc_char (push_bit 4 (ucast a) + drop_bit 4 (ucast b))) (enc_char (push_bit 2 (ucast b) + 0)) = b"
  for a b c :: byte
  unfolding dec_defs add_or1 add_or2
  by (rule bit_word_eqI, auto simp: bit_simps Suc_Suc_diff dest: bit_imp_le_length)+

lemma dec3_enc:
  "dec3 (enc_char (push_bit 2 (ucast b) + drop_bit 6 (ucast c))) (enc_char (ucast c)) = c" for b c :: byte
  unfolding dec_defs add_or1 add_or2
  by (rule bit_word_eqI, auto simp: bit_simps dest: bit_imp_le_length)


section \<open>Round trip\<close>

text \<open>What follows the quanta, from any point of the output.\<close>

definition dec_from :: "nat \<Rightarrow> byte list \<Rightarrow> byte list \<Rightarrow> byte list \<times> int" where
  "dec_from outlen out0 inp =
     (let (out, p, oob) = dec_quanta outlen out0 inp;
          n = length (takeWhile fr_is_base64 p);
          left = int outlen - int (length out)
      in if oob then (out, - int (length p))
         else if n = 0 then dec_pads out p
         else if n = 2
         then (if left < 1 then (out, - int (length p))
               else dec_pads (out @ [dec1 (p ! 0) (p ! 1)]) (drop 2 p))
         else if n = 3
         then (if left < 2 then (out, - int (length p))
               else dec_pads (out @ [dec1 (p ! 0) (p ! 1), dec2 (p ! 1) (p ! 2)]) (drop 3 p))
         else (out, - int (length p)))"

lemma decode_from: "fr_base64_decode outlen inp = dec_from outlen [] inp"
  by (simp add: fr_base64_decode_def dec_from_def)

lemma dec_from_quantum:
  assumes "fr_is_base64 p0" "fr_is_base64 p1" "fr_is_base64 p2" "fr_is_base64 p3"
  shows "dec_from outlen out (p0 # p1 # p2 # p3 # p) =
    (if int outlen - int (length out) \<le> 3 then (out, - int (length p) - 4)
     else dec_from outlen (out @ [dec1 p0 p1, dec2 p1 p2, dec3 p2 p3]) p)"
  using assms by (simp add: dec_from_def)

text \<open>The room the decoder asks for: one byte more than it writes after complete quanta.\<close>

definition fits :: "int \<Rightarrow> nat \<Rightarrow> bool" where
  "fits room n \<longleftrightarrow> n = 0 \<or> (if n mod 3 = 0 then int n < room else int n \<le> room)"

lemma fits_step: "3 < room \<Longrightarrow> fits room (Suc (Suc (Suc n))) = fits (room - 3) n"
  unfolding fits_def by (cases "n = 0") (auto simp: mod_Suc)

lemma dec_enc:
  "(fits (int outlen - int (length out)) (length xs) \<longrightarrow>
      dec_from outlen out (enc_loop xs) = (out @ xs, int (length (out @ xs)))) \<and>
   (\<not> fits (int outlen - int (length out)) (length xs) \<longrightarrow> snd (dec_from outlen out (enc_loop xs)) < 0)"
proof (induction xs arbitrary: out rule: enc_loop.induct)
  case 1
  show ?case by (simp add: dec_from_def dec_pads_def fits_def)
next
  case (2 a)
  show ?case
    using dec1_enc(2) [of a] by (simp add: dec_from_def dec_pads_def fits_def enc_is)
next
  case (3 a b)
  show ?case
    using dec1_enc(1) [of a b] dec2_enc(2) [of a b]
    by (simp add: dec_from_def dec_pads_def fits_def enc_is)
next
  case (4 a b c xs)
  let ?room = "int outlen - int (length out)"
  show ?case
  proof (cases "?room \<le> 3")
    case True
    then have "\<not> fits ?room (length (a # b # c # xs))"
      by (cases xs) (auto simp: fits_def split: if_splits)
    then show ?thesis using True by (simp add: dec_from_quantum enc_is)
  next
    case False
    have q: "dec_from outlen out (enc_loop (a # b # c # xs)) = dec_from outlen (out @ [a, b, c]) (enc_loop xs)"
      using False by (simp add: dec_from_quantum enc_is dec1_enc dec2_enc dec3_enc)
    have "fits ?room (length (a # b # c # xs)) = fits (?room - 3) (length xs)"
      using False fits_step [of ?room "length xs"] by simp
    then show ?thesis using "4.IH" [of "out @ [a, b, c]"] unfolding q by (simp add: algebra_simps)
  qed
qed

lemma enc_loop_length: "length (enc_loop xs) = FR_BASE64_ENC_LENGTH (length xs)"
  by (induction xs rule: enc_loop.induct) (auto simp: FR_BASE64_ENC_LENGTH_def, presburger)

section \<open>Nothing is written past the end of the output\<close>

lemma dec_quanta_bound:
  "dec_quanta outlen out inp = (out', p, oob) \<Longrightarrow> length out \<le> outlen \<Longrightarrow>
     length out' \<le> outlen \<and> length p \<le> length inp \<and> (oob \<longrightarrow> p \<noteq> [])"
  by (induction outlen out inp rule: dec_quanta.induct) (auto split: if_splits)

lemma dec_pads_bound:
  "fst (dec_pads out p) = out \<and> (snd (dec_pads out p) < 0 \<and> - int (length p) \<le> snd (dec_pads out p) \<or>
     snd (dec_pads out p) = int (length out))"
  using length_dropWhile_le [of "\<lambda>c. c = pad" p] by (auto simp: dec_pads_def split: list.split)


lemma base64_decode_bounds:
  assumes "fr_base64_decode outlen inp = (w, r)"
  shows "length w \<le> outlen \<and> (r = int (length w) \<or> r < 0 \<and> - int (length inp) \<le> r)"
proof -
  obtain out p oob where q: "dec_quanta outlen [] inp = (out, p, oob)" by (metis prod_cases3)
  have b: "length out \<le> outlen" "length p \<le> length inp" "oob \<longrightarrow> p \<noteq> []"
    using dec_quanta_bound [OF q] by auto
  let ?n = "length (takeWhile fr_is_base64 p)"
  have err: ?thesis if "(w, r) = (out, - int (length p))" "p \<noteq> []" using that b by (cases p) auto
  have fin: ?thesis if "(w, r) = dec_pads out2 p2" "length out2 \<le> outlen" "length p2 \<le> length inp" for out2 p2
    using dec_pads_bound [of out2 p2] that(2,3) unfolding that(1) [symmetric] by auto
  have tw: "p \<noteq> []" if "?n \<noteq> 0" using that by auto
  have run: "(w, r) = (let left = int outlen - int (length out) in
      if oob then (out, - int (length p))
      else if ?n = 0 then dec_pads out p
      else if ?n = 2
      then (if left < 1 then (out, - int (length p)) else dec_pads (out @ [dec1 (p ! 0) (p ! 1)]) (drop 2 p))
      else if ?n = 3
      then (if left < 2 then (out, - int (length p))
            else dec_pads (out @ [dec1 (p ! 0) (p ! 1), dec2 (p ! 1) (p ! 2)]) (drop 3 p))
      else (out, - int (length p)))"
    using assms q by (simp add: fr_base64_decode_def Let_def)
  show ?thesis
  proof (cases "oob \<or> ?n \<noteq> 0 \<and> ?n \<noteq> 2 \<and> ?n \<noteq> 3 \<or> (?n = 2 \<and> int outlen - int (length out) < 1) \<or>
      (?n = 3 \<and> int outlen - int (length out) < 2)")
    case True
    then have "(w, r) = (out, - int (length p))" "p \<noteq> []" using run b(3) tw by (auto simp: Let_def split: if_splits)
    then show ?thesis by (rule err)
  next
    case False
    then consider "(w, r) = dec_pads out p"
      | "(w, r) = dec_pads (out @ [dec1 (p ! 0) (p ! 1)]) (drop 2 p)" "1 \<le> int outlen - int (length out)"
      | "(w, r) = dec_pads (out @ [dec1 (p ! 0) (p ! 1), dec2 (p ! 1) (p ! 2)]) (drop 3 p)"
        "2 \<le> int outlen - int (length out)"
      using run by (auto simp: Let_def not_less split: if_splits)
    then show ?thesis
    proof cases
      case 1
      then show ?thesis using b by (intro fin) auto
    next
      case 2
      then show ?thesis using b(2) by (intro fin [OF 2(1)]) auto
    next
      case 3
      then show ?thesis using b(2) by (intro fin [OF 3(1)]) auto
    qed
  qed
qed

section \<open>Properties\<close>

text \<open>
  C32: decoding what the encoder wrote gives the bytes back, with their number as the result, exactly
  when the output buffer has room for them and, when their number is a positive multiple of three,
  for one byte more; otherwise the decoder reports an error. A buffer of \<open>FR_BASE64_DEC_LENGTH\<close>
  bytes is always enough.
\<close>

theorem base64_roundtrip:
  assumes "fr_base64_encode enclen xs = (s, n)" "n \<noteq> -1"
  shows "(if fits (int outlen) (length xs) then fr_base64_decode outlen s = (xs, int (length xs))
      else snd (fr_base64_decode outlen s) < 0) \<and>
    fr_base64_decode (FR_BASE64_DEC_LENGTH (length s)) s = (xs, int (length xs)) \<and>
    n = int (FR_BASE64_ENC_LENGTH (length xs)) \<and> length s < enclen"
proof -
  have s: "s = enc_loop xs" "n = int (length s)" "length s < enclen"
    using assms enc_loop_length [of xs] by (auto simp: fr_base64_encode_def split: if_splits)
  have "3 * ((length xs + 2) div 3) + 2 > length xs" by presburger
  then have "fits (int (FR_BASE64_DEC_LENGTH (length s))) (length xs)"
    by (auto simp: fits_def s(1) enc_loop_length FR_BASE64_DEC_LENGTH_def FR_BASE64_ENC_LENGTH_def)
  then show ?thesis
    using dec_enc [of outlen "[]" xs] dec_enc [of "FR_BASE64_DEC_LENGTH (length s)" "[]" xs] s
    by (simp add: decode_from enc_loop_length)
qed

theorem base64_roundtrip_witness:
  "fr_base64_encode 5 [77, 97, 110] = (map of_char ''TWFu'', 4) \<and>
   snd (fr_base64_decode 3 (map of_char ''TWFu'')) < 0 \<and>
   fr_base64_decode 4 (map of_char ''TWFu'') = ([77, 97, 110], 3)"
proof -
  have e: "fr_base64_encode 5 [77, 97, 110] = (map of_char ''TWFu'', 4)"
    by (simp add: fr_base64_encode_def FR_BASE64_ENC_LENGTH_def enc_char_def b64str_def)
  show ?thesis
    using base64_roundtrip [OF e, of 3] base64_roundtrip [OF e, of 4] e by (simp add: fits_def)
qed


end
