(* ===== verification/Md5.thy ===== *)
theory Md5
  imports BlockHash
begin

text \<open>
  The MD5 of \<^verbatim>\<open>lib/md5.c\<close> (the implementation used without OpenSSL's). A context is the
  record \<open>md5ctx\<close>; the state is the four working words, the count the 64-bit number of bits in
  two halves, the buffer the 64 bytes of the current block. The transform of one block is the
  source's 64 steps, listed in \<open>md5_steps\<close> with their round function, message word, constant and
  rotation; the source renames the working variables from step to step where the fold rotates them.
\<close>

section \<open>State\<close>

type_synonym md5_state = "u32 \<times> u32 \<times> u32 \<times> u32"

record md5ctx =
  m_state :: md5_state
  m_count0 :: u32
  m_count1 :: u32
  m_buffer :: "byte list"

section \<open>The transform\<close>

definition F1 :: "u32 \<Rightarrow> u32 \<Rightarrow> u32 \<Rightarrow> u32" where
  "F1 x y z = z XOR (x AND (y XOR z))"

definition F2 :: "u32 \<Rightarrow> u32 \<Rightarrow> u32 \<Rightarrow> u32" where
  "F2 x y z = F1 z x y"

definition F3 :: "u32 \<Rightarrow> u32 \<Rightarrow> u32 \<Rightarrow> u32" where
  "F3 x y z = x XOR y XOR z"

definition F4 :: "u32 \<Rightarrow> u32 \<Rightarrow> u32 \<Rightarrow> u32" where
  "F4 x y z = y XOR (x OR NOT z)"

text \<open>\<open>w += f(x, y, z) + data, w = w << s | w >> (32 - s), w += x\<close>\<close>

definition MD5STEP :: "(u32 \<Rightarrow> u32 \<Rightarrow> u32 \<Rightarrow> u32) \<Rightarrow> u32 \<Rightarrow> u32 \<Rightarrow> u32 \<Rightarrow> u32 \<Rightarrow> u32 \<Rightarrow> nat \<Rightarrow> u32" where
  "MD5STEP f w x y z data s = rol (w + (f x y z + data)) s + x"

definition md5_steps :: "((u32 \<Rightarrow> u32 \<Rightarrow> u32 \<Rightarrow> u32) \<times> nat \<times> u32 \<times> nat) list" where
  "md5_steps = [
     (F1, 0, 0xd76aa478, 7), (F1, 1, 0xe8c7b756, 12), (F1, 2, 0x242070db, 17), (F1, 3, 0xc1bdceee, 22),
     (F1, 4, 0xf57c0faf, 7), (F1, 5, 0x4787c62a, 12), (F1, 6, 0xa8304613, 17), (F1, 7, 0xfd469501, 22),
     (F1, 8, 0x698098d8, 7), (F1, 9, 0x8b44f7af, 12), (F1, 10, 0xffff5bb1, 17), (F1, 11, 0x895cd7be, 22),
     (F1, 12, 0x6b901122, 7), (F1, 13, 0xfd987193, 12), (F1, 14, 0xa679438e, 17), (F1, 15, 0x49b40821, 22),
     (F2, 1, 0xf61e2562, 5), (F2, 6, 0xc040b340, 9), (F2, 11, 0x265e5a51, 14), (F2, 0, 0xe9b6c7aa, 20),
     (F2, 5, 0xd62f105d, 5), (F2, 10, 0x02441453, 9), (F2, 15, 0xd8a1e681, 14), (F2, 4, 0xe7d3fbc8, 20),
     (F2, 9, 0x21e1cde6, 5), (F2, 14, 0xc33707d6, 9), (F2, 3, 0xf4d50d87, 14), (F2, 8, 0x455a14ed, 20),
     (F2, 13, 0xa9e3e905, 5), (F2, 2, 0xfcefa3f8, 9), (F2, 7, 0x676f02d9, 14), (F2, 12, 0x8d2a4c8a, 20),
     (F3, 5, 0xfffa3942, 4), (F3, 8, 0x8771f681, 11), (F3, 11, 0x6d9d6122, 16), (F3, 14, 0xfde5380c, 23),
     (F3, 1, 0xa4beea44, 4), (F3, 4, 0x4bdecfa9, 11), (F3, 7, 0xf6bb4b60, 16), (F3, 10, 0xbebfbc70, 23),
     (F3, 13, 0x289b7ec6, 4), (F3, 0, 0xeaa127fa, 11), (F3, 3, 0xd4ef3085, 16), (F3, 6, 0x04881d05, 23),
     (F3, 9, 0xd9d4d039, 4), (F3, 12, 0xe6db99e5, 11), (F3, 15, 0x1fa27cf8, 16), (F3, 2, 0xc4ac5665, 23),
     (F4, 0, 0xf4292244, 6), (F4, 7, 0x432aff97, 10), (F4, 14, 0xab9423a7, 15), (F4, 5, 0xfc93a039, 21),
     (F4, 12, 0x655b59c3, 6), (F4, 3, 0x8f0ccc92, 10), (F4, 10, 0xffeff47d, 15), (F4, 1, 0x85845dd1, 21),
     (F4, 8, 0x6fa87e4f, 6), (F4, 15, 0xfe2ce6e0, 10), (F4, 6, 0xa3014314, 15), (F4, 13, 0x4e0811a1, 21),
     (F4, 4, 0xf7537e82, 6), (F4, 11, 0xbd3af235, 10), (F4, 2, 0x2ad7d2bb, 15), (F4, 9, 0xeb86d391, 21)]"

text \<open>One step updates the first working word; the next step names the words \<open>d, a, b, c\<close>.\<close>

fun md5_round :: "u32 list \<Rightarrow> (u32 \<Rightarrow> u32 \<Rightarrow> u32 \<Rightarrow> u32) \<times> nat \<times> u32 \<times> nat \<Rightarrow> md5_state \<Rightarrow> md5_state" where
  "md5_round inp (f, k, con, s) (a, b, c, d) = (d, MD5STEP f a b c d (inp ! k + con) s, b, c)"

definition fr_md5_transform :: "md5_state \<Rightarrow> byte list \<Rightarrow> md5_state" where
  "fr_md5_transform st block =
     (let inp = map (\<lambda>a. le_word block (a * 4)) [0..<16];
          (s0, s1, s2, s3) = st;
          (a, b, c, d) = fold (md5_round inp) md5_steps st
      in (s0 + a, s1 + b, s2 + c, s3 + d))"

section \<open>The context\<close>

definition PADDING :: "byte list" where
  "PADDING = 0x80 # replicate 63 0"

definition fr_md5_init :: "byte list \<Rightarrow> md5ctx" where
  "fr_md5_init buffer =
     \<lparr>m_state = (0x67452301, 0xefcdab89, 0x98badcfe, 0x10325476), m_count0 = 0, m_count1 = 0,
      m_buffer = buffer\<rparr>"

text \<open>\<open>memcpy(buffer + have, in, len)\<close>\<close>

definition memcpy_at :: "byte list \<Rightarrow> nat \<Rightarrow> byte list \<Rightarrow> byte list" where
  "memcpy_at buf at xs = take at buf @ xs @ drop (at + length xs) buf"

text \<open>The loop over complete blocks of the input: the state and what is left of the input.\<close>

function md5_blocks :: "md5_state \<Rightarrow> byte list \<Rightarrow> md5_state \<times> byte list" where
  "md5_blocks st xs =
     (if length xs \<ge> 64 then md5_blocks (fr_md5_transform st (take 64 xs)) (drop 64 xs) else (st, xs))"
  by auto
termination by (relation "measure (\<lambda>(st, xs). length xs)") auto

declare md5_blocks.simps [simp del]

definition fr_md5_update :: "md5ctx \<Rightarrow> byte list \<Rightarrow> md5ctx" where
  "fr_md5_update ctx xs =
     (let inlen = length xs;
          have = unat (drop_bit 3 (m_count0 ctx) AND (64 - 1));
          need = 64 - have;
          c0 = m_count0 ctx + push_bit 3 (word_of_nat inlen);
          c1 = (if c0 < word_of_nat inlen then m_count1 ctx + 1 else m_count1 ctx);
          ctx1 = ctx\<lparr>m_count0 := c0, m_count1 := c1 + drop_bit 29 (word_of_nat inlen)\<rparr>
      in if inlen \<ge> need
         then let (ctx2, xs2, have2) =
                    (if have \<noteq> 0
                     then let buf = memcpy_at (m_buffer ctx1) have (take need xs)
                          in (ctx1\<lparr>m_buffer := buf, m_state := fr_md5_transform (m_state ctx1) buf\<rparr>,
                              drop need xs, 0)
                     else (ctx1, xs, have));
                  (st, rest) = md5_blocks (m_state ctx2) xs2;
                  ctx3 = ctx2\<lparr>m_state := st\<rparr>
              in if rest \<noteq> [] then ctx3\<lparr>m_buffer := memcpy_at (m_buffer ctx3) have2 rest\<rparr> else ctx3
         else if xs \<noteq> [] then ctx1\<lparr>m_buffer := memcpy_at (m_buffer ctx1) have xs\<rparr> else ctx1)"

fun md5_out :: "md5_state \<Rightarrow> byte list" where
  "md5_out (a, b, c, d) = le_bytes a @ le_bytes b @ le_bytes c @ le_bytes d"

definition fr_md5_final :: "md5ctx \<Rightarrow> byte list" where
  "fr_md5_final ctx =
     (let count = le_bytes (m_count0 ctx) @ le_bytes (m_count1 ctx);
          padlen0 = 64 - unat (drop_bit 3 (m_count0 ctx) AND (64 - 1));
          padlen = (if padlen0 < 1 + 8 then padlen0 + 64 else padlen0);
          ctx1 = fr_md5_update ctx (take (padlen - 8) PADDING);
          ctx2 = fr_md5_update ctx1 count
      in md5_out (m_state ctx2))"

definition fr_md5_calc :: "byte list \<Rightarrow> byte list \<Rightarrow> byte list" where
  "fr_md5_calc buffer xs = fr_md5_final (fr_md5_update (fr_md5_init buffer) xs)"

section \<open>The digest of a message\<close>

text \<open>RFC 1321: pad with a 1 bit, zeros and the bit length, then compress the blocks.\<close>

definition md5_pad :: "byte list \<Rightarrow> byte list" where
  "md5_pad m = m @ 0x80 # replicate ((119 - length m mod 64) mod 64) 0 @ le_bytes (bit_count m) @ le_bytes 0"

definition md5_start :: md5_state where
  "md5_start = (0x67452301, 0xefcdab89, 0x98badcfe, 0x10325476)"

definition md5 :: "byte list \<Rightarrow> byte list" where
  "md5 m = md5_out (blocks fr_md5_transform md5_start (md5_pad m))"

text \<open>The context after a message.\<close>

definition md5_absorbed :: "md5ctx \<Rightarrow> byte list \<Rightarrow> bool" where
  "md5_absorbed ctx m \<longleftrightarrow> m_state ctx = blocks fr_md5_transform md5_start m \<and>
     m_count0 ctx = bit_count m \<and> m_count1 ctx = 0 \<and> length (m_buffer ctx) = 64 \<and>
     take (length m mod 64) (m_buffer ctx) = tail64 m"

lemma md5_blocks_eq: "md5_blocks st xs = (blocks fr_md5_transform st xs, tail64 xs)"
proof (induction st xs rule: md5_blocks.induct)
  case (1 st xs)
  then show ?case
    by (subst md5_blocks.simps) (auto simp: blocks_short tail64_short blocks_step tail64_step)
qed

lemma md5_out_length [simp]: "length (md5_out st) = 16"
  by (cases st) simp

lemma memcpy_at_length: "at + length xs \<le> length buf \<Longrightarrow> length (memcpy_at buf at xs) = length buf"
  by (simp add: memcpy_at_def)

lemma memcpy_at_take [simp]: "take (length xs) (memcpy_at buf 0 xs) = xs"
  by (simp add: memcpy_at_def)

lemma md5_init_absorbed: "length buffer = 64 \<Longrightarrow> md5_absorbed (fr_md5_init buffer) []"
  by (simp add: md5_absorbed_def fr_md5_init_def md5_start_def bit_count_def blocks_short tail64_def)


text \<open>Feeding a message in pieces is feeding it at once.\<close>

lemma no_carry:
  assumes "length m + length xs < 2 ^ 29"
  shows "\<not> bit_count (m @ xs) < word_of_nat (length xs)" "drop_bit 29 (word_of_nat (length xs) :: u32) = 0"
proof -
  have xs: "unat (word_of_nat (length xs) :: u32) = length xs"
    using assms by (simp add: unat_of_nat take_bit_nat_eq_self)
  show "\<not> bit_count (m @ xs) < word_of_nat (length xs)"
    using assms xs unat_bit_count [of "m @ xs"] by (simp add: word_less_nat_alt)
  show "drop_bit 29 (word_of_nat (length xs) :: u32) = 0"
    using assms xs by (simp add: word_unat_eq_iff unat_drop_bit)
qed

lemma md5_update_absorbed:
  assumes c: "md5_absorbed ctx m" and len: "length m + length xs < 2 ^ 29"
  shows "md5_absorbed (fr_md5_update ctx xs) (m @ xs)"
proof -
  let ?h = "length m mod 64" and ?t = "tail64 m" and ?n = "length xs"
  have lim: "length m < 2 ^ 29" "length m + length xs < 2 ^ 29" using len by simp_all
  have I: "m_state ctx = blocks fr_md5_transform md5_start m" "m_count0 ctx = bit_count m"
    "m_count1 ctx = 0" "length (m_buffer ctx) = 64" "take ?h (m_buffer ctx) = ?t"
    using c by (auto simp: md5_absorbed_def)
  have h: "unat (drop_bit 3 (m_count0 ctx) AND (64 - 1)) = ?h" "length ?t = ?h" "?h < 64"
    using buffered [OF lim(1)] I(2) by (simp_all add: tail64_length)
  have cnt: "m_count0 ctx + push_bit 3 (word_of_nat ?n) = bit_count (m @ xs)"
    by (simp add: I(2) bit_count_append)
  note nc = no_carry [OF lim(2)]
  have st: "blocks fr_md5_transform md5_start (m @ xs) = blocks fr_md5_transform (m_state ctx) (?t @ xs)"
    unfolding I(1) by (rule blocks_append)
  have tl: "tail64 (m @ xs) = tail64 (?t @ xs)" by (rule tail64_append)
  have tlen: "length (tail64 (m @ xs)) = (length m + ?n) mod 64" by (simp add: tail64_length)
  define ctx1 where "ctx1 = ctx\<lparr>m_count0 := bit_count (m @ xs), m_count1 := 0\<rparr>"
  have fin: "md5_absorbed (ctx1\<lparr>m_state := st', m_buffer := buf\<rparr>) (m @ xs)"
    if "st' = blocks fr_md5_transform (m_state ctx) (?t @ xs)" "length buf = 64"
      "take (length (tail64 (?t @ xs))) buf = tail64 (?t @ xs)" for st' buf
    using that st tl tlen by (simp add: md5_absorbed_def ctx1_def)
  have start: "fr_md5_update ctx xs =
     (if ?n \<ge> 64 - ?h
      then let (ctx2, xs2, have2) =
             (if ?h \<noteq> 0
              then let buf = memcpy_at (m_buffer ctx1) ?h (take (64 - ?h) xs)
                   in (ctx1\<lparr>m_buffer := buf, m_state := fr_md5_transform (m_state ctx1) buf\<rparr>,
                       drop (64 - ?h) xs, 0)
              else (ctx1, xs, ?h));
             (st, rest) = md5_blocks (m_state ctx2) xs2;
             ctx3 = ctx2\<lparr>m_state := st\<rparr>
         in if rest \<noteq> [] then ctx3\<lparr>m_buffer := memcpy_at (m_buffer ctx3) have2 rest\<rparr> else ctx3
      else if xs \<noteq> [] then ctx1\<lparr>m_buffer := memcpy_at (m_buffer ctx1) ?h xs\<rparr> else ctx1)"
    unfolding fr_md5_update_def Let_def h(1) cnt ctx1_def if_not_P [OF nc(1)] nc(2) I(3) by simp
  have b1: "m_buffer ctx1 = m_buffer ctx" "m_state ctx1 = m_state ctx" by (simp_all add: ctx1_def)
  consider "64 - ?h \<le> ?n" "?h \<noteq> 0" | "64 - ?h \<le> ?n" "?h = 0" | "?n < 64 - ?h" by linarith
  then show ?thesis
  proof cases
    case 1
    let ?buf = "?t @ take (64 - ?h) xs"
    let ?r = "tail64 (drop (64 - ?h) xs)"
    have buf: "memcpy_at (m_buffer ctx1) ?h (take (64 - ?h) xs) = ?buf" "length ?buf = 64"
      using 1 I(4,5) h b1 by (simp_all add: memcpy_at_def)
    have r: "length ?r \<le> 64" using tail64_length [of "drop (64 - ?h) xs"] by simp
    have run: "fr_md5_update ctx xs = ctx1\<lparr>m_state := blocks fr_md5_transform (fr_md5_transform (m_state ctx) ?buf) (drop (64 - ?h) xs),
        m_buffer := (if ?r \<noteq> [] then memcpy_at ?buf 0 ?r else ?buf)\<rparr>"
      using 1 unfolding start buf(1) by (simp add: md5_blocks_eq b1 Let_def)
    have fb: "blocks fr_md5_transform (m_state ctx) (?t @ xs) =
        blocks fr_md5_transform (fr_md5_transform (m_state ctx) ?buf) (drop (64 - ?h) xs)"
      "tail64 (?t @ xs) = ?r"
      using fill_block(1) [of ?t xs fr_md5_transform "m_state ctx"] fill_block(2) [of ?t xs] h 1 by auto
    show ?thesis
      unfolding run using buf(2) r fb memcpy_at_length [of 0 ?r ?buf] by (intro fin) auto
  next
    case 2
    then have t: "?t = []" using h(2) by simp
    let ?r = "tail64 xs"
    have r: "length ?r \<le> 64" using tail64_length [of xs] by simp
    have run: "fr_md5_update ctx xs = ctx1\<lparr>m_state := blocks fr_md5_transform (m_state ctx) xs,
        m_buffer := (if ?r \<noteq> [] then memcpy_at (m_buffer ctx) 0 ?r else m_buffer ctx)\<rparr>"
      using 2 unfolding start by (simp add: md5_blocks_eq b1 ctx1_def Let_def)
    show ?thesis
      unfolding run using r I(4) t memcpy_at_length [of 0 ?r] by (intro fin) auto
  next
    case 3
    then have short: "length (?t @ xs) < 64" using h(2) by simp
    have run: "fr_md5_update ctx xs = ctx1\<lparr>m_state := m_state ctx,
        m_buffer := (if xs \<noteq> [] then memcpy_at (m_buffer ctx) ?h xs else m_buffer ctx)\<rparr>"
      using 3 unfolding start by (simp add: ctx1_def)
    show ?thesis
      unfolding run using short I(4,5) h(2)
      by (intro fin) (auto simp: blocks_short tail64_short memcpy_at_def)
  qed
qed

lemma take_PADDING: "0 < n \<Longrightarrow> n \<le> 64 \<Longrightarrow> take n PADDING = 0x80 # replicate (n - 1) 0"
  by (cases n) (simp_all add: PADDING_def)

text \<open>The length of the padding: up to 56 modulo 64.\<close>

lemma padlen_eq:
  fixes h :: nat
  assumes "h < 64"
  defines "p \<equiv> (if 64 - h < 1 + 8 then 64 - h + 64 else 64 - h)"
  shows "p - 8 - 1 = (119 - h) mod 64" "0 < p - 8" "p - 8 \<le> 64" "(h + (p - 8) + 8) mod 64 = 0"
  using assms by (auto simp: le_mod_geq)

lemma md5_final_hash:
  assumes c: "md5_absorbed ctx m" and len: "length m < hash_limit"
  shows "fr_md5_final ctx = md5 m"
proof -
  let ?h = "length m mod 64"
  define p where "p = (if 64 - ?h < 1 + 8 then 64 - ?h + 64 else 64 - ?h)"
  have h: "?h < 64" by simp
  note p = padlen_eq [OF h, folded p_def]
  have lim: "length m < 2 ^ 29" using len by (simp add: hash_limit_def)
  have hv: "unat (drop_bit 3 (m_count0 ctx) AND (64 - 1)) = ?h"
    using buffered [OF lim] c by (simp add: md5_absorbed_def)
  let ?pad = "0x80 # replicate ((119 - ?h) mod 64) 0 :: byte list"
  have tp: "take (p - 8) PADDING = ?pad" using take_PADDING [OF p(2,3)] p(1) by simp
  have lp: "length ?pad = p - 8" using p(1,2) by simp
  let ?c1 = "fr_md5_update ctx ?pad"
  have c1: "md5_absorbed ?c1 (m @ ?pad)"
    using p(3) lp len by (intro md5_update_absorbed [OF c]) (simp add: hash_limit_def)
  let ?cnt = "le_bytes (bit_count m) @ le_bytes 0"
  have c2: "md5_absorbed (fr_md5_update ?c1 ?cnt) ((m @ ?pad) @ ?cnt)"
    using p(3) lp len by (intro md5_update_absorbed [OF c1]) (simp add: hash_limit_def)
  have "fr_md5_final ctx = md5_out (m_state (fr_md5_update ?c1 ?cnt))"
    unfolding fr_md5_final_def hv Let_def p_def [symmetric] tp
    using c by (simp add: md5_absorbed_def)
  also have "m_state (fr_md5_update ?c1 ?cnt) = blocks fr_md5_transform md5_start (md5_pad m)"
    using c2 by (simp add: md5_absorbed_def md5_pad_def)
  finally show ?thesis by (simp add: md5_def)
qed

interpretation md5: hash_stream "fr_md5_init (replicate 64 0)" fr_md5_update fr_md5_final md5_absorbed md5 16
  using md5_update_absorbed md5_final_hash
  by unfold_locales (auto simp: md5_init_absorbed hash_limit_def md5_def)


lemma md5_update_count:
  "m_count0 (fr_md5_update ctx xs) = m_count0 ctx + push_bit 3 (word_of_nat (length xs))"
  "m_count1 (fr_md5_update ctx xs) =
     (if m_count0 ctx + push_bit 3 (word_of_nat (length xs)) < word_of_nat (length xs)
      then m_count1 ctx + 1 else m_count1 ctx) + drop_bit 29 (word_of_nat (length xs))"
  by (simp_all add: fr_md5_update_def Let_def split: prod.split)

section \<open>Properties\<close>



text \<open>
  The 64-bit bit count loses carries. Adding \<open>n\<close> bytes carries into the upper half only when
  the lower half after the wrap-around is less than \<open>n\<close>, where it wraps to anything below \<open>8 n\<close>: the
  test compares with the number of bytes and not of bits.
\<close>

lemma md5_lost_carry:
  assumes "length xs < 2 ^ 29"
  shows "m_count1 (fr_md5_update ctx xs) = m_count1 ctx +
     (if 2 ^ 32 \<le> unat (m_count0 ctx) + 8 * length xs \<and>
         unat (m_count0 ctx) + 8 * length xs < 2 ^ 32 + length xs then 1 else 0)"
proof -
  let ?n = "length xs" and ?o = "unat (m_count0 ctx)"
  have n: "unat (word_of_nat ?n :: u32) = ?n" using assms by (simp add: unat_of_nat take_bit_nat_eq_self)
  then have z: "drop_bit 29 (word_of_nat ?n :: u32) = 0"
    using assms by (simp add: word_unat_eq_iff unat_drop_bit)
  have "unat (push_bit 3 (word_of_nat ?n) :: u32) = 8 * ?n"
    using assms by (simp add: push_bit_eq_mult unat_word_ariths n)
  then have sum: "unat (m_count0 ctx + push_bit 3 (word_of_nat ?n)) = (?o + 8 * ?n) mod 2 ^ 32"
    by (simp add: unat_word_ariths)
  have o: "?o < 2 ^ 32" using unsigned_less [of "m_count0 ctx"] by simp
  have "(?o + 8 * ?n) mod 2 ^ 32 = (if 2 ^ 32 \<le> ?o + 8 * ?n then ?o + 8 * ?n - 2 ^ 32 else ?o + 8 * ?n)"
    using o assms by (auto simp: le_mod_geq)
  then have "m_count0 ctx + push_bit 3 (word_of_nat ?n) < word_of_nat ?n \<longleftrightarrow>
      2 ^ 32 \<le> ?o + 8 * ?n \<and> ?o + 8 * ?n < 2 ^ 32 + ?n"
    unfolding word_less_nat_alt sum n by auto
  then show ?thesis unfolding md5_update_count z by simp
qed

lemma md5_lost_carry_witness:
  "m_count1 (fr_md5_update \<lparr>m_state = md5_start, m_count0 = 0xfffffff8, m_count1 = 0,
     m_buffer = replicate 64 0\<rparr> (replicate 64 0)) = 0"
  using md5_lost_carry [of "replicate 64 0" "\<lparr>m_state = md5_start, m_count0 = 0xfffffff8, m_count1 = 0,
     m_buffer = replicate 64 0\<rparr>"]
  by simp

lemma md5_empty_digest:
  "fr_md5_calc (replicate 64 0) [] =
     [0xd4, 0x1d, 0x8c, 0xd9, 0x8f, 0x00, 0xb2, 0x04, 0xe9, 0x80, 0x09, 0x98, 0xec, 0xf8, 0x42, 0x7e]"
  by code_simp

end
