(* ===== verification/RadPassword.thy ===== *)
theory RadPassword
  imports Md5
begin

text \<open>
  Hiding of passwords in RADIUS attributes, \<^verbatim>\<open>lib/radius.c\<close>: \<^verbatim>\<open>make_secret\<close>,
  \<^verbatim>\<open>make_passwd\<close>, \<^verbatim>\<open>rad_pwencode\<close>, \<^verbatim>\<open>rad_pwdecode\<close> and \<^verbatim>\<open>rad_chap_encode\<close>, over the
  MD5 contexts of theory \<open>Md5\<close>; the Tunnel-Password is in theory \<open>RadTunnel\<close>. A secret is the list of
  its characters, so that its length is \<^verbatim>\<open>strlen\<close>. A buffer the code changes in place is a list
  that is returned updated; where the code would leave it, the result is \<open>None\<close>.
\<close>

section \<open>Chained hiding\<close>

text \<open>
  RFC 2865, 5.2 and RFC 2868, 3.5 over a digest \<open>H\<close>: each 16-byte chunk is combined with the digest
  of the secret and the previous hidden chunk. The last chunk may be shorter.
\<close>

definition xor_bytes :: "byte list \<Rightarrow> byte list \<Rightarrow> byte list" where
  "xor_bytes xs ys = map2 (XOR) xs ys"

function hide :: "(byte list \<Rightarrow> byte list) \<Rightarrow> byte list \<Rightarrow> byte list \<Rightarrow> byte list \<Rightarrow> byte list" where
  "hide H S prev p =
     (if p = [] then []
      else let c = xor_bytes (take 16 p) (H (S @ prev)) in c @ hide H S c (drop 16 p))"
  by auto
termination by (relation "measure (\<lambda>(H, S, prev, p). length p)") auto

function unhide :: "(byte list \<Rightarrow> byte list) \<Rightarrow> byte list \<Rightarrow> byte list \<Rightarrow> byte list \<Rightarrow> byte list" where
  "unhide H S prev c =
     (if c = [] then []
      else xor_bytes (take 16 c) (H (S @ prev)) @ unhide H S (take 16 c) (drop 16 c))"
  by auto
termination by (relation "measure (\<lambda>(H, S, prev, c). length c)") auto

declare hide.simps [simp del] unhide.simps [simp del]

lemma hide_Nil [simp]: "hide H S prev [] = []"
  by (subst hide.simps) simp

lemma unhide_Nil [simp]: "unhide H S prev [] = []"
  by (subst unhide.simps) simp

lemma xor_bytes_length [simp]: "length (xor_bytes xs ys) = min (length xs) (length ys)"
  by (simp add: xor_bytes_def)

lemma xor_bytes_inv: "length xs \<le> length ys \<Longrightarrow> xor_bytes (xor_bytes xs ys) ys = xs"
  by (rule nth_equalityI) (simp_all add: xor_bytes_def xor.assoc)

lemma xor_bytes_nth: "i < length xs \<Longrightarrow> i < length ys \<Longrightarrow> xor_bytes xs ys ! i = xs ! i XOR ys ! i"
  by (simp add: xor_bytes_def)

locale digest16 =
  fixes H :: "byte list \<Rightarrow> byte list"
  assumes H_length: "length (H x) = 16"
begin

lemma hide_length: "length (hide H S prev p) = length p"
proof (induction p arbitrary: prev rule: length_induct)
  case (1 p)
  then show ?case using H_length by (cases "p = []") (simp_all add: hide.simps [of H S prev p] Let_def)
qed

lemma unhide_hide: "unhide H S prev (hide H S prev p) = p"
proof (induction p arbitrary: prev rule: length_induct)
  case (1 p)
  show ?case
  proof (cases "p = []")
    case False
    let ?c = "xor_bytes (take 16 p) (H (S @ prev))"
    have l: "length ?c = min (length p) 16" using H_length by simp
    have h: "hide H S prev p = ?c @ hide H S ?c (drop 16 p)" using False by (subst hide.simps) (simp add: Let_def)
    have "take 16 (hide H S prev p) = ?c \<and> drop 16 (hide H S prev p) = hide H S ?c (drop 16 p)"
    proof (cases "length p \<le> 16")
      case True
      then show ?thesis using h l by simp
    next
      case False
      then show ?thesis using h l by simp
    qed
    moreover have "hide H S prev p \<noteq> []" using h l False by (metis Nil_is_append_conv length_0_conv min_0R min_def nat_le_linear numeral_eq_Suc zero_neq_numeral)
    moreover have "unhide H S ?c (hide H S ?c (drop 16 p)) = drop 16 p" using 1 False by simp
    ultimately have "unhide H S prev (hide H S prev p) = xor_bytes ?c (H (S @ prev)) @ drop 16 p"
      by (subst unhide.simps) simp
    also have "xor_bytes ?c (H (S @ prev)) = take 16 p" using H_length by (intro xor_bytes_inv) simp
    finally show ?thesis by simp
  qed simp
qed

end

interpretation rad: digest16 md5
  by unfold_locales (simp add: md5_def)


section \<open>Buffers\<close>

text \<open>\<open>passwd[i + n] ^= digest[i]\<close> for \<open>i < length d\<close>.\<close>

definition xor_at :: "byte list \<Rightarrow> nat \<Rightarrow> byte list \<Rightarrow> byte list" where
  "xor_at buf n d = take n buf @ xor_bytes (drop n buf) d @ drop (n + length d) buf"

lemma xor_at_length [simp]: "n + length d \<le> length buf \<Longrightarrow> length (xor_at buf n d) = length buf"
  by (simp add: xor_at_def)

lemma xor_bytes_take: "xor_bytes xs ys = xor_bytes (take (length ys) xs) ys"
  by (rule nth_equalityI) (simp_all add: xor_bytes_def)

section \<open>Building packets\<close>

definition AUTH_PASS_LEN :: nat where "AUTH_PASS_LEN = 16"
definition MAX_PASS_LEN :: nat where "MAX_PASS_LEN = 128"

text \<open>
  A context on the stack: its buffer is not initialised, so it is any 64 bytes; \<open>junk\<close> here.
  \<open>md5_secret\<close> is the context after the shared secret, which \<open>fr_md5_copy\<close> saves in \<open>old\<close>.
\<close>

definition md5_secret :: "byte list \<Rightarrow> byte list \<Rightarrow> md5ctx" where
  "md5_secret junk secret = fr_md5_update (fr_md5_init junk) secret"

definition make_secret :: "byte list \<Rightarrow> byte list \<Rightarrow> byte list \<Rightarrow> byte list \<Rightarrow> byte list option" where
  "make_secret junk vector secret val =
     (let digest = fr_md5_final (fr_md5_update (fr_md5_update (fr_md5_init junk) vector) secret)
      in if length val > length digest then None
         else Some (xor_at digest 0 val))"

text \<open>The loop of \<^verbatim>\<open>make_passwd\<close> and \<^verbatim>\<open>rad_pwencode\<close> from block \<open>n\<close> on.\<close>

function pw_loop :: "md5ctx \<Rightarrow> md5ctx \<Rightarrow> byte list \<Rightarrow> nat \<Rightarrow> nat \<Rightarrow> byte list" where
  "pw_loop old context passwd n len =
     (if n < len
      then let context1 = (if n > 0 then fr_md5_update old (slice passwd (n - AUTH_PASS_LEN) AUTH_PASS_LEN)
                           else context);
               digest = fr_md5_final context1
           in pw_loop old context1 (xor_at passwd n digest) (n + AUTH_PASS_LEN) len
      else passwd)"
  by auto
termination by (relation "measure (\<lambda>(old, context, passwd, n, len). len - n)") (auto simp: AUTH_PASS_LEN_def)

declare pw_loop.simps [simp del]

text \<open>The output and its length. The length is rounded up to the next multiple of 16, 0 to 16.\<close>

definition make_passwd :: "byte list \<Rightarrow> byte list \<Rightarrow> byte list \<Rightarrow> byte list \<Rightarrow> byte list \<times> nat" where
  "make_passwd junk inp secret vector =
     (let len0 = (if length inp > MAX_PASS_LEN then MAX_PASS_LEN else length inp);
          passwd = take len0 inp @ replicate (MAX_PASS_LEN - len0) 0;
          len = (if len0 = 0 then AUTH_PASS_LEN
                 else if len0 mod 16 \<noteq> 0 then (len0 + 15) div 16 * 16 else len0);
          old = md5_secret junk secret;
          context = fr_md5_update old vector
      in (take len (pw_loop old context passwd 0 len), len))"

text \<open>
  \<^verbatim>\<open>rad_pwencode\<close> works in the caller's buffer \<open>passwd\<close>, of which the first \<open>pwlen\<close> bytes are
  the password; \<open>None\<close> when the rounded length does not fit.
\<close>

definition pwencode_pad :: "byte list \<Rightarrow> nat \<Rightarrow> nat \<times> byte list" where
  "pwencode_pad passwd len =
     (if len = 0 then (AUTH_PASS_LEN, replicate AUTH_PASS_LEN 0 @ drop AUTH_PASS_LEN passwd)
      else if len mod AUTH_PASS_LEN \<noteq> 0
      then let k = AUTH_PASS_LEN - len mod AUTH_PASS_LEN
           in (len + k, take len passwd @ replicate k 0 @ drop (len + k) passwd)
      else (len, passwd))"

definition rad_pwencode ::
  "byte list \<Rightarrow> byte list \<Rightarrow> nat \<Rightarrow> byte list \<Rightarrow> byte list \<Rightarrow> (byte list \<times> nat) option" where
  "rad_pwencode junk passwd pwlen secret vector =
     (let (len, passwd1) = pwencode_pad passwd (if pwlen > 128 then 128 else pwlen);
          old = md5_secret junk secret;
          context = fr_md5_update old vector
      in if length passwd < len then None
         else Some (pw_loop old context passwd1 0 len, len))"

text \<open>The loop of \<^verbatim>\<open>rad_pwdecode\<close> from block \<open>n\<close> on.\<close>

function pwdecode_loop :: "md5ctx \<Rightarrow> md5ctx \<Rightarrow> byte list \<Rightarrow> nat \<Rightarrow> nat \<Rightarrow> byte list \<Rightarrow> byte list" where
  "pwdecode_loop old context passwd n pwlen vector =
     (if n < pwlen
      then let context1 = (if n = 0 then fr_md5_update context vector else context);
               digest = fr_md5_final context1;
               context2 = (if pwlen > n + AUTH_PASS_LEN
                           then fr_md5_update old (slice passwd n AUTH_PASS_LEN) else old)
           in pwdecode_loop old context2 (xor_at passwd n digest) (n + AUTH_PASS_LEN) pwlen vector
      else passwd)"
  by auto
termination by (relation "measure (\<lambda>(old, context, passwd, n, len, v). len - n)") (auto simp: AUTH_PASS_LEN_def)

declare pwdecode_loop.simps [simp del]

definition round16 :: "nat \<Rightarrow> nat" where
  "round16 n = (n + 15) div 16 * 16"

text \<open>\<open>strlen(passwd)\<close>, and the buffer with the NUL written at \<open>pwlen\<close>.\<close>

definition strlen :: "byte list \<Rightarrow> nat" where
  "strlen s = length (takeWhile (\<lambda>c. c \<noteq> 0) s)"

definition rad_pwdecode ::
  "byte list \<Rightarrow> byte list \<Rightarrow> nat \<Rightarrow> byte list \<Rightarrow> byte list \<Rightarrow> (byte list \<times> nat) option" where
  "rad_pwdecode junk passwd pwlen0 secret vector =
     (let pwlen = (if pwlen0 > 128 then 128 else pwlen0);
          old = md5_secret junk secret;
          passwd1 = (if pwlen = 0 then passwd else pwdecode_loop old old passwd 0 pwlen vector)
      in if length passwd < round16 pwlen \<or> length passwd \<le> pwlen then None
         else let passwd2 = passwd1[pwlen := 0] in Some (passwd2, strlen passwd2))"

text \<open>
  The CHAP response: the identifier and the digest of identifier, password and challenge (the
  packet's authenticator without a CHAP-Challenge attribute). \<open>None\<close> when they overflow the local
  \<open>string\<close>. The packet and the password are never NULL.
\<close>

definition MAX_STRING_LEN :: nat where "MAX_STRING_LEN = 254"

definition rad_chap_encode ::
  "byte list \<Rightarrow> byte list \<Rightarrow> byte \<Rightarrow> byte list \<Rightarrow> byte list option \<Rightarrow> byte list option" where
  "rad_chap_encode junk vector chap_id password challenge =
     (let string = chap_id # password @ (case challenge of Some c \<Rightarrow> c | None \<Rightarrow> vector)
      in if length string > MAX_STRING_LEN * 2 + 1 then None
         else Some (chap_id # fr_md5_calc junk string))"

section \<open>The loops compute the chained hiding\<close>

lemma round16_props: "n \<le> round16 n" "round16 n < n + 16" "round16 n mod 16 = 0"
  using minus_mod_eq_div_mult [of "n + 15" 16] mod_less_divisor [of 16 "n + 15"]
  by (simp_all add: round16_def)

text \<open>A secret and the digest input it is part of stay below the limit of the MD5 contexts.\<close>

definition secret_ok :: "byte list \<Rightarrow> bool" where
  "secret_ok secret \<longleftrightarrow> length secret + 64 < hash_limit"

lemma md5_secret_absorbed:
  "length junk = 64 \<Longrightarrow> secret_ok secret \<Longrightarrow> md5_absorbed (md5_secret junk secret) secret"
  using md5.upd_absorbed [OF md5_init_absorbed, of junk secret]
  by (simp add: md5_secret_def secret_ok_def)

lemma absorb_final:
  assumes "md5_absorbed old S" "secret_ok S" "length xs \<le> 64"
  shows "fr_md5_final (fr_md5_update old xs) = md5 (S @ xs)"
  using md5.upd_absorbed [OF assms(1), of xs] md5.fin_hash [of _ "S @ xs"] assms(2,3)
  by (simp add: secret_ok_def)

lemma md5_length [simp]: "length (md5 x) = 16"
  by (rule rad.H_length)


lemma rad_chap_encode_md5:
  assumes "length junk = 64" "length password + length (case challenge of Some c \<Rightarrow> c | None \<Rightarrow> vector) \<le> 508"
  shows "rad_chap_encode junk vector chap_id password challenge =
    Some (chap_id # md5 (chap_id # password @ (case challenge of Some c \<Rightarrow> c | None \<Rightarrow> vector)))"
proof -
  let ?s = "chap_id # password @ (case challenge of Some c \<Rightarrow> c | None \<Rightarrow> vector)"
  have l: "length ?s \<le> 509" using assms(2) by simp
  have "fr_md5_calc junk ?s = md5 ?s"
    using md5.upd_absorbed [OF md5_init_absorbed [OF assms(1)], of ?s] md5.fin_hash [of _ ?s] l
    by (simp add: fr_md5_calc_def hash_limit_def)
  then show ?thesis using l unfolding rad_chap_encode_def Let_def MAX_STRING_LEN_def by simp
qed

lemma xor_at_split:
  assumes "n + 16 \<le> length b" "length d = 16"
  shows "xor_at b n d = take n b @ xor_bytes (take 16 (drop n b)) d @ drop (n + 16) b"
  using assms xor_bytes_take [of "drop n b" d] by (simp add: xor_at_def)

lemma xor_at_parts:
  assumes "n + 16 \<le> length b" "length d = 16"
  shows "take (n + 16) (xor_at b n d) = take n b @ xor_bytes (take 16 (drop n b)) d"
    "slice (xor_at b n d) n 16 = xor_bytes (take 16 (drop n b)) d"
    "drop (n + 16) (xor_at b n d) = drop (n + 16) b"
    "n + 16 \<le> k \<Longrightarrow> drop k (xor_at b n d) = drop k b"
proof -
  let ?x = "xor_bytes (take 16 (drop n b)) d"
  have x: "length ?x = 16" "length (take n b) = n" using assms by simp_all
  note s = xor_at_split [OF assms]
  show "take (n + 16) (xor_at b n d) = take n b @ ?x" using x unfolding s by simp
  show "slice (xor_at b n d) n 16 = ?x" using x unfolding s slice_def by simp
  show e: "drop (n + 16) (xor_at b n d) = drop (n + 16) b" using x unfolding s by simp
  assume "n + 16 \<le> k"
  then obtain j where "k = (n + 16) + j" using le_Suc_ex by blast
  then show "drop k (xor_at b n d) = drop k b" using e by (metis add.commute drop_drop)
qed

lemma hide_step: "p \<noteq> [] \<Longrightarrow> hide H S prev p =
    xor_bytes (take 16 p) (H (S @ prev)) @ hide H S (xor_bytes (take 16 p) (H (S @ prev))) (drop 16 p)"
  by (subst hide.simps) (simp add: Let_def)

lemma unhide_step: "c \<noteq> [] \<Longrightarrow> unhide H S prev c =
    xor_bytes (take 16 c) (H (S @ prev)) @ unhide H S (take 16 c) (drop 16 c)"
  by (subst unhide.simps) simp

lemma aligned_step:
  fixes n R :: nat
  assumes "n mod 16 = 0" "R mod 16 = 0" "n < R"
  shows "n + 16 \<le> R"
proof -
  obtain i j where "n = 16 * i" "R = 16 * j" using assms(1,2) by (auto simp: mod_eq_0_iff_dvd elim!: dvdE)
  then show ?thesis using assms(3) by simp
qed

lemma pw_loop_hide:
  assumes old: "md5_absorbed old S" "secret_ok S"
    and "len mod 16 = 0" "n mod 16 = 0" "n \<le> len" "len \<le> length b" "length prev \<le> 64"
    and "if n = 0 then cx = fr_md5_update old prev else prev = slice b (n - 16) 16"
  shows "pw_loop old cx b n len =
    take n b @ hide md5 S prev (take (len - n) (drop n b)) @ drop len b"
  using assms(3-)
proof (induction "len - n" arbitrary: cx b n prev rule: less_induct)
  case less
  show ?case
  proof (cases "n < len")
    case False
    then show ?thesis using less.prems by (subst pw_loop.simps) simp
  next
    case True
    then have n16: "n + 16 \<le> len" using aligned_step [OF less.prems(2,1)] by simp
    define context1 where
      "context1 = (if n > 0 then fr_md5_update old (slice b (n - AUTH_PASS_LEN) AUTH_PASS_LEN) else cx)"
    have "context1 = fr_md5_update old prev"
      using less.prems(6) by (auto simp: context1_def AUTH_PASS_LEN_def split: if_splits)
    then have d: "fr_md5_final context1 = md5 (S @ prev)"
      using absorb_final [OF old less.prems(5)] by simp
    let ?b = "xor_at b n (md5 (S @ prev))"
    let ?c = "xor_bytes (take 16 (drop n b)) (md5 (S @ prev))"
    have nb: "n + 16 \<le> length b" using n16 less.prems(4) by simp
    note parts = xor_at_parts [OF nb md5_length [of "S @ prev"]]
    have run: "pw_loop old cx b n len = pw_loop old context1 ?b (n + 16) len"
      using True d by (subst pw_loop.simps) (simp add: Let_def AUTH_PASS_LEN_def context1_def)
    have "pw_loop old context1 ?b (n + 16) len =
        take (n + 16) ?b @ hide md5 S ?c (take (len - (n + 16)) (drop (n + 16) ?b)) @ drop len ?b"
      using less.prems n16 nb parts(2)
      by (intro less.hyps) (auto simp: AUTH_PASS_LEN_def)
    also have "\<dots> = take n b @ ?c @ hide md5 S ?c (take (len - (n + 16)) (drop (n + 16) b)) @ drop len b"
      using parts n16 by simp
    finally have pw: "pw_loop old context1 ?b (n + 16) len =
        take n b @ ?c @ hide md5 S ?c (take (len - (n + 16)) (drop (n + 16) b)) @ drop len b" .
    have "?c @ hide md5 S ?c (take (len - (n + 16)) (drop (n + 16) b)) =
        hide md5 S prev (take (len - n) (drop n b))"
    proof -
      let ?p = "take (len - n) (drop n b)"
      have "?p \<noteq> []" using True nb by simp
      moreover have "take 16 ?p = take 16 (drop n b)" using n16 by (simp add: min_def)
      moreover have "drop 16 ?p = take (len - (n + 16)) (drop (n + 16) b)"
        by (simp add: drop_take add.commute)
      ultimately show ?thesis by (simp add: hide_step)
    qed
    then show ?thesis using run pw by (metis append_assoc)
  qed
qed

lemma pwdecode_loop_unhide:
  assumes old: "md5_absorbed old S" "secret_ok S" "length vector \<le> 64"
    and "n mod 16 = 0" "n \<le> round16 pwlen" "round16 pwlen \<le> length b" "length prev \<le> 64"
    and "if n = 0 then prev = vector \<and> cx = old
         else n < pwlen \<longrightarrow> md5_absorbed cx (S @ prev)"
  shows "pwdecode_loop old cx b n pwlen vector =
    take n b @ unhide md5 S prev (take (round16 pwlen - n) (drop n b)) @ drop (round16 pwlen) b"
  using assms(4-)
proof (induction "pwlen - n" arbitrary: cx b n prev rule: less_induct)
  case less
  let ?R = "round16 pwlen"
  show ?case
  proof (cases "n < pwlen")
    case False
    then have "n = ?R"
      using aligned_step [OF less.prems(1) round16_props(3), of pwlen] less.prems(2) round16_props(2) [of pwlen]
      by linarith
    then show ?thesis using False by (subst pwdecode_loop.simps) simp
  next
    case True
    then have n16: "n + 16 \<le> ?R"
      using aligned_step [OF less.prems(1) round16_props(3)] round16_props(1) [of pwlen] by simp
    then have nb: "n + 16 \<le> length b" using less.prems(3) by simp
    define context1 where "context1 = (if n = 0 then fr_md5_update cx vector else cx)"
    have d: "fr_md5_final context1 = md5 (S @ prev)"
    proof (cases "n = 0")
      case True
      then show ?thesis using less.prems(5) absorb_final [OF old(1,2) old(3)] by (simp add: context1_def)
    next
      case False
      then have "md5_absorbed cx (S @ prev)" using less.prems(5) True by simp
      then show ?thesis using md5.fin_hash old(2) less.prems(4) False
        by (simp add: context1_def secret_ok_def)
    qed
    let ?p = "slice b n 16"
    define context2 where "context2 = (if pwlen > n + 16 then fr_md5_update old ?p else old)"
    have ab: "n + 16 < pwlen \<longrightarrow> md5_absorbed context2 (S @ ?p)"
      using md5.upd_absorbed [OF old(1), of ?p] old(2)
      by (simp add: context2_def secret_ok_def slice_def)
    let ?b = "xor_at b n (md5 (S @ prev))"
    note parts = xor_at_parts [OF nb md5_length [of "S @ prev"]]
    have run: "pwdecode_loop old cx b n pwlen vector = pwdecode_loop old context2 ?b (n + 16) pwlen vector"
      using True d by (subst pwdecode_loop.simps) (simp add: Let_def AUTH_PASS_LEN_def context1_def context2_def)
    have "pwdecode_loop old context2 ?b (n + 16) pwlen vector =
        take (n + 16) ?b @ unhide md5 S ?p (take (?R - (n + 16)) (drop (n + 16) ?b)) @ drop ?R ?b"
    proof (rule less.hyps)
      show "pwlen - (n + 16) < pwlen - n" using True by simp
      show "(n + 16) mod 16 = 0" using less.prems(1) by simp
      show "n + 16 \<le> ?R" by (rule n16)
      show "?R \<le> length ?b" using less.prems(3) nb by simp
      show "length ?p \<le> 64" by (simp add: slice_def)
      show "if n + 16 = 0 then ?p = vector \<and> context2 = old
        else n + 16 < pwlen \<longrightarrow> md5_absorbed context2 (S @ ?p)" using ab by simp
    qed
    also have "\<dots> = take n b @ xor_bytes ?p (md5 (S @ prev)) @
        unhide md5 S ?p (take (?R - (n + 16)) (drop (n + 16) b)) @ drop ?R b"
      using parts n16 by (simp add: slice_def)
    finally have pw: "pwdecode_loop old context2 ?b (n + 16) pwlen vector = take n b @
        xor_bytes ?p (md5 (S @ prev)) @
        unhide md5 S ?p (take (?R - (n + 16)) (drop (n + 16) b)) @ drop ?R b" .
    have "xor_bytes ?p (md5 (S @ prev)) @ unhide md5 S ?p (take (?R - (n + 16)) (drop (n + 16) b)) =
        unhide md5 S prev (take (?R - n) (drop n b))"
    proof -
      let ?q = "take (?R - n) (drop n b)"
      have "?q \<noteq> []" using n16 nb by simp
      moreover have "take 16 ?q = ?p" using n16 by (simp add: slice_def min_def)
      moreover have "drop 16 ?q = take (?R - (n + 16)) (drop (n + 16) b)"
        by (simp add: drop_take add.commute)
      ultimately show ?thesis by (simp add: unhide_step)
    qed
    then show ?thesis using run pw by (metis append_assoc)
  qed
qed


text \<open>The password as it is hidden: at most 128 bytes, zeros up to a positive multiple of 16.\<close>

definition padded :: "byte list \<Rightarrow> byte list" where
  "padded p = (let q = take 128 p in q @ replicate (max 16 (round16 (length q)) - length q) 0)"

lemma round16_multiple:
  assumes "n mod 16 = 0"
  shows "round16 n = n"
proof -
  obtain k where n: "n = 16 * k" using assms by (auto simp: mod_eq_0_iff_dvd elim: dvdE)
  have "(15 + 16 * k) div 16 = k + 15 div 16" by (rule div_mult_self2) simp
  then show ?thesis by (simp add: n round16_def add.commute)
qed

lemma round16_rest:
  assumes "n mod 16 \<noteq> 0"
  shows "round16 n = n + (16 - n mod 16)"
proof -
  obtain q where n: "n = 16 * q + n mod 16" by (metis mult_div_mod_eq)
  obtain r where r: "n mod 16 = Suc r" using assms by (cases "n mod 16") auto
  have r16: "r < 16" using r mod_less_divisor [of 16 n] by linarith
  have n': "n = 16 * q + Suc r" using n unfolding r .
  then have e: "n + 15 = r + 16 * (q + 1)" by simp
  have "(r + 16 * (q + 1)) div 16 = (q + 1) + r div 16" by (rule div_mult_self2) simp
  also have "r div 16 = 0" using r16 by (rule div_less)
  finally have "round16 n = (q + 1) * 16" unfolding round16_def e by simp
  then show ?thesis unfolding r using n' r16 by simp
qed

lemma round16_pos: "0 < n \<Longrightarrow> 16 \<le> round16 n"
  using div_le_mono [of 16 "n + 15" 16] by (simp add: round16_def)

lemma round16_le: "n \<le> 128 \<Longrightarrow> round16 n \<le> 128"
  using div_le_mono [of "n + 15" 143 16] by (simp add: round16_def)

lemma padded_length: "length (padded p) = max 16 (round16 (min (length p) 128))"
  using round16_props(1) [of "min (length p) 128"] by (simp add: padded_def Let_def min_def)

lemma padded_aligned: "length (padded p) mod 16 = 0" "length (padded p) \<le> 128"
  using round16_props(3) round16_le [of "min (length p) 128"] by (auto simp: padded_length max_def)

lemma pwencode_pad_eq:
  assumes "len = min pwlen 128" "pwlen \<le> length passwd"
  shows "pwencode_pad passwd len =
    (length (padded (take pwlen passwd)), padded (take pwlen passwd) @ drop (length (padded (take pwlen passwd))) passwd)"
proof -
  have q: "take 128 (take pwlen passwd) = take len passwd" "length (take len passwd) = len"
    using assms by (simp_all add: min.commute)
  have p: "padded (take pwlen passwd) = take len passwd @ replicate (max 16 (round16 len) - len) 0"
    unfolding padded_def Let_def q ..
  have n: "length (padded (take pwlen passwd)) = max 16 (round16 len)"
    using p q(2) round16_props(1) [of len] by simp
  have le: "len \<le> length passwd" using assms by simp
  consider "len = 0" | "len \<noteq> 0" "len mod 16 \<noteq> 0" | "len \<noteq> 0" "len mod 16 = 0" by blast
  then show ?thesis
  proof cases
    case 1
    then show ?thesis unfolding n p by (simp add: pwencode_pad_def AUTH_PASS_LEN_def round16_def)
  next
    case 2
    then have "max 16 (round16 len) = len + (16 - len mod 16)"
      using round16_rest [of len] round16_pos [of len] by simp
    then show ?thesis using 2 le unfolding n p
      by (simp add: pwencode_pad_def AUTH_PASS_LEN_def Let_def min_absorb2)
  next
    case 3
    then have "max 16 (round16 len) = len"
      using round16_multiple [of len] round16_pos [of len] by simp
    then show ?thesis using 3 le unfolding n p
      by (simp add: pwencode_pad_def AUTH_PASS_LEN_def min_absorb2)
  qed
qed

lemma pwencode_shape:
  assumes "rad_pwencode junk passwd pwlen secret vector = Some (b, n)" "pwlen \<le> length passwd"
  shows "n = length (padded (take pwlen passwd)) \<and> n \<le> length passwd \<and>
    b = pw_loop (md5_secret junk secret) (fr_md5_update (md5_secret junk secret) vector)
      (padded (take pwlen passwd) @ drop n passwd) 0 n"
proof -
  have l: "(if pwlen > 128 then 128 else pwlen) = min pwlen 128" by simp
  note e = pwencode_pad_eq [OF refl assms(2)]
  show ?thesis
    using assms(1) unfolding rad_pwencode_def l e Let_def prod.case by (auto split: if_split_asm)
qed

lemma pwencode_hide:
  assumes "rad_pwencode junk passwd pwlen secret vector = Some (b, n)" "pwlen \<le> length passwd"
    and "length junk = 64" "secret_ok secret" "length vector \<le> 64"
  shows "n = length (padded (take pwlen passwd))"
    "b = hide md5 secret vector (padded (take pwlen passwd)) @ drop n passwd"
proof -
  let ?p = "padded (take pwlen passwd)"
  note sh = pwencode_shape [OF assms(1,2)]
  show n: "n = length ?p" using sh by blast
  have "b = take 0 (?p @ drop n passwd) @ hide md5 secret vector (take (n - 0) (drop 0 (?p @ drop n passwd))) @
      drop n (?p @ drop n passwd)"
    unfolding conjunct2 [OF conjunct2 [OF sh]]
    using n padded_aligned [of "take pwlen passwd"] assms(5)
    by (intro pw_loop_hide md5_secret_absorbed assms) auto
  then show "b = hide md5 secret vector ?p @ drop n passwd" using n by simp
qed

lemma make_passwd_hide:
  assumes "length junk = 64" "secret_ok secret" "length vector \<le> 64"
  shows "make_passwd junk inp secret vector = (hide md5 secret vector (padded inp), length (padded inp))"
proof -
  define len0 where "len0 = (if length inp > MAX_PASS_LEN then MAX_PASS_LEN else length inp)"
  define len where "len = (if len0 = 0 then AUTH_PASS_LEN
      else if len0 mod 16 \<noteq> 0 then (len0 + 15) div 16 * 16 else len0)"
  define pw where "pw = take len0 inp @ replicate (MAX_PASS_LEN - len0) (0::byte)"
  have l0: "len0 = min (length inp) 128" by (simp add: len0_def MAX_PASS_LEN_def)
  have len: "len = length (padded inp)"
    unfolding padded_length l0 [symmetric] len_def AUTH_PASS_LEN_def
    using round16_multiple [of len0] round16_pos [of len0] by (auto simp: round16_def)
  have le: "len0 \<le> len" "len \<le> 128" using padded_aligned(2) [of inp] len l0 by (auto simp: padded_def Let_def)
  have pw: "take len pw = padded inp" "length pw = 128"
  proof -
    show "length pw = 128" using l0 by (simp add: pw_def MAX_PASS_LEN_def)
    have "take len pw = take len0 inp @ replicate (len - len0) 0"
      using le l0 by (simp add: pw_def MAX_PASS_LEN_def min_def)
    also have "\<dots> = padded inp"
      using len l0 unfolding padded_length by (cases "length inp \<le> 128") (simp_all add: padded_def Let_def)
    finally show "take len pw = padded inp" .
  qed
  have "pw_loop (md5_secret junk secret) (fr_md5_update (md5_secret junk secret) vector) pw 0 len =
      take 0 pw @ hide md5 secret vector (take (len - 0) (drop 0 pw)) @ drop len pw"
    using padded_aligned(1) [of inp] le len pw(2) assms by (intro pw_loop_hide md5_secret_absorbed) auto
  then have "take len (pw_loop (md5_secret junk secret) (fr_md5_update (md5_secret junk secret) vector) pw 0 len) =
      hide md5 secret vector (padded inp)"
    using pw rad.hide_length [of secret vector "padded inp"] len by simp
  then show ?thesis
    unfolding make_passwd_def Let_def len0_def [symmetric] len_def [symmetric] pw_def [symmetric]
    using len by simp
qed


lemma takeWhile_zeros: "takeWhile (\<lambda>c. c \<noteq> 0) (q @ replicate k 0 @ 0 # rest) = takeWhile (\<lambda>c. c \<noteq> (0::byte)) q"
proof (induction q)
  case Nil
  show ?case by (cases k) auto
qed simp

lemma pwdecode_hidden:
  assumes b: "b = hide md5 secret vector (padded p) @ rest" "rest \<noteq> []" and n: "n = length (padded p)"
    and ok: "length junk = 64" "secret_ok secret" "length vector \<le> 64"
  shows "rad_pwdecode junk b n secret vector =
    Some (padded p @ 0 # tl rest, length (takeWhile (\<lambda>c. c \<noteq> 0) (take 128 p)))"
proof -
  let ?h = "hide md5 secret vector (padded p)"
  have hl: "length ?h = n" using n by (simp add: rad.hide_length)
  have n16: "round16 n = n" "n \<le> 128" "16 \<le> n"
    using padded_aligned [of p] round16_multiple n padded_length [of p] by auto
  have lb: "n < length b" using b hl by simp
  have "pwdecode_loop (md5_secret junk secret) (md5_secret junk secret) b 0 n vector =
      take 0 b @ unhide md5 secret vector (take (round16 n - 0) (drop 0 b)) @ drop (round16 n) b"
    using n16 lb ok by (intro pwdecode_loop_unhide md5_secret_absorbed) auto
  also have "\<dots> = padded p @ rest" using n16 hl b(1) by (simp add: rad.unhide_hide)
  finally have lp: "pwdecode_loop (md5_secret junk secret) (md5_secret junk secret) b 0 n vector = padded p @ rest" .
  have upd: "(padded p @ rest)[n := 0] = padded p @ 0 # tl rest"
    using n b(2) by (cases rest) simp_all
  have "strlen (padded p @ 0 # tl rest) = length (takeWhile (\<lambda>c. c \<noteq> 0) (take 128 p))"
    by (simp add: strlen_def padded_def Let_def takeWhile_zeros)
  then show ?thesis using n16 lb lp upd by (simp add: rad_pwdecode_def Let_def)
qed

section \<open>Properties of User-Password\<close>

text \<open>
  C34: the two encoders of User-Password agree with each other and with RFC 2865: for every
  password, secret and authenticator they produce the chained hiding of the password cut to 128
  bytes and padded with zeros to a positive multiple of 16, and \<^verbatim>\<open>rad_pwencode\<close> leaves
  the rest of its buffer alone.
\<close>

theorem pwencode_equiv:
  assumes "rad_pwencode junk passwd pwlen secret vector = Some (b, n)" "pwlen \<le> length passwd"
    and "length junk = 64" "length junk' = 64" "secret_ok secret" "length vector = 16"
  shows "make_passwd junk' (take pwlen passwd) secret vector = (take n b, n) \<and>
    take n b = hide md5 secret vector (padded (take pwlen passwd)) \<and> drop n b = drop n passwd"
proof -
  have v: "length vector \<le> 64" using assms(6) by simp
  note e = pwencode_hide [OF assms(1-3,5) v]
  have "length (hide md5 secret vector (padded (take pwlen passwd))) = n"
    using e(1) by (simp add: rad.hide_length)
  then show ?thesis using e make_passwd_hide [OF assms(4,5) v] by simp
qed

definition demo_vector :: "byte list" where
  "demo_vector = replicate 16 9"

lemma pwencode_runs:
  "length passwd = 32 \<Longrightarrow> pwlen \<le> 16 \<Longrightarrow>
     \<exists>b. rad_pwencode junk passwd pwlen secret vector = Some (b, 16)"
  using pwencode_pad_eq [OF refl, of pwlen passwd] padded_length [of "take pwlen passwd"]
    round16_le [of pwlen] round16_pos [of pwlen] div_le_mono [of "pwlen + 15" 31 16]
  by (cases "pwlen = 0") (simp_all add: rad_pwencode_def Let_def round16_def min_def max_def)

theorem pwencode_equiv_witness:
  "\<exists>b. rad_pwencode (replicate 64 0) (replicate 32 7) 5 [1, 2, 3] demo_vector = Some (b, 16) \<and>
     make_passwd (replicate 64 1) (replicate 5 7) [1, 2, 3] demo_vector = (take 16 b, 16)"
proof -
  obtain b where b: "rad_pwencode (replicate 64 0) (replicate 32 7) 5 [1, 2, 3] demo_vector = Some (b, 16)"
    using pwencode_runs [of "replicate 32 7" 5 "replicate 64 0" "[1, 2, 3]" demo_vector] by auto
  then show ?thesis
    using pwencode_equiv [OF b, of "replicate 64 1"] by (simp add: secret_ok_def hash_limit_def demo_vector_def)
qed

text \<open>
  C24: decoding what \<^verbatim>\<open>rad_pwencode\<close> produced, in a buffer with room for the final NUL, gives
  back the password up to its first zero byte or its 128th character, and its length.
\<close>

theorem pwdecode_pwencode:
  assumes "rad_pwencode junk passwd pwlen secret vector = Some (b, n)" "pwlen \<le> length passwd"
    and "n < length passwd" "length junk = 64" "length junk' = 64" "secret_ok secret" "length vector = 16"
  shows "\<exists>b'. rad_pwdecode junk' b n secret vector =
      Some (b', length (takeWhile (\<lambda>c. c \<noteq> 0) (take 128 (take pwlen passwd)))) \<and>
    take (strlen b') b' = takeWhile (\<lambda>c. c \<noteq> 0) (take 128 (take pwlen passwd))"
proof -
  let ?p = "take pwlen passwd"
  have v: "length vector \<le> 64" using assms(7) by simp
  note e = pwencode_hide [OF assms(1,2,4,6) v]
  have r: "drop n passwd \<noteq> []" using assms(3) by simp
  note d = pwdecode_hidden [OF e(2) r e(1) assms(5,6) v]
  let ?b = "padded ?p @ 0 # tl (drop n passwd)"
  have "takeWhile (\<lambda>c. c \<noteq> 0) ?b = takeWhile (\<lambda>c. c \<noteq> 0) (take 128 ?p)"
    by (simp only: padded_def Let_def append_assoc takeWhile_zeros)
  then have "take (strlen ?b) ?b = takeWhile (\<lambda>c. c \<noteq> 0) (take 128 ?p)"
    unfolding strlen_def takeWhile_eq_take [symmetric] by simp
  then show ?thesis using d by blast
qed

theorem pwdecode_pwencode_witness:
  "\<exists>b b'. rad_pwencode (replicate 64 0) (replicate 32 7) 5 [1, 2, 3] demo_vector = Some (b, 16) \<and>
     rad_pwdecode (replicate 64 1) b 16 [1, 2, 3] demo_vector = Some (b', 5)"
proof -
  obtain b where b: "rad_pwencode (replicate 64 0) (replicate 32 7) 5 [1, 2, 3] demo_vector = Some (b, 16)"
    using pwencode_runs [of "replicate 32 7" 5 "replicate 64 0" "[1, 2, 3]" demo_vector] by auto
  then show ?thesis
    using pwdecode_pwencode [OF b, of "replicate 64 1"] by (auto simp: secret_ok_def hash_limit_def demo_vector_def)
qed

end
