(* ===== verification/RadTunnel.thy ===== *)
theory RadTunnel
  imports RadPassword
begin

text \<open>
  Tunnel-Password of \<^verbatim>\<open>lib/radius.c\<close> (RFC 2868): \<^verbatim>\<open>make_tunnel_passwd\<close>,
  \<^verbatim>\<open>rad_tunnel_pwencode\<close> and \<^verbatim>\<open>rad_tunnel_pwdecode\<close>, with the conventions of theory
  \<open>RadPassword\<close>; the file's \<open>salt_offset\<close> and the two results of \<^verbatim>\<open>fr_rand\<close> are arguments.
\<close>

section \<open>Encoding\<close>

definition tunnel_salt :: "u32 \<Rightarrow> u32 \<Rightarrow> u32 \<Rightarrow> byte list" where
  "tunnel_salt salt_offset r0 r1 =
     [ucast ((0x80 OR push_bit 3 (salt_offset AND 0x0f)) OR (r0 AND 0x07)), ucast r1]"

lemma tunnel_salt_high: "length (tunnel_salt c r0 r1) = 2 \<and> bit (hd (tunnel_salt c r0 r1)) 7"
  by (simp add: tunnel_salt_def bit_or_iff bit_push_bit_iff bit_simps)

text \<open>The loop of \<^verbatim>\<open>make_tunnel_passwd\<close> from block \<open>n\<close> on.\<close>

function tunnel_loop :: "md5ctx \<Rightarrow> md5ctx \<Rightarrow> byte list \<Rightarrow> nat \<Rightarrow> nat \<Rightarrow> nat \<Rightarrow> byte list" where
  "tunnel_loop old context output n encrypted_len room =
     (if n < encrypted_len
      then let context1 = (if n > 0
                           then fr_md5_update old (slice output (2 + n - AUTH_PASS_LEN) AUTH_PASS_LEN)
                           else context);
               digest = fr_md5_final context1;
               block_len = (if 2 + n + AUTH_PASS_LEN < room then AUTH_PASS_LEN else room - 2 - n)
           in tunnel_loop old context1 (xor_at output (2 + n) (take block_len digest))
                (n + AUTH_PASS_LEN) encrypted_len room
      else output)"
  by auto
termination
  by (relation "measure (\<lambda>(old, context, output, n, len, room). len - n)") (auto simp: AUTH_PASS_LEN_def)

declare tunnel_loop.simps [simp del]

text \<open>The \<open>*outlen\<close> bytes of the output. Less than three bytes of room wrap \<open>room - 3\<close> around.\<close>

definition make_tunnel_passwd ::
  "byte list \<Rightarrow> byte list \<Rightarrow> byte list \<Rightarrow> nat \<Rightarrow> byte list \<Rightarrow> byte list \<Rightarrow> byte list option" where
  "make_tunnel_passwd junk salt inp room0 secret vector =
     (let room = (if room0 > 253 then 253 else room0);
          inlen = (if length inp > room - 3 then room - 3 else length inp);
          len1 = inlen + 1;
          len2 = (if len1 mod 16 \<noteq> 0 then (len1 + 15) div 16 * 16 else len1);
          encrypted_len = (if len2 > room - 2 then room - 2 else len2);
          outlen = encrypted_len + 2;
          output = salt @ word_of_nat inlen # take inlen inp @ replicate (outlen - 3 - inlen) 0;
          old = md5_secret junk secret;
          context = fr_md5_update (fr_md5_update old vector) (take 2 output)
      in if room < 3 then None
         else Some (tunnel_loop old context output 0 encrypted_len room))"

text \<open>The loop of \<^verbatim>\<open>rad_tunnel_pwencode\<close>; \<open>passwd\<close> starts after the salt.\<close>

function tpwencode_loop :: "byte list \<Rightarrow> byte list \<Rightarrow> byte list \<Rightarrow> byte list \<Rightarrow> byte list \<Rightarrow> nat \<Rightarrow> nat \<Rightarrow> byte list" where
  "tpwencode_loop junk secret vector salt passwd n2 len =
     (if n2 < len
      then let digest = (if n2 = 0 then fr_md5_calc junk (secret @ vector @ salt)
                         else fr_md5_calc junk (secret @ slice passwd (n2 - AUTH_PASS_LEN) AUTH_PASS_LEN))
           in tpwencode_loop junk secret vector salt (xor_at passwd n2 digest) (n2 + AUTH_PASS_LEN) len
      else passwd)"
  by auto
termination
  by (relation "measure (\<lambda>(junk, secret, v, salt, passwd, n, len). len - n)") (auto simp: AUTH_PASS_LEN_def)

declare tpwencode_loop.simps [simp del]

text \<open>
  The buffer after the call and the new \<open>*pwlen\<close>. The local \<open>buffer\<close> holds the secret, a vector
  and the salt; a secret that overflows it, or a password buffer too small for the result and its
  final NUL, is \<open>None\<close>.
\<close>

definition rad_tunnel_pwencode ::
  "byte list \<Rightarrow> byte list \<Rightarrow> byte list \<Rightarrow> nat \<Rightarrow> byte list \<Rightarrow> byte list \<Rightarrow> (byte list \<times> nat) option" where
  "rad_tunnel_pwencode junk salt passwd pwlen secret vector =
     (let len0 = (if pwlen > 127 then 127 else pwlen);
          len1 = len0 + 1;
          k = (if len1 mod AUTH_PASS_LEN \<noteq> 0 then AUTH_PASS_LEN - len1 mod AUTH_PASS_LEN else 0);
          len = len1 + k;
          body = word_of_nat len0 # take len0 passwd @ replicate k 0 @ drop (2 + len) passwd;
          enc = tpwencode_loop junk secret vector salt body 0 len
      in if length secret + 16 + 2 > 16 + MAX_STRING_LEN + 3 \<or> length passwd \<le> 2 + len then None
         else Some (salt @ enc[len := 0], len + 2))"

section \<open>Decoding\<close>

text \<open>\<open>for (i = base; i < block_len; i++) passwd[n + i - 1] = passwd[n + i + 2] ^ digest[i]\<close>\<close>

definition shift_xor :: "byte list \<Rightarrow> nat \<Rightarrow> byte list \<Rightarrow> nat \<Rightarrow> nat \<Rightarrow> byte list" where
  "shift_xor passwd n digest base block_len =
     foldl (\<lambda>b i. b[n + i - 1 := b ! (n + i + 2) XOR digest ! i]) passwd [base..<block_len]"

function tdec_loop ::
  "md5ctx \<Rightarrow> md5ctx \<Rightarrow> byte list \<Rightarrow> nat \<Rightarrow> nat \<Rightarrow> nat \<Rightarrow> nat \<Rightarrow> (byte list \<times> nat) option" where
  "tdec_loop old context passwd n encrypted_len pwlen reallen =
     (if n < encrypted_len
      then let block_len = (if n + 2 + AUTH_PASS_LEN > pwlen then pwlen - n - 2 else AUTH_PASS_LEN);
               digest = fr_md5_final context
           in if n = 0
              then let reallen1 = unat (passwd ! 2 XOR digest ! 0)
                   in if reallen1 > encrypted_len then None
                      else tdec_loop old (fr_md5_update old (slice passwd 2 block_len))
                             (shift_xor passwd n digest 1 block_len) (n + AUTH_PASS_LEN) encrypted_len pwlen reallen1
              else tdec_loop old (fr_md5_update old (slice passwd (n + 2) block_len))
                     (shift_xor passwd n digest 0 block_len) (n + AUTH_PASS_LEN) encrypted_len pwlen reallen
      else Some (passwd, reallen))"
  by auto
termination
  by (relation "measure (\<lambda>(old, context, passwd, n, len, p, r). len - n)") (auto simp: AUTH_PASS_LEN_def)

declare tdec_loop.simps [simp del]

text \<open>\<open>Inl ()\<close> is the error -1, \<open>Inr\<close> the buffer and the new \<open>*pwlen\<close>, which is also returned.\<close>

definition rad_tunnel_pwdecode ::
  "byte list \<Rightarrow> byte list \<Rightarrow> nat \<Rightarrow> byte list \<Rightarrow> byte list \<Rightarrow> unit + (byte list \<times> nat)" where
  "rad_tunnel_pwdecode junk passwd pwlen secret vector =
     (if pwlen < 2 then Inl ()
      else if pwlen \<le> 3 then Inr (passwd[0 := 0], 0)
      else let encrypted_len = pwlen - 2;
               old = md5_secret junk secret;
               context = fr_md5_update (fr_md5_update old vector) (take 2 passwd)
           in case tdec_loop old context passwd 0 encrypted_len pwlen 0 of
                None \<Rightarrow> Inl ()
              | Some (passwd1, reallen) \<Rightarrow> Inr (passwd1[reallen := 0], reallen))"

section \<open>The loops compute the chained hiding\<close>

lemma shift_xor_nth:
  assumes "1 \<le> n + base" "base \<le> m" "n + m + 2 \<le> length b"
  shows "length (shift_xor b n d base m) = length b \<and>
    (\<forall>j < length b. shift_xor b n d base m ! j =
      (if n + base \<le> j + 1 \<and> j + 1 < n + m then b ! (j + 3) XOR d ! (j + 1 - n) else b ! j))"
  using assms(2,3)
proof (induction m)
  case 0
  then have "base = 0" by simp
  then show ?case by (auto simp: shift_xor_def)
next
  case (Suc m)
  show ?case
  proof (cases "base \<le> m")
    case False
    then have "base = Suc m" using Suc.prems by simp
    then show ?thesis by (auto simp: shift_xor_def)
  next
    case True
    have IH: "length (shift_xor b n d base m) = length b"
      "\<And>j. j < length b \<Longrightarrow> shift_xor b n d base m ! j =
        (if n + base \<le> j + 1 \<and> j + 1 < n + m then b ! (j + 3) XOR d ! (j + 1 - n) else b ! j)"
      using Suc True by auto
    have e: "shift_xor b n d base (Suc m) =
        (shift_xor b n d base m)[n + m - 1 := shift_xor b n d base m ! (n + m + 2) XOR d ! m]"
      using True by (simp add: shift_xor_def)
    have "shift_xor b n d base m ! (n + m + 2) = b ! (n + m + 2)" using IH(2) Suc.prems by simp
    then show ?thesis
      unfolding e using IH assms(1) True Suc.prems by (auto simp: nth_list_update)
  qed
qed

lemma nth_append_at: "j = length xs + k \<Longrightarrow> (xs @ ys) ! j = ys ! k"
  by simp

lemma shift_xor_eq:
  assumes "1 \<le> n + base" "base \<le> m" "m \<le> length d" "n + m + 2 \<le> length b"
  shows "shift_xor b n d base m =
    take (n + base - 1) b @ drop base (xor_bytes (slice b (n + 2) m) d) @ drop (n + m - 1) b"
  (is "_ = ?r")
proof -
  note s = shift_xor_nth [OF assms(1,2,4), of d]
  have l: "length (xor_bytes (slice b (n + 2) m) d) = m" using assms by (simp add: slice_def)
  have lr: "length ?r = length b" using l assms by simp
  show ?thesis
  proof (rule nth_equalityI)
    show "length (shift_xor b n d base m) = length ?r" using s lr by simp
    fix j assume j: "j < length (shift_xor b n d base m)"
    consider "j + 1 < n + base" | "n + base \<le> j + 1" "j + 1 < n + m" | "n + base \<le> j + 1" "n + m \<le> j + 1" by linarith
    then show "shift_xor b n d base m ! j = ?r ! j"
    proof cases
      case 1
      then show ?thesis using s j by (simp add: nth_append)
    next
      case 2
      let ?i = "j + 1 - n"
      have i: "?i < m" "base \<le> ?i" using 2 by auto
      have k: "j = length (take (n + base - 1) b) + (?i - base)" using 2 assms by simp
      have "?r ! j = (drop base (xor_bytes (slice b (n + 2) m) d) @ drop (n + m - 1) b) ! (?i - base)"
        by (rule nth_append_at [OF k])
      also have "\<dots> = drop base (xor_bytes (slice b (n + 2) m) d) ! (?i - base)"
        using i l by (subst nth_append_left) simp_all
      also have "\<dots> = xor_bytes (slice b (n + 2) m) d ! ?i"
        using l i le_add_diff_inverse [OF i(2)] by (metis less_imp_le nth_drop order_le_less_trans)
      also have "\<dots> = b ! (j + 3) XOR d ! ?i"
        using i l assms 2 by (subst xor_bytes_nth) (simp_all add: slice_def add.commute numeral_3_eq_3)
      finally show ?thesis using s j 2 by simp
    next
      case 3
      have k: "j = length (take (n + base - 1) b @ drop base (xor_bytes (slice b (n + 2) m) d)) + (j - (n + m - 1))"
        using 3 l assms by simp
      have "?r ! j = drop (n + m - 1) b ! (j - (n + m - 1))"
        using nth_append_at [OF k, of "drop (n + m - 1) b"] by simp
      also have "\<dots> = b ! j" using 3 assms s j by (subst nth_drop) simp_all
      finally show ?thesis using s j 3 by simp
    qed
  qed
qed

lemma shift_xor_parts:
  assumes "1 \<le> n + base" "base \<le> m" "m \<le> length d" "n + m + 2 \<le> length b"
  shows "take (n + m - 1) (shift_xor b n d base m) =
      take (n + base - 1) b @ drop base (xor_bytes (slice b (n + 2) m) d)"
    and "n + m - 1 \<le> k \<Longrightarrow> drop k (shift_xor b n d base m) = drop k b"
proof -
  define P where "P = take (n + base - 1) b @ drop base (xor_bytes (slice b (n + 2) m) d)"
  have l: "length P = n + m - 1" using assms by (simp add: P_def slice_def)
  have e: "shift_xor b n d base m = P @ drop (n + m - 1) b" using shift_xor_eq [OF assms] by (simp add: P_def)
  show "take (n + m - 1) (shift_xor b n d base m) = take (n + base - 1) b @ drop base (xor_bytes (slice b (n + 2) m) d)"
    unfolding P_def [symmetric] using l e by simp
  assume "n + m - 1 \<le> k"
  then obtain j where k: "k = n + m - 1 + j" using le_Suc_ex by blast
  show "drop k (shift_xor b n d base m) = drop k b" using l e k by (simp add: add.commute)
qed

text \<open>From the second block on the bytes move three places to the left as they are uncovered.\<close>

lemma tdec_loop_rest:
  assumes old: "md5_absorbed old S" "secret_ok S"
    and "n mod 16 = 0" "0 < n" "n < enc" "enc + 2 \<le> length b" "length prev \<le> 64"
  shows "tdec_loop old (fr_md5_update old prev) b n enc (enc + 2) r =
    Some (take (n - 1) b @ unhide md5 S prev (slice b (n + 2) (enc - n)) @ drop (enc - 1) b, r)"
  using assms(3-)
proof (induction "enc - n" arbitrary: b n prev rule: less_induct)
  case less
  let ?d = "md5 (S @ prev)" and ?m = "min 16 (enc - n)"
  let ?b = "shift_xor b n ?d 0 ?m" and ?c = "slice b (n + 2) ?m"
  have d: "fr_md5_final (fr_md5_update old prev) = ?d" using absorb_final [OF old less.prems(5)] .
  have m: "(if n + 2 + AUTH_PASS_LEN > enc + 2 then enc + 2 - n - 2 else AUTH_PASS_LEN) = ?m"
    using less.prems(3) by (auto simp: AUTH_PASS_LEN_def min_def)
  have run: "tdec_loop old (fr_md5_update old prev) b n enc (enc + 2) r =
      tdec_loop old (fr_md5_update old ?c) ?b (n + 16) enc (enc + 2) r"
    using less.prems(2,3) by (subst tdec_loop.simps) (simp only: Let_def d m, simp add: AUTH_PASS_LEN_def)
  have pre: "1 \<le> n + 0" "0 \<le> ?m" "?m \<le> length ?d" "n + ?m + 2 \<le> length b"
    using less.prems by (auto simp: min_def)
  note parts = shift_xor_parts [OF pre]
  have cl: "length ?c \<le> 64" by (simp add: slice_def)
  have ne: "slice b (n + 2) (enc - n) \<noteq> []" using less.prems by (simp add: slice_def)
  have t: "take 16 (slice b (n + 2) (enc - n)) = ?c" by (simp add: slice_parts)
  have u: "unhide md5 S prev (slice b (n + 2) (enc - n)) =
      xor_bytes ?c ?d @ unhide md5 S ?c (slice b (n + 2 + 16) (enc - n - 16))"
    unfolding unhide_step [OF ne] t slice_parts(2) ..
  show ?case
  proof (cases "n + 16 < enc")
    case False
    then have "?m = enc - n" "slice b (n + 2 + 16) (enc - n - 16) = []" by (simp_all add: slice_def)
    then show ?thesis
      using run False shift_xor_eq [OF pre] u less.prems(3) by (subst (asm) (2) tdec_loop.simps) simp
  next
    case True
    then have m16: "?m = 16" by simp
    have lb: "length ?b = length b" using shift_xor_nth [OF pre(1,2,4)] by simp
    have "tdec_loop old (fr_md5_update old ?c) ?b (n + 16) enc (enc + 2) r =
        Some (take (n + 16 - 1) ?b @ unhide md5 S ?c (slice ?b (n + 16 + 2) (enc - (n + 16))) @ drop (enc - 1) ?b, r)"
      by (rule less.hyps) (use True less.prems lb cl in simp_all)
    moreover have "take (n + 16 - 1) ?b = take (n - 1) b @ xor_bytes ?c ?d"
      using parts(1) m16 by simp
    moreover have "drop (enc - 1) ?b = drop (enc - 1) b" using parts(2) [of "enc - 1"] True m16 by simp
    moreover have "slice ?b (n + 16 + 2) (enc - (n + 16)) = slice b (n + 2 + 16) (enc - n - 16)"
      using parts(2) [of "n + 16 + 2"] m16 by (simp add: slice_def add.commute)
    ultimately show ?thesis using run u by simp
  qed
qed

lemma md5_absorbed_final: "md5_absorbed c x \<Longrightarrow> length x < hash_limit \<Longrightarrow> fr_md5_final c = md5 x"
  by (rule md5.fin_hash)

lemma tdec_loop_first:
  assumes old: "md5_absorbed old S" "secret_ok S" and cx: "md5_absorbed cx (S @ prev)" "length prev \<le> 64"
    and e: "2 \<le> enc" "enc + 2 \<le> length b"
  defines "X \<equiv> unhide md5 S prev (slice b 2 enc)"
  shows "tdec_loop old cx b 0 enc (enc + 2) 0 =
    (if unat (hd X) > enc then None else Some (tl X @ drop (enc - 1) b, unat (hd X)))"
proof -
  let ?d = "md5 (S @ prev)" and ?m = "min 16 enc"
  let ?b = "shift_xor b 0 ?d 1 ?m" and ?c = "slice b 2 ?m"
  have d: "fr_md5_final cx = ?d"
    using md5_absorbed_final [OF cx(1)] old(2) cx(2) by (simp add: secret_ok_def)
  have pre: "1 \<le> 0 + (1::nat)" "1 \<le> ?m" "?m \<le> length ?d" "0 + ?m + 2 \<le> length b"
    using e by auto
  note parts = shift_xor_parts [OF pre]
  have cl: "length ?c \<le> 64" by (simp add: slice_def)
  have ne: "slice b 2 enc \<noteq> []" using e by (simp add: slice_def)
  have X: "X = xor_bytes ?c ?d @ unhide md5 S ?c (slice b (2 + 16) (enc - 16))"
    unfolding X_def unhide_step [OF ne] by (simp add: slice_parts)
  have c0: "?c \<noteq> []" using e by (simp add: slice_def)
  have x0: "xor_bytes ?c ?d \<noteq> []" using c0 md5_length [of "S @ prev"] by (metis length_0_conv min_def xor_bytes_length zero_neq_numeral)
  have hd: "hd X = b ! 2 XOR ?d ! 0"
  proof -
    have "hd X = hd (xor_bytes ?c ?d)" using X x0 by simp
    also have "\<dots> = ?c ! 0 XOR ?d ! 0" using x0 c0 by (simp add: hd_conv_nth xor_bytes_nth)
    also have "?c ! 0 = b ! 2" using e by (simp add: slice_def)
    finally show ?thesis .
  qed
  have tlX: "tl X = drop 1 (xor_bytes ?c ?d) @ unhide md5 S ?c (slice b (2 + 16) (enc - 16))"
    unfolding X using x0 by (simp add: drop_Suc)
  have run: "tdec_loop old cx b 0 enc (enc + 2) 0 =
      (if unat (hd X) > enc then None
       else tdec_loop old (fr_md5_update old ?c) ?b 16 enc (enc + 2) (unat (hd X)))"
    using e d hd by (subst tdec_loop.simps) (auto simp: Let_def AUTH_PASS_LEN_def min_def)
  show ?thesis
  proof (cases "16 < enc")
    case False
    then have "?m = enc" "slice b (2 + 16) (enc - 16) = []" by (simp_all add: slice_def)
    moreover have "tdec_loop old (fr_md5_update old ?c) ?b 16 enc (enc + 2) r = Some (?b, r)" for r
      using False by (subst tdec_loop.simps) simp
    moreover have "?b = drop 1 (xor_bytes ?c ?d) @ drop (?m - 1) b" using shift_xor_eq [OF pre] by (simp add: numeral_2_eq_2)
    ultimately show ?thesis using run tlX by simp
  next
    case True
    then have m16: "?m = 16" by simp
    have lb: "length ?b = length b" using shift_xor_nth [OF pre(1,2,4)] by simp
    have "tdec_loop old (fr_md5_update old ?c) ?b 16 enc (enc + 2) r =
        Some (take (16 - 1) ?b @ unhide md5 S ?c (slice ?b (16 + 2) (enc - 16)) @ drop (enc - 1) ?b, r)" for r
      by (rule tdec_loop_rest) (use True e lb cl old in simp_all)
    moreover have "take (16 - 1) ?b = drop 1 (xor_bytes ?c ?d)" using parts(1) m16 by (simp add: numeral_2_eq_2)
    moreover have "drop (enc - 1) ?b = drop (enc - 1) b" using parts(2) [of "enc - 1"] True m16 by simp
    moreover have "slice ?b (16 + 2) (enc - 16) = slice b (2 + 16) (enc - 16)"
      using parts(2) [of "16 + 2"] m16 by (simp add: slice_def)
    ultimately show ?thesis using run tlX by simp
  qed
qed

text \<open>The encoders are the loop of \<open>RadPassword\<close> on the bytes after the salt.\<close>

lemma tpwencode_loop_eq:
  assumes "length junk = 64" "secret_ok secret" "length vector + length salt \<le> 64" "n mod 16 = 0"
  shows "tpwencode_loop junk secret vector salt b n len =
    pw_loop (md5_secret junk secret)
      (if n = 0 then fr_md5_update (md5_secret junk secret) (vector @ salt) else cx) b n len"
  using assms(4)
proof (induction "len - n" arbitrary: b n cx rule: less_induct)
  case less
  have calc: "fr_md5_calc junk (secret @ xs) = md5 (secret @ xs)" if "length xs \<le> 64" for xs
    using md5_absorbed_final [OF md5.upd_absorbed [OF md5_init_absorbed [OF assms(1)]], of "secret @ xs"]
      that assms(2) by (simp add: fr_md5_calc_def secret_ok_def)
  have fin: "fr_md5_final (fr_md5_update (md5_secret junk secret) xs) = md5 (secret @ xs)" if "length xs \<le> 64" for xs
    using absorb_final [OF md5_secret_absorbed [OF assms(1,2)] assms(2) that] .
  have sl: "length (slice b k AUTH_PASS_LEN) \<le> 64" for k by (simp add: slice_def AUTH_PASS_LEN_def)
  show ?case
  proof (cases "n < len")
    case False
    then show ?thesis by (subst tpwencode_loop.simps, subst pw_loop.simps) simp
  next
    case True
    let ?cx = "fr_md5_update (md5_secret junk secret) (slice b (n - AUTH_PASS_LEN) AUTH_PASS_LEN)"
    show ?thesis
    proof (cases "n = 0")
      case n0: True
      show ?thesis
        unfolding n0 if_True
        using less.hyps [of "0 + AUTH_PASS_LEN" _ "fr_md5_update (md5_secret junk secret) (vector @ salt)"]
          True n0 assms(3) calc [of "vector @ salt"] fin [of "vector @ salt"]
        by (subst tpwencode_loop.simps, subst pw_loop.simps) (simp add: Let_def AUTH_PASS_LEN_def)
    next
      case n1: False
      then show ?thesis
        using less.hyps [of "n + AUTH_PASS_LEN" _ ?cx]
          True less.prems calc [OF sl] fin [OF sl]
        by (subst tpwencode_loop.simps, subst pw_loop.simps) (simp add: Let_def AUTH_PASS_LEN_def)
    qed
  qed
qed

lemma xor_at_last:
  assumes "length b = n + m" "m \<le> length d"
  shows "xor_at b n (take m d) = take n b @ xor_bytes (drop n b) d"
proof -
  have "xor_bytes (drop n b) (take m d) = xor_bytes (drop n b) d"
    by (rule nth_equalityI) (use assms in \<open>simp_all add: xor_bytes_nth\<close>)
  then show ?thesis using assms by (simp add: xor_at_def)
qed

text \<open>The length of the block the loop of \<^verbatim>\<open>make_tunnel_passwd\<close> encrypts.\<close>

lemma tunnel_block_len:
  fixes n enc room :: nat
  assumes "n mod 16 = 0" "n < enc" "enc \<le> room - 2" "enc mod 16 = 0 \<or> enc = room - 2"
  shows "(if 2 + n + AUTH_PASS_LEN < room then AUTH_PASS_LEN else room - 2 - n) = min 16 (enc - n)"
proof (cases "enc = room - 2")
  case True
  then show ?thesis using assms(2) by (auto simp: AUTH_PASS_LEN_def min_def)
next
  case False
  then have "n + 16 \<le> enc" using aligned_step [OF assms(1) _ assms(2)] assms(4) by simp
  then show ?thesis using assms(3) False by (auto simp: AUTH_PASS_LEN_def)
qed

lemma tunnel_loop_hide:
  assumes old: "md5_absorbed old S" "secret_ok S"
    and "n mod 16 = 0" "n \<le> enc" "length b = enc + 2" "enc \<le> room - 2" "enc mod 16 = 0 \<or> enc = room - 2"
    and "length prev \<le> 64"
    and "if n = 0 then md5_absorbed cx (S @ prev) else prev = slice b (2 + n - 16) 16"
  shows "tunnel_loop old cx b n enc room = take (2 + n) b @ hide md5 S prev (drop (2 + n) b)"
  using assms(3-)
proof (induction "enc - n" arbitrary: cx b n prev rule: less_induct)
  case less
  show ?case
  proof (cases "n < enc")
    case False
    then show ?thesis using less.prems by (subst tunnel_loop.simps) simp
  next
    case True
    let ?d = "md5 (S @ prev)" and ?m = "min 16 (enc - n)"
    let ?cx = "if n > 0 then fr_md5_update old (slice b (2 + n - AUTH_PASS_LEN) AUTH_PASS_LEN) else cx"
    have d: "fr_md5_final ?cx = ?d"
    proof (cases "n = 0")
      case True
      then show ?thesis
        using md5_absorbed_final [of cx "S @ prev"] old(2) less.prems(6,7) by (simp add: secret_ok_def)
    next
      case False
      then show ?thesis using less.prems(7) absorb_final [OF old less.prems(6)] by (simp add: AUTH_PASS_LEN_def)
    qed
    have m: "(if 2 + n + AUTH_PASS_LEN < room then AUTH_PASS_LEN else room - 2 - n) = ?m"
      by (rule tunnel_block_len [OF less.prems(1) True less.prems(4,5)])
    let ?b = "xor_at b (2 + n) (take ?m ?d)"
    have run: "tunnel_loop old cx b n enc room = tunnel_loop old ?cx ?b (n + 16) enc room"
      using True by (subst tunnel_loop.simps) (simp only: Let_def d m, simp add: AUTH_PASS_LEN_def)
    have ne: "drop (2 + n) b \<noteq> []" using True less.prems(3) by simp
    note h = hide_step [OF ne, of md5 S prev]
    show ?thesis
    proof (cases "n + 16 < enc")
      case False
      then have e: "length (drop (2 + n) b) \<le> 16" "?m = length (drop (2 + n) b)" using less.prems(3) by auto
      have "xor_at b (2 + n) (take ?m ?d) = take (2 + n) b @ xor_bytes (drop (2 + n) b) ?d"
        by (rule xor_at_last) (use e less.prems(3) True in auto)
      then have "?b = take (2 + n) b @ hide md5 S prev (drop (2 + n) b)"
        using h e by simp
      moreover have "tunnel_loop old ?cx ?b (n + 16) enc room = ?b"
        using False by (subst tunnel_loop.simps) simp
      ultimately show ?thesis using run by simp
    next
      case n16: True
      then have m16: "take ?m ?d = ?d" by simp
      have nb: "2 + n + 16 \<le> length b" using n16 less.prems(3) by simp
      note parts = xor_at_parts [OF nb md5_length [of "S @ prev"]]
      let ?c = "xor_bytes (take 16 (drop (2 + n) b)) ?d"
      have "tunnel_loop old ?cx ?b (n + 16) enc room =
          take (2 + (n + 16)) ?b @ hide md5 S ?c (drop (2 + (n + 16)) ?b)"
        unfolding m16 by (rule less.hyps) (use n16 less.prems parts nb in \<open>simp_all add: AUTH_PASS_LEN_def\<close>)
      then show ?thesis using run h parts m16 by (simp add: add.commute add.left_commute)
    qed
  qed
qed

lemma salt_absorbed:
  assumes "length junk = 64" "secret_ok secret" "length vector + length salt \<le> 64"
  shows "md5_absorbed (fr_md5_update (fr_md5_update (md5_secret junk secret) vector) salt) (secret @ (vector @ salt))"
proof -
  have "md5_absorbed (fr_md5_update (md5_secret junk secret) vector) (secret @ vector)"
    using assms by (intro md5.upd_absorbed md5_secret_absorbed) (simp_all add: secret_ok_def)
  from md5.upd_absorbed [OF this, of salt] show ?thesis using assms by (simp add: secret_ok_def)
qed

text \<open>The clear text of the attribute: the length, the password, padding.\<close>

definition tunnel_plain :: "byte list \<Rightarrow> nat \<Rightarrow> byte list" where
  "tunnel_plain p k = word_of_nat (length p) # p @ replicate k 0"

lemma make_tunnel_passwd_hide:
  assumes "length junk = 64" "secret_ok secret" "length vector = 16" "length salt = 2" "3 \<le> room"
  shows "\<exists>k. make_tunnel_passwd junk salt inp room secret vector =
    Some (salt @ hide md5 secret (vector @ salt) (tunnel_plain (take (min room 253 - 3) inp) k))"
proof -
  define r where "r = (if room > 253 then 253 else room)"
  define l where "l = (if length inp > r - 3 then r - 3 else length inp)"
  define l2 where "l2 = (if (l + 1) mod 16 \<noteq> 0 then (l + 1 + 15) div 16 * 16 else l + 1)"
  define e where "e = (if l2 > r - 2 then r - 2 else l2)"
  define out where "out = salt @ word_of_nat l # take l inp @ replicate (e + 2 - 3 - l) 0"
  have r: "r = min room 253" "3 \<le> r" using assms(5) by (simp_all add: r_def)
  have l: "take l inp = take (r - 3) inp" "l \<le> length inp" "l + 3 \<le> r" using r(2) by (auto simp: l_def)
  have l2: "l + 1 \<le> l2" "l2 mod 16 = 0"
    using round16_props(1) [of "l + 1"] by (simp_all add: l2_def round16_def)
  have e: "l + 1 \<le> e" "e \<le> r - 2" "e mod 16 = 0 \<or> e = r - 2" using l l2 by (auto simp: e_def)
  have lo: "length out = e + 2" using e(1) l(2) assms(4) by (simp add: out_def)
  have "length (vector @ salt) \<le> 64" "take 2 out = salt" using assms by (simp_all add: out_def)
  then have "tunnel_loop (md5_secret junk secret)
      (fr_md5_update (fr_md5_update (md5_secret junk secret) vector) (take 2 out)) out 0 e r =
      take (2 + 0) out @ hide md5 secret (vector @ salt) (drop (2 + 0) out)"
    using e lo salt_absorbed [OF assms(1,2), of vector salt] assms
    by (intro tunnel_loop_hide md5_secret_absorbed) auto
  also have "\<dots> = salt @ hide md5 secret (vector @ salt) (tunnel_plain (take (min room 253 - 3) inp) (e + 2 - 3 - l))"
    using l assms(4) unfolding r(1) [symmetric] l(1) [symmetric] by (simp add: out_def tunnel_plain_def)
  finally show ?thesis
    unfolding make_tunnel_passwd_def Let_def r_def [symmetric] l_def [symmetric] l2_def [symmetric]
      e_def [symmetric] out_def [symmetric]
    using r(2) by auto
qed

lemma tunnel_pwencode_hide:
  assumes "rad_tunnel_pwencode junk salt passwd pwlen secret vector = Some (b, n)" "pwlen \<le> length passwd"
    and "length junk = 64" "length vector = 16" "length salt = 2"
  shows "\<exists>k rest. b = salt @ hide md5 secret (vector @ salt) (tunnel_plain (take 127 (take pwlen passwd)) k) @ 0 # rest \<and>
    n = 3 + min pwlen 127 + k \<and> secret_ok secret"
proof -
  define l where "l = (if pwlen > 127 then 127 else pwlen)"
  define k where "k = (if (l + 1) mod AUTH_PASS_LEN \<noteq> 0 then AUTH_PASS_LEN - (l + 1) mod AUTH_PASS_LEN else 0)"
  define len where "len = l + 1 + k"
  define body where "body = word_of_nat l # take l passwd @ replicate k 0 @ drop (2 + len) passwd"
  have l: "l = min pwlen 127" "l \<le> length passwd" using assms(2) by (simp_all add: l_def)
  have pl: "take l passwd = take 127 (take pwlen passwd)" using l(1) by (simp add: min.commute)
  define enc where "enc = tpwencode_loop junk secret vector salt body 0 len"
  have a: "length secret \<le> 255" "2 + len < length passwd" "b = salt @ enc[len := 0]" "n = len + 2"
    using assms(1)
    unfolding rad_tunnel_pwencode_def Let_def l_def [symmetric] k_def [symmetric] len_def [symmetric]
      body_def [symmetric] enc_def [symmetric]
    by (auto split: if_splits simp: MAX_STRING_LEN_def)
  have ok: "secret_ok secret" using a(1) by (simp add: secret_ok_def hash_limit_def)
  have len16: "len mod 16 = 0"
  proof (cases "(l + 1) mod 16 = 0")
    case False
    have "(l + 1 + (16 - (l + 1) mod 16)) mod 16 = 0" by presburger
    then show ?thesis using False by (simp add: len_def k_def AUTH_PASS_LEN_def)
  qed (simp add: len_def k_def AUTH_PASS_LEN_def)
  have tb: "take len body = tunnel_plain (take 127 (take pwlen passwd)) k"
    using l(2) unfolding pl [symmetric] by (simp add: body_def tunnel_plain_def len_def)
  have lb: "len < length body" using l a(2) by (simp add: body_def len_def)
  have "enc = pw_loop (md5_secret junk secret) (fr_md5_update (md5_secret junk secret) (vector @ salt)) body 0 len"
    unfolding enc_def using tpwencode_loop_eq [OF assms(3) ok, of vector salt 0] assms(4,5) by simp
  also have "\<dots> = take 0 body @ hide md5 secret (vector @ salt) (take (len - 0) (drop 0 body)) @ drop len body"
    using len16 lb ok assms by (intro pw_loop_hide md5_secret_absorbed) auto
  finally have enc: "enc = hide md5 secret (vector @ salt) (take len body) @ drop len body" by simp
  have "length (hide md5 secret (vector @ salt) (take len body)) = len" using lb by (simp add: rad.hide_length)
  moreover obtain y rest where "drop len body = y # rest" using lb by (cases "drop len body") auto
  ultimately have "enc[len := 0] = hide md5 secret (vector @ salt) (take len body) @ 0 # rest"
    using enc by (simp add: list_update_append)
  moreover have "n = 3 + min pwlen 127 + k" using a(4) l(1) by (simp add: len_def)
  ultimately show ?thesis using a(3) ok tb by auto
qed

lemma tunnel_pwdecode_unhide:
  assumes "length junk = 64" "secret_ok secret" "length vector = 16" "3 < pwlen" "pwlen \<le> length b"
  defines "X \<equiv> unhide md5 secret (vector @ take 2 b) (slice b 2 (pwlen - 2))"
  shows "rad_tunnel_pwdecode junk b pwlen secret vector =
    (if unat (hd X) > pwlen - 2 then Inl ()
     else Inr ((tl X @ drop (pwlen - 3) b)[unat (hd X) := 0], unat (hd X)))"
proof -
  have p: "pwlen - 2 + 2 = pwlen" "pwlen - 2 - 1 = pwlen - 3" using assms(4) by simp_all
  have "tdec_loop (md5_secret junk secret)
      (fr_md5_update (fr_md5_update (md5_secret junk secret) vector) (take 2 b)) b 0 (pwlen - 2) (pwlen - 2 + 2) 0 =
      (if unat (hd X) > pwlen - 2 then None else Some (tl X @ drop (pwlen - 2 - 1) b, unat (hd X)))"
    unfolding X_def using assms(1-5) p
    by (intro tdec_loop_first salt_absorbed md5_secret_absorbed) simp_all
  then show ?thesis using assms(4) unfolding p by (simp add: rad_tunnel_pwdecode_def Let_def)
qed

lemma unhide_length: "length (unhide md5 S prev c) = length c"
proof (induction c arbitrary: prev rule: length_induct)
  case (1 c)
  then show ?case by (cases "c = []") (simp_all add: unhide_step)
qed

section \<open>Properties of Tunnel-Password\<close>

lemma tunnel_decode_hidden:
  assumes "length junk = 64" "secret_ok secret" "length vector = 16" "length salt = 2" "length p < 256"
    and b: "b = salt @ hide md5 secret (vector @ salt) (tunnel_plain p k) @ rest"
  shows "\<exists>b'. rad_tunnel_pwdecode junk b (3 + length p + k) secret vector = Inr (b', length p) \<and>
    take (length p) b' = p"
proof (cases "length p + k = 0")
  case True
  then show ?thesis by (simp add: rad_tunnel_pwdecode_def)
next
  case False
  let ?h = "hide md5 secret (vector @ salt) (tunnel_plain p k)"
  have hl: "length ?h = Suc (length p + k)" by (simp add: rad.hide_length tunnel_plain_def)
  have "3 < 3 + length p + k" "3 + length p + k \<le> length b" using False hl assms(4) b by simp_all
  note dec = tunnel_pwdecode_unhide [OF assms(1-3) this]
  have s: "take 2 b = salt" "slice b 2 (3 + length p + k - 2) = ?h" using b assms(4) hl by (simp_all add: slice_def)
  have X: "unhide md5 secret (vector @ take 2 b) (slice b 2 (3 + length p + k - 2)) = tunnel_plain p k"
    unfolding s by (rule rad.unhide_hide)
  have u: "unat (hd (tunnel_plain p k)) = length p"
    using assms(5) by (simp add: tunnel_plain_def unat_of_nat take_bit_nat_eq_self)
  show ?thesis
    using dec unfolding X u by (simp add: tunnel_plain_def take_update_cancel)
qed

text \<open>
  C23: what either encoder of Tunnel-Password produces, the decoder of a peer with the same secret
  turns back into the password, cut to \<open>room - 3\<close> (at most 250) and 127 bytes respectively, and its
  exact length, zero bytes included. The bytes behind the attribute do not matter.
\<close>

theorem tunnel_roundtrip:
  assumes "length junk = 64" "length junk' = 64" "secret_ok secret" "length vector = 16" "length salt = 2"
    and "3 \<le> room" "pwlen \<le> length passwd"
    and "rad_tunnel_pwencode junk salt passwd pwlen secret vector = Some (b, n)"
  shows "(\<exists>out b'. make_tunnel_passwd junk salt inp room secret vector = Some out \<and>
      rad_tunnel_pwdecode junk' (out @ rest) (length out) secret vector =
        Inr (b', min (length inp) (min room 253 - 3)) \<and>
      take (min (length inp) (min room 253 - 3)) b' = take (min room 253 - 3) inp) \<and>
    (\<exists>b'. rad_tunnel_pwdecode junk' b n secret vector = Inr (b', min pwlen 127) \<and>
      take (min pwlen 127) b' = take (min pwlen 127) passwd)"
proof
  let ?p = "take (min room 253 - 3) inp"
  obtain k where m: "make_tunnel_passwd junk salt inp room secret vector =
      Some (salt @ hide md5 secret (vector @ salt) (tunnel_plain ?p k))"
    using make_tunnel_passwd_hide [OF assms(1,3-6), of inp] by blast
  let ?out = "salt @ hide md5 secret (vector @ salt) (tunnel_plain ?p k)"
  have l: "length ?p = min (length inp) (min room 253 - 3)" "length ?p < 256" by simp_all
  have "length ?out = 3 + length ?p + k" using assms(5) by (simp add: rad.hide_length tunnel_plain_def)
  then have "\<exists>b'. rad_tunnel_pwdecode junk' (?out @ rest) (length ?out) secret vector =
      Inr (b', min (length inp) (min room 253 - 3)) \<and> take (min (length inp) (min room 253 - 3)) b' = ?p"
    using tunnel_decode_hidden [OF assms(2-5) l(2), of "?out @ rest" k rest] l(1) by simp
  then show "\<exists>out b'. make_tunnel_passwd junk salt inp room secret vector = Some out \<and>
      rad_tunnel_pwdecode junk' (out @ rest) (length out) secret vector =
        Inr (b', min (length inp) (min room 253 - 3)) \<and>
      take (min (length inp) (min room 253 - 3)) b' = ?p"
    using m by blast
next
  let ?p = "take 127 (take pwlen passwd)"
  obtain k rest where e: "b = salt @ hide md5 secret (vector @ salt) (tunnel_plain ?p k) @ 0 # rest"
    "n = 3 + min pwlen 127 + k"
    using tunnel_pwencode_hide [OF assms(8,7,1,4,5)] by blast
  have l: "length ?p = min pwlen 127" "length ?p < 256" using assms(7) by simp_all
  show "\<exists>b'. rad_tunnel_pwdecode junk' b n secret vector = Inr (b', min pwlen 127) \<and>
      take (min pwlen 127) b' = take (min pwlen 127) passwd"
    using tunnel_decode_hidden [OF assms(2-5) l(2) e(1)] l(1) e(2) by (simp add: min.commute)
qed

lemma tunnel_pwencode_runs:
  assumes "length secret \<le> 255" "34 < length passwd"
  shows "\<exists>r. rad_tunnel_pwencode junk salt passwd 20 secret vector = Some r"
  using assms by (simp add: rad_tunnel_pwencode_def Let_def AUTH_PASS_LEN_def MAX_STRING_LEN_def)

theorem tunnel_roundtrip_witness:
  "\<exists>out b'. make_tunnel_passwd (replicate 64 0) [0x80, 7] [1, 0, 2] 19 [1, 2, 3] demo_vector = Some out \<and>
     rad_tunnel_pwdecode (replicate 64 5) (out @ [9, 9]) (length out) [1, 2, 3] demo_vector = Inr (b', 3) \<and>
     take 3 b' = [1, 0, (2::byte)]"
proof -
  obtain b n where e: "rad_tunnel_pwencode (replicate 64 0) [0x80, 7] (replicate 40 6) 20 [1, 2, 3] demo_vector = Some (b, n)"
    using tunnel_pwencode_runs [of "[1, 2, 3]" "replicate 40 6" "replicate 64 0" "[0x80, 7]" demo_vector] by auto
  show ?thesis
    using tunnel_roundtrip [of "replicate 64 0" "replicate 64 5", OF _ _ _ _ _ _ _ e, of 19 "[1, 0, 2]" "[9, 9]"]
    by (simp add: secret_ok_def hash_limit_def demo_vector_def numeral_3_eq_3)
qed

text \<open>
  C35: \<^verbatim>\<open>rad_tunnel_pwdecode\<close> on any attribute. Less than a salt is an error, a salt and at most the
  length octet an empty password; otherwise the attribute is uncovered with the secret, its first
  octet is the length \<open>r\<close>, and what follows is moved to the front of the buffer. The length is
  refused when it exceeds the \<open>e\<close> uncovered octets, although only \<open>e - 1\<close> octets follow it: with \<open>r = e\<close>
  the last octet of the returned password is one of the attribute as received.
\<close>

theorem tunnel_pwdecode_exact:
  assumes "length junk = 64" "secret_ok secret" "length vector = 16" "pwlen \<le> length b"
  defines "e \<equiv> pwlen - 2"
    and "X \<equiv> unhide md5 secret (vector @ take 2 b) (slice b 2 (pwlen - 2))"
  shows "(pwlen < 2 \<longrightarrow> rad_tunnel_pwdecode junk b pwlen secret vector = Inl ()) \<and>
    (pwlen = 2 \<or> pwlen = 3 \<longrightarrow> rad_tunnel_pwdecode junk b pwlen secret vector = Inr (b[0 := 0], 0)) \<and>
    (3 < pwlen \<and> e < unat (hd X) \<longrightarrow> rad_tunnel_pwdecode junk b pwlen secret vector = Inl ()) \<and>
    (3 < pwlen \<and> unat (hd X) \<le> e \<longrightarrow>
      (\<exists>b'. rad_tunnel_pwdecode junk b pwlen secret vector = Inr (b', unat (hd X)) \<and> length b' = length b \<and>
        take (unat (hd X)) b' = (if unat (hd X) = e then tl X @ [b ! (e - 1)] else take (unat (hd X)) (tl X))))"
proof -
  have "\<exists>b'. rad_tunnel_pwdecode junk b pwlen secret vector = Inr (b', unat (hd X)) \<and> length b' = length b \<and>
      take (unat (hd X)) b' = (if unat (hd X) = e then tl X @ [b ! (e - 1)] else take (unat (hd X)) (tl X))"
    if l: "3 < pwlen" "unat (hd X) \<le> e"
  proof (rule exI, intro conjI)
    let ?b = "(tl X @ drop (pwlen - 3) b)[unat (hd X) := 0]"
    show "rad_tunnel_pwdecode junk b pwlen secret vector = Inr (?b, unat (hd X))"
      using tunnel_pwdecode_unhide [OF assms(1-3) l(1) assms(4)] l(2) unfolding e_def X_def by simp
    have lX: "length (tl X) = e - 1"
      using assms(4) l(1) unhide_length [of secret "vector @ take 2 b" "slice b 2 (pwlen - 2)"]
      by (simp add: X_def e_def slice_def)
    have k: "pwlen - 3 = e - 1" "e - 1 < length b" "0 < e" using l(1) assms(4) by (simp_all add: e_def)
    show "length ?b = length b" using lX k by simp
    obtain rest where d: "drop (e - 1) b = b ! (e - 1) # rest" using k(2) by (metis Cons_nth_drop_Suc)
    have "take (unat (hd X)) ?b = take (unat (hd X)) (tl X @ b ! (e - 1) # rest)"
      unfolding k(1) d by (simp add: take_update_cancel)
    also have "\<dots> = (if unat (hd X) = e then tl X @ [b ! (e - 1)] else take (unat (hd X)) (tl X))"
      using lX k(3) l(2) by (simp add: take_Cons')
    finally show "take (unat (hd X)) ?b = (if unat (hd X) = e then tl X @ [b ! (e - 1)] else take (unat (hd X)) (tl X))" .
  qed
  moreover have "rad_tunnel_pwdecode junk b pwlen secret vector = Inl ()" if "3 < pwlen" "e < unat (hd X)"
    using tunnel_pwdecode_unhide [OF assms(1-3) that(1) assms(4)] that(2) unfolding e_def X_def by simp
  moreover have "pwlen < 2 \<longrightarrow> rad_tunnel_pwdecode junk b pwlen secret vector = Inl ()"
    "pwlen = 2 \<or> pwlen = 3 \<longrightarrow> rad_tunnel_pwdecode junk b pwlen secret vector = Inr (b[0 := 0], 0)"
    by (auto simp: rad_tunnel_pwdecode_def)
  ultimately show ?thesis by blast
qed

theorem tunnel_pwdecode_exact_witness:
  "\<exists>b b'. rad_tunnel_pwdecode (replicate 64 0) b 8 [1, 2, 3] demo_vector = Inr (b', 6) \<and>
     take 6 b' = [1, 2, 3, 4, 5] @ [b ! (5::nat)]"
proof -
  let ?h = "hide md5 [1, 2, 3] (demo_vector @ [0x80, 7]) [6, 1, 2, 3, 4, 5]"
  let ?b = "[0x80, 7] @ ?h"
  have l: "length ?h = 6" by (simp add: rad.hide_length)
  then have s: "take 2 ?b = [0x80, 7]" "slice ?b 2 (8 - 2) = ?h" by (simp_all add: slice_def)
  have "unhide md5 [1, 2, 3] (demo_vector @ take 2 ?b) (slice ?b 2 (8 - 2)) = [6, 1, 2, 3, 4, 5]"
    unfolding s by (rule rad.unhide_hide)
  then have "\<exists>b'. rad_tunnel_pwdecode (replicate 64 0) ?b 8 [1, 2, 3] demo_vector = Inr (b', 6) \<and>
      length b' = 8 \<and> take 6 b' = [1, 2, 3, 4, 5] @ [?b ! 5]"
    using tunnel_pwdecode_exact [of "replicate 64 0" "[1, 2, 3]" demo_vector 8 ?b] l
    by (simp add: secret_ok_def hash_limit_def demo_vector_def)
  then show ?thesis by blast
qed

end
