(* ===== verification/Hmac.thy ===== *)
theory Hmac
  imports Md5
begin

text \<open>
  The keyed digest \<^verbatim>\<open>fr_hmac_md5\<close> of \<^verbatim>\<open>lib/hmacmd5.c\<close> (the internal implementation) and
  its specification, RFC 2104, over any digest.
\<close>

section \<open>RFC 2104\<close>

definition hmac_key :: "(byte list \<Rightarrow> byte list) \<Rightarrow> byte list \<Rightarrow> byte list" where
  "hmac_key H key =
     (let k = (if length key > 64 then H key else key) in k @ replicate (64 - length k) 0)"

definition hmac :: "(byte list \<Rightarrow> byte list) \<Rightarrow> byte list \<Rightarrow> byte list \<Rightarrow> byte list" where
  "hmac H key text =
     (let k = hmac_key H key
      in H (map (\<lambda>b. b XOR 0x5c) k @ H (map (\<lambda>b. b XOR 0x36) k @ text)))"

section \<open>The code\<close>

text \<open>The 64 bytes used of \<open>k_ipad\<close> and \<open>k_opad\<close>: cleared, then the key, then each combined with \<open>c\<close>.\<close>

definition hmac_pad :: "byte list \<Rightarrow> byte \<Rightarrow> byte list" where
  "hmac_pad key c = map (\<lambda>b. b XOR c) (take 64 (memcpy_at (replicate 65 0) 0 key))"

definition fr_hmac_md5 :: "byte list \<Rightarrow> byte list \<Rightarrow> byte list \<Rightarrow> byte list" where
  "fr_hmac_md5 junk text key =
     (let key1 = (if length key > 64 then fr_md5_final (fr_md5_update (fr_md5_init junk) key) else key);
          k_ipad = hmac_pad key1 0x36;
          k_opad = hmac_pad key1 0x5c;
          digest = fr_md5_final (fr_md5_update (fr_md5_update (fr_md5_init junk) k_ipad) text)
      in fr_md5_final (fr_md5_update (fr_md5_update (fr_md5_init junk) k_opad) digest))"

lemma hmac_pad_eq:
  "length k \<le> 64 \<Longrightarrow> hmac_pad k c = map (\<lambda>b. b XOR c) (k @ replicate (64 - length k) 0)"
  by (simp add: hmac_pad_def memcpy_at_def)

text \<open>Two updates of any fresh context, whatever its buffer held.\<close>

lemma md5_two:
  assumes "length junk = 64" "length xs + length ys < hash_limit"
  shows "fr_md5_final (fr_md5_update (fr_md5_update (fr_md5_init junk) xs) ys) = md5 (xs @ ys)"
  using md5.foldl_absorbed [OF md5_init_absorbed [OF assms(1)], of "[xs, ys]"]
    md5.fin_hash [of _ "xs @ ys"] assms(2) by simp

lemma md5_one:
  assumes "length junk = 64" "length xs < hash_limit"
  shows "fr_md5_final (fr_md5_update (fr_md5_init junk) xs) = md5 xs"
  using md5.foldl_absorbed [OF md5_init_absorbed [OF assms(1)], of "[xs]"]
    md5.fin_hash [of _ xs] assms(2) by simp

lemma fr_hmac_md5_eq:
  assumes "length junk = 64" "length key < hash_limit" "length text + 64 < hash_limit"
  shows "fr_hmac_md5 junk text key = hmac md5 key text"
proof -
  define k where "k = (if length key > 64 then md5 key else key)"
  have k: "length k \<le> 64" by (simp add: k_def md5.hash_length)
  have k1: "(if length key > 64 then fr_md5_final (fr_md5_update (fr_md5_init junk) key) else key) = k"
    using md5_one [OF assms(1,2)] by (simp add: k_def)
  have kk: "hmac_key md5 key = k @ replicate (64 - length k) 0" by (simp add: hmac_key_def k_def Let_def)
  have l: "length (hmac_pad k c) = 64" for c using k by (simp add: hmac_pad_eq)
  have inner: "fr_md5_final (fr_md5_update (fr_md5_update (fr_md5_init junk) (hmac_pad k 0x36)) text) =
      md5 (hmac_pad k 0x36 @ text)"
    using assms l by (intro md5_two) simp_all
  have "fr_hmac_md5 junk text key = md5 (hmac_pad k 0x5c @ md5 (hmac_pad k 0x36 @ text))"
    unfolding fr_hmac_md5_def Let_def k1 inner using assms(1) l
    by (intro md5_two) (simp_all add: md5.hash_length hash_limit_def)
  then show ?thesis by (simp add: hmac_def kk hmac_pad_eq [OF k] Let_def)
qed

section \<open>Properties\<close>

text \<open>
  C26: \<^verbatim>\<open>fr_hmac_md5\<close> is the HMAC of RFC 2104 over the MD5 of RFC 1321, for every key (a long
  one is digested first) and every text shorter than the limit of the MD5 contexts, whatever the
  uninitialised buffers of its contexts hold.
\<close>

theorem hmac_md5_rfc2104:
  assumes "length junk = 64" "length key < hash_limit" "length text + 64 < hash_limit"
  shows "fr_hmac_md5 junk text key = hmac md5 key text \<and> length (fr_hmac_md5 junk text key) = 16"
  using fr_hmac_md5_eq [OF assms] by (simp add: hmac_def Let_def md5.hash_length)

theorem hmac_md5_rfc2104_witness:
  "fr_hmac_md5 (replicate 64 3) [1, 2] (replicate 80 7) = hmac md5 (md5 (replicate 80 7)) [1, 2]"
  using hmac_md5_rfc2104 [of "replicate 64 3" "replicate 80 7" "[1, 2]"]
  by (simp add: hash_limit_def hmac_def hmac_key_def md5.hash_length)

end
