(* ===== verification/RadPacket.thy ===== *)
theory RadPacket
  imports Hmac
begin

text \<open>
  Checking of received packets, \<^verbatim>\<open>rad_packet_ok\<close> of \<^verbatim>\<open>lib/radius.c\<close>. A \<open>radius_packet\<close> holds the fields of \<^verbatim>\<open>RADIUS_PACKET\<close> the code uses;
  \<open>r_data\<close> is the allocated buffer, of which the first \<open>r_data_len\<close> bytes are the packet. Reading
  or writing outside the buffer, or a NULL buffer, is \<open>None\<close>. The attribute numbers are those of the
  dictionaries; \<open>fr_max_attributes\<close> is an argument.
\<close>

section \<open>Packets\<close>

record radius_packet =
  r_code :: nat
  r_id :: int
  r_vector :: "byte list"
  r_data :: "byte list option"
  r_data_len :: nat
  r_offset :: int

datatype decode_fail_t =
    DECODE_FAIL_NONE
  | DECODE_FAIL_MIN_LENGTH_PACKET
  | DECODE_FAIL_MIN_LENGTH_FIELD
  | DECODE_FAIL_MIN_LENGTH_MISMATCH
  | DECODE_FAIL_HEADER_OVERFLOW
  | DECODE_FAIL_UNKNOWN_PACKET_CODE
  | DECODE_FAIL_INVALID_ATTRIBUTE
  | DECODE_FAIL_ATTRIBUTE_TOO_SHORT
  | DECODE_FAIL_ATTRIBUTE_OVERFLOW
  | DECODE_FAIL_MA_INVALID_LENGTH
  | DECODE_FAIL_ATTRIBUTE_UNDERFLOW
  | DECODE_FAIL_TOO_MANY_ATTRIBUTES
  | DECODE_FAIL_MA_MISSING
  | DECODE_FAIL_TOO_MANY_AUTH

definition RADIUS_HDR_LEN :: nat where "RADIUS_HDR_LEN = 20"
definition AUTH_VECTOR_LEN :: nat where "AUTH_VECTOR_LEN = 16"
definition FR_MAX_PACKET_CODE :: nat where "FR_MAX_PACKET_CODE = 52"

abbreviation PW_CODE_ACCESS_REQUEST :: nat where "PW_CODE_ACCESS_REQUEST \<equiv> 1"
abbreviation PW_CODE_ACCESS_ACCEPT :: nat where "PW_CODE_ACCESS_ACCEPT \<equiv> 2"
abbreviation PW_CODE_ACCESS_REJECT :: nat where "PW_CODE_ACCESS_REJECT \<equiv> 3"
abbreviation PW_CODE_ACCOUNTING_REQUEST :: nat where "PW_CODE_ACCOUNTING_REQUEST \<equiv> 4"
abbreviation PW_CODE_ACCOUNTING_RESPONSE :: nat where "PW_CODE_ACCOUNTING_RESPONSE \<equiv> 5"
abbreviation PW_CODE_ACCESS_CHALLENGE :: nat where "PW_CODE_ACCESS_CHALLENGE \<equiv> 11"
abbreviation PW_CODE_STATUS_SERVER :: nat where "PW_CODE_STATUS_SERVER \<equiv> 12"
abbreviation PW_CODE_DISCONNECT_REQUEST :: nat where "PW_CODE_DISCONNECT_REQUEST \<equiv> 40"
abbreviation PW_CODE_DISCONNECT_ACK :: nat where "PW_CODE_DISCONNECT_ACK \<equiv> 41"
abbreviation PW_CODE_DISCONNECT_NAK :: nat where "PW_CODE_DISCONNECT_NAK \<equiv> 42"
abbreviation PW_CODE_COA_REQUEST :: nat where "PW_CODE_COA_REQUEST \<equiv> 43"
abbreviation PW_CODE_COA_ACK :: nat where "PW_CODE_COA_ACK \<equiv> 44"
abbreviation PW_CODE_COA_NAK :: nat where "PW_CODE_COA_NAK \<equiv> 45"

definition PW_USER_PASSWORD :: byte where "PW_USER_PASSWORD = 2"
definition PW_CHAP_PASSWORD :: byte where "PW_CHAP_PASSWORD = 3"
definition PW_ARAP_PASSWORD :: byte where "PW_ARAP_PASSWORD = 70"
definition PW_EAP_MESSAGE :: byte where "PW_EAP_MESSAGE = 79"
definition PW_MESSAGE_AUTHENTICATOR :: byte where "PW_MESSAGE_AUTHENTICATOR = 80"

text \<open>\<open>(data[2] << 8) | data[3]\<close>\<close>

definition packet_totallen :: "byte list \<Rightarrow> nat" where
  "packet_totallen b = push_bit 8 (unat (b ! 2)) OR unat (b ! 3)"

section \<open>rad_packet_ok\<close>

text \<open>The checks of the header, and the buffer and packet once the padding is cut off.\<close>

definition packet_header :: "radius_packet \<Rightarrow> byte list \<Rightarrow> decode_fail_t + (nat \<times> byte list \<times> radius_packet)" where
  "packet_header packet b =
     (let totallen = packet_totallen b;
          code = unat (b ! 0)
      in if code = 0 \<or> code \<ge> FR_MAX_PACKET_CODE then Inl DECODE_FAIL_UNKNOWN_PACKET_CODE
         else if totallen < RADIUS_HDR_LEN then Inl DECODE_FAIL_MIN_LENGTH_FIELD
         else if r_data_len packet < totallen then Inl DECODE_FAIL_MIN_LENGTH_MISMATCH
         else if r_data_len packet > totallen
         then let b1 = memcpy_at b totallen (replicate (r_data_len packet - totallen) 0)
              in Inr (totallen, b1, packet\<lparr>r_data := Some b1, r_data_len := totallen\<rparr>)
         else Inr (totallen, b, packet))"

text \<open>What the walk over the attributes has seen.\<close>

record attr_state =
  require_ma :: bool
  seen_ma :: bool
  eap :: bool
  non_eap :: bool
  num_attributes :: nat

definition attr_switch :: "byte \<Rightarrow> byte \<Rightarrow> attr_state \<Rightarrow> decode_fail_t + attr_state" where
  "attr_switch t len st =
     (if t = PW_EAP_MESSAGE then Inr (st\<lparr>require_ma := True, eap := True\<rparr>)
      else if t = PW_USER_PASSWORD \<or> t = PW_CHAP_PASSWORD \<or> t = PW_ARAP_PASSWORD then Inr (st\<lparr>non_eap := True\<rparr>)
      else if t = PW_MESSAGE_AUTHENTICATOR
      then if unat len \<noteq> 2 + AUTH_VECTOR_LEN then Inl DECODE_FAIL_MA_INVALID_LENGTH
           else Inr (st\<lparr>seen_ma := True\<rparr>)
      else Inr st)"

text \<open>The walk: \<open>attr\<close> is the offset of the attribute, \<open>cnt\<close> the bytes left.\<close>

function attr_loop :: "byte list \<Rightarrow> nat \<Rightarrow> int \<Rightarrow> attr_state \<Rightarrow> (decode_fail_t + attr_state) option" where
  "attr_loop b attr cnt st =
     (if cnt > 0
      then if cnt < 2 then Some (Inl DECODE_FAIL_HEADER_OVERFLOW)
           else if length b < attr + 2 then None
           else if b ! attr = 0 then Some (Inl DECODE_FAIL_INVALID_ATTRIBUTE)
           else if unat (b ! (attr + 1)) < 2 then Some (Inl DECODE_FAIL_ATTRIBUTE_TOO_SHORT)
           else if cnt < int (unat (b ! (attr + 1))) then Some (Inl DECODE_FAIL_ATTRIBUTE_OVERFLOW)
           else case attr_switch (b ! attr) (b ! (attr + 1)) st of
                  Inl e \<Rightarrow> Some (Inl e)
                | Inr st1 \<Rightarrow> attr_loop b (attr + unat (b ! (attr + 1))) (cnt - int (unat (b ! (attr + 1))))
                               (st1\<lparr>num_attributes := num_attributes st1 + 1\<rparr>)
      else if cnt \<noteq> 0 then Some (Inl DECODE_FAIL_ATTRIBUTE_UNDERFLOW)
      else Some (Inr st))"
  by auto
termination
proof (relation "measure (\<lambda>(b, attr, cnt, st). nat cnt)")
  fix b :: "byte list" and attr :: nat and cnt :: int and st st1 :: attr_state
  assume "0 < cnt" "\<not> unat (b ! (attr + 1)) < 2"
  then have "nat (cnt - int (unat (b ! (attr + 1)))) < nat cnt" by linarith
  then show "((b, attr + unat (b ! (attr + 1)), cnt - int (unat (b ! (attr + 1))),
      st1\<lparr>num_attributes := num_attributes st1 + 1\<rparr>), b, attr, cnt, st)
      \<in> measure (\<lambda>(b, attr, cnt, st). nat cnt)"
    by (simp only: in_measure prod.case)
qed simp

declare attr_loop.simps [simp del]

text \<open>The checks on the packet as a whole.\<close>

definition packet_policy :: "nat \<Rightarrow> attr_state \<Rightarrow> decode_fail_t" where
  "packet_policy fr_max_attributes st =
     (if fr_max_attributes > 0 \<and> num_attributes st > fr_max_attributes then DECODE_FAIL_TOO_MANY_ATTRIBUTES
      else if require_ma st \<and> \<not> seen_ma st then DECODE_FAIL_MA_MISSING
      else if eap st \<and> non_eap st then DECODE_FAIL_TOO_MANY_AUTH
      else DECODE_FAIL_NONE)"

text \<open>The failure (\<open>DECODE_FAIL_NONE\<close> for success) and the packet as the call leaves it.\<close>

definition rad_packet_ok :: "nat \<Rightarrow> radius_packet \<Rightarrow> int \<Rightarrow> (decode_fail_t \<times> radius_packet) option" where
  "rad_packet_ok fr_max_attributes packet flags =
     (if r_data_len packet < RADIUS_HDR_LEN then Some (DECODE_FAIL_MIN_LENGTH_PACKET, packet)
      else case r_data packet of
        None \<Rightarrow> None
      | Some b \<Rightarrow>
          if length b < r_data_len packet then None
          else (case packet_header packet b of
            Inl e \<Rightarrow> Some (e, packet)
          | Inr (totallen, b1, packet1) \<Rightarrow>
              (case attr_loop b1 RADIUS_HDR_LEN (int totallen - int RADIUS_HDR_LEN)
                      \<lparr>require_ma = unat (b ! 0) = PW_CODE_STATUS_SERVER \<or> flags \<noteq> 0, seen_ma = False,
                       eap = False, non_eap = False, num_attributes = 0\<rparr> of
                 None \<Rightarrow> None
               | Some (Inl e) \<Rightarrow> Some (e, packet1)
               | Some (Inr st) \<Rightarrow>
                   let failure = packet_policy fr_max_attributes st
                   in Some (failure,
                        if failure \<noteq> DECODE_FAIL_NONE then packet1
                        else packet1\<lparr>r_code := unat (b1 ! 0), r_id := int (unat (b1 ! 1)),
                                     r_vector := take AUTH_VECTOR_LEN (drop 4 b1)\<rparr>))))"

section \<open>The grammar of attributes\<close>

fun attr_bytes :: "byte \<times> byte list \<Rightarrow> byte list" where
  "attr_bytes (t, v) = t # word_of_nat (length v + 2) # v"

fun attr_ok :: "byte \<times> byte list \<Rightarrow> bool" where
  "attr_ok (t, v) \<longleftrightarrow> t \<noteq> 0 \<and> length v \<le> 253 \<and> (t = PW_MESSAGE_AUTHENTICATOR \<longrightarrow> length v = 16)"

fun attr_see :: "byte \<times> byte list \<Rightarrow> attr_state \<Rightarrow> attr_state" where
  "attr_see (t, v) st =
     st\<lparr>require_ma := require_ma st \<or> t = PW_EAP_MESSAGE,
       eap := eap st \<or> t = PW_EAP_MESSAGE,
       non_eap := non_eap st \<or> t \<in> {PW_USER_PASSWORD, PW_CHAP_PASSWORD, PW_ARAP_PASSWORD},
       seen_ma := seen_ma st \<or> t = PW_MESSAGE_AUTHENTICATOR,
       num_attributes := num_attributes st + 1\<rparr>"

lemmas attr_numbers = PW_EAP_MESSAGE_def PW_USER_PASSWORD_def PW_CHAP_PASSWORD_def PW_ARAP_PASSWORD_def
  PW_MESSAGE_AUTHENTICATOR_def

lemma attr_switch_see:
  "attr_switch t len st =
     (if t = PW_MESSAGE_AUTHENTICATOR \<and> unat len \<noteq> 18 then Inl DECODE_FAIL_MA_INVALID_LENGTH
      else Inr ((attr_see (t, v) st)\<lparr>num_attributes := num_attributes st\<rparr>))"
  by (auto simp: attr_switch_def attr_numbers AUTH_VECTOR_LEN_def)

lemma unat_attr_len: "length v \<le> 253 \<Longrightarrow> unat (word_of_nat (length v + 2) :: byte) = length v + 2"
  by (simp only: unat_of_nat take_bit_nat_eq_self_iff) simp

lemma slice_step:
  assumes "attr + 2 \<le> length b" "l = unat (b ! (attr + 1))" "2 \<le> l" "l \<le> n" "attr + n \<le> length b"
  shows "slice b attr n = attr_bytes (b ! attr, slice b (attr + 2) (l - 2)) @ slice b (attr + l) (n - l)"
proof -
  obtain l' where l': "l = Suc (Suc l')" using assms(3) by (metis add_2_eq_Suc le_Suc_ex)
  obtain n' where n': "n = l + n'" using assms(4) le_Suc_ex by blast
  have "drop attr b = b ! attr # b ! Suc attr # drop (attr + 2) b"
    using assms(1) by (simp add: Cons_nth_drop_Suc)
  moreover have "length (slice b (attr + 2) l') = l'" using assms(5) l' n' by (simp add: slice_def)
  moreover have "word_of_nat (Suc (Suc l')) = b ! Suc attr"     using assms(2) by (simp flip: l')
  ultimately show ?thesis
    using l' n' by (simp add: slice_def take_add add.commute add.left_commute)
qed

lemma slice_attr_bytes:
  assumes "slice b attr n = attr_bytes (t, v) @ rest" "attr_ok (t, v)" "attr + n \<le> length b"
  shows "b ! attr = t" "unat (b ! (attr + 1)) = length v + 2" "length v + 2 \<le> n"
    "slice b (attr + (length v + 2)) (n - (length v + 2)) = rest"
proof -
  have l: "length (slice b attr n) = n" using assms(3) by (simp add: slice_def)
  then have n: "n = length v + 2 + length rest" using assms(1) by simp
  have nth: "slice b attr n ! i = b ! (attr + i)" if "i < n" for i using that assms(3) by (simp add: slice_def)
  show "b ! attr = t" using nth [of 0] n assms(1) by simp
  have "b ! (attr + 1) = word_of_nat (length v + 2)" using nth [of 1] n assms(1) by simp
  then show "unat (b ! (attr + 1)) = length v + 2" using unat_attr_len [of v] assms(2) by simp
  show "length v + 2 \<le> n" using n by simp
  show "slice b (attr + (length v + 2)) (n - (length v + 2)) = rest"
    using slice_parts(2) [of "length v + 2" b attr n] assms(1) by simp
qed

text \<open>What ends the walk, and one step of it.\<close>

definition attr_bad :: "byte list \<Rightarrow> nat \<Rightarrow> nat \<Rightarrow> bool" where
  "attr_bad b attr n \<longleftrightarrow> n < 2 \<or> b ! attr = 0 \<or> unat (b ! (attr + 1)) < 2 \<or> n < unat (b ! (attr + 1)) \<or>
     (b ! attr = PW_MESSAGE_AUTHENTICATOR \<and> unat (b ! (attr + 1)) \<noteq> 18)"

lemma attr_loop_bad:
  assumes "attr_bad b attr n" "0 < n" "attr + n \<le> length b"
  shows "\<exists>e. attr_loop b attr (int n) st = Some (Inl e)"
  using assms by (subst attr_loop.simps)
    (auto simp: attr_bad_def attr_switch_see [where v = "[]"] simp del: of_nat_unat)

lemma attr_loop_good:
  assumes "\<not> attr_bad b attr n" "0 < n" "attr + n \<le> length b"
  defines "l \<equiv> unat (b ! (attr + 1))"
  defines "v \<equiv> slice b (attr + 2) (l - 2)"
  shows "attr_loop b attr (int n) st = attr_loop b (attr + l) (int (n - l)) (attr_see (b ! attr, v) st)"
    and "attr_ok (b ! attr, v)" "length v = l - 2" "2 \<le> l" "l \<le> n"
    and "slice b attr n = attr_bytes (b ! attr, v) @ slice b (attr + l) (n - l)"
proof -
  have g: "2 \<le> n" "b ! attr \<noteq> 0" "2 \<le> l" "l \<le> n" "b ! attr = PW_MESSAGE_AUTHENTICATOR \<Longrightarrow> l = 18"
    using assms(1) by (auto simp: attr_bad_def l_def not_less)
  show vl: "length v = l - 2" unfolding v_def
    by (rule slice_parts(3)) (use g assms(3) in linarith)
  have "l < 2 ^ LENGTH(8)" unfolding l_def by (rule unsigned_less)
  then show "attr_ok (b ! attr, v)" using g vl by auto
  have "attr_switch (b ! attr) (b ! (attr + 1)) st =
      Inr ((attr_see (b ! attr, v) st)\<lparr>num_attributes := num_attributes st\<rparr>)"
    using g by (subst attr_switch_see [where v = v]) (auto simp: l_def)
  then show "attr_loop b attr (int n) st = attr_loop b (attr + l) (int (n - l)) (attr_see (b ! attr, v) st)"
    using g assms(2,3) unfolding l_def
    by (subst attr_loop.simps) (simp add: of_nat_diff del: of_nat_unat)
  show "2 \<le> l" "l \<le> n" by (rule g)+
  show "slice b attr n = attr_bytes (b ! attr, v) @ slice b (attr + l) (n - l)"
    unfolding v_def by (rule slice_step) (use g assms(3) in \<open>auto simp: l_def\<close>)
qed

definition attrs_form :: "(byte \<times> byte list) list \<Rightarrow> byte list \<Rightarrow> bool" where
  "attrs_form as bs \<longleftrightarrow> bs = concat (map attr_bytes as) \<and> (\<forall>a\<in>set as. attr_ok a)"

lemma attrs_form_Nil: "attrs_form as [] \<longleftrightarrow> as = []"
  by (cases as) (auto simp: attrs_form_def elim: attr_bytes.elims)

lemma attrs_form_Cons:
  assumes "attrs_form as (slice b attr n)" "0 < n" "attr + n \<le> length b"
  obtains t v as' where "as = (t, v) # as'" "attr_ok (t, v)" "b ! attr = t" "unat (b ! (attr + 1)) = length v + 2"
    "length v + 2 \<le> n" "attrs_form as' (slice b (attr + (length v + 2)) (n - (length v + 2)))"
    "slice b attr n = attr_bytes (t, v) @ concat (map attr_bytes as')"
proof -
  have len: "length (slice b attr n) = n" using assms(3) by (rule slice_parts(3))
  then obtain t v as' where as: "as = (t, v) # as'" using assms(1,2) by (cases as) (auto simp: attrs_form_def)
  have s: "slice b attr n = attr_bytes (t, v) @ concat (map attr_bytes as')" "attr_ok (t, v)"
    using assms(1) as by (simp_all add: attrs_form_def)
  note sa = slice_attr_bytes [OF s assms(3)]
  have "attrs_form as' (slice b (attr + (length v + 2)) (n - (length v + 2)))"
    unfolding sa(4) using assms(1) as by (simp add: attrs_form_def)
  from that [OF as s(2) sa(1-3) this s(1)] show thesis .
qed

lemma attrs_form_bad: "attr_bad b attr n \<Longrightarrow> 0 < n \<Longrightarrow> attr + n \<le> length b \<Longrightarrow> \<not> attrs_form as (slice b attr n)"
  by (rule notI, erule (2) attrs_form_Cons) (auto simp: attr_bad_def)

lemma attr_loop_iff:
  assumes "attr + n \<le> length b"
  shows "(\<exists>r. attr_loop b attr (int n) st = Some r) \<and>
    (\<forall>st'. attr_loop b attr (int n) st = Some (Inr st') \<longleftrightarrow>
      (\<exists>as. attrs_form as (slice b attr n) \<and> st' = fold attr_see as st))"
  using assms
proof (induction n arbitrary: attr st rule: less_induct)
  case (less n)
  consider "n = 0" | "0 < n" "attr_bad b attr n" | "0 < n" "\<not> attr_bad b attr n" by auto
  then show ?case
  proof cases
    case 1
    then show ?thesis by (subst (1 2) attr_loop.simps) (auto simp: slice_def attrs_form_Nil)
  next
    case 2
    then show ?thesis
      using attr_loop_bad [OF 2(2,1) less.prems, of st] attrs_form_bad [OF 2(2,1) less.prems] by auto
  next
    case 3
    obtain l v where g: "l = unat (b ! (attr + 1))" "attr_ok (b ! attr, v)" "length v = l - 2" "2 \<le> l" "l \<le> n"
      "slice b attr n = attr_bytes (b ! attr, v) @ slice b (attr + l) (n - l)"
      "attr_loop b attr (int n) st = attr_loop b (attr + l) (int (n - l)) (attr_see (b ! attr, v) st)"
      using attr_loop_good [OF 3(2,1) less.prems] by blast
    let ?st = "attr_see (b ! attr, v) st"
    have lt: "n - l < n" "attr + l + (n - l) \<le> length b" using g(4,5) less.prems by auto
    note IH = less.IH [OF lt, of ?st]
    have "(\<exists>as. attrs_form as (slice b attr n) \<and> st' = fold attr_see as st) \<longleftrightarrow>
        (\<exists>as. attrs_form as (slice b (attr + l) (n - l)) \<and> st' = fold attr_see as ?st)" for st'
    proof (rule iffI; elim exE conjE)
      fix as assume a: "attrs_form as (slice b attr n)" "st' = fold attr_see as st"
      obtain t w as' where o: "as = (t, w) # as'" "b ! attr = t" "unat (b ! (attr + 1)) = length w + 2"
        "attrs_form as' (slice b (attr + (length w + 2)) (n - (length w + 2)))"
        "slice b attr n = attr_bytes (t, w) @ concat (map attr_bytes as')"
        by (rule attrs_form_Cons [OF a(1) 3(1) less.prems])
      have l: "l = length w + 2" using g(1) o(3) by simp
      have "attr_bytes (b ! attr, v) @ slice b (attr + l) (n - l) = attr_bytes (t, w) @ concat (map attr_bytes as')"
        by (rule trans [OF sym [OF g(6)] o(5)])
      then have "w = v" using g(3) l by simp
      then show "\<exists>as. attrs_form as (slice b (attr + l) (n - l)) \<and> st' = fold attr_see as ?st"
        using a(2) o(1,2,4) l by (intro exI [of _ as']) (simp del: attr_see.simps)
    next
      fix as assume a: "attrs_form as (slice b (attr + l) (n - l))" "st' = fold attr_see as ?st"
      have "attrs_form ((b ! attr, v) # as) (slice b attr n)"
        using a(1) g(2) unfolding attrs_form_def g(6) by (simp del: attr_ok.simps attr_bytes.simps)
      then show "\<exists>as. attrs_form as (slice b attr n) \<and> st' = fold attr_see as st"
        using a(2) by (intro exI [of _ "(b ! attr, v) # as"]) (simp del: attr_see.simps)
    qed
    then show ?thesis using IH unfolding g(7) by blast
  qed
qed

lemma attr_see_fold:
  "fold attr_see as st =
     st\<lparr>require_ma := require_ma st \<or> PW_EAP_MESSAGE \<in> fst ` set as,
       eap := eap st \<or> PW_EAP_MESSAGE \<in> fst ` set as,
       non_eap := non_eap st \<or> fst ` set as \<inter> {PW_USER_PASSWORD, PW_CHAP_PASSWORD, PW_ARAP_PASSWORD} \<noteq> {},
       seen_ma := seen_ma st \<or> PW_MESSAGE_AUTHENTICATOR \<in> fst ` set as,
       num_attributes := num_attributes st + length as\<rparr>"
proof (induction as arbitrary: st)
  case (Cons a as)
  then show ?case by (cases a) (simp add: eq_commute disj_ac)
qed simp

text \<open>The buffer after the padding has been cleared agrees with the received one on the packet.\<close>

lemma cleared_padding:
  assumes "n \<le> m" "m \<le> length b"
  shows "take n (memcpy_at b n (replicate (m - n) 0)) = take n b"
    "length (memcpy_at b n (replicate (m - n) 0)) = length b"
  using assms by (simp_all add: memcpy_at_def)

lemma slice_take:
  assumes "k + len \<le> n" "take n b1 = take n b"
  shows "slice b1 k len = slice b k len"
proof -
  have "slice c k len = drop k (take (k + len) (take n c))" for c :: "byte list"
    using assms(1) by (simp add: slice_def drop_take)
  then show ?thesis by (simp only: assms(2))
qed

lemma packet_header_cases:
  assumes "r_data p = Some b" "r_data_len p \<le> length b"
  defines "n \<equiv> packet_totallen b"
  shows "if 0 < unat (b ! 0) \<and> unat (b ! 0) < 52 \<and> 20 \<le> n \<and> n \<le> r_data_len p
     then \<exists>b1. packet_header p b = Inr (n, b1, p\<lparr>r_data := Some b1, r_data_len := n\<rparr>) \<and>
        take n b1 = take n b \<and> length b1 = length b
     else \<exists>e. packet_header p b = Inl e \<and> e \<noteq> DECODE_FAIL_NONE"
proof -
  let ?b1 = "if n < r_data_len p then memcpy_at b n (replicate (r_data_len p - n) 0) else b"
  have h: "packet_header p b =
      (if unat (b ! 0) = 0 \<or> 52 \<le> unat (b ! 0) then Inl DECODE_FAIL_UNKNOWN_PACKET_CODE
       else if n < 20 then Inl DECODE_FAIL_MIN_LENGTH_FIELD
       else if r_data_len p < n then Inl DECODE_FAIL_MIN_LENGTH_MISMATCH
       else if n < r_data_len p then Inr (n, ?b1, p\<lparr>r_data := Some ?b1, r_data_len := n\<rparr>)
       else Inr (n, b, p))"
    unfolding packet_header_def Let_def n_def FR_MAX_PACKET_CODE_def RADIUS_HDR_LEN_def by simp
  have p: "n = r_data_len p \<Longrightarrow> p = p\<lparr>r_data := Some b, r_data_len := n\<rparr>" using assms(1) by simp
  have "packet_header p b = Inr (n, ?b1, p\<lparr>r_data := Some ?b1, r_data_len := n\<rparr>)"
    if "0 < unat (b ! 0)" "unat (b ! 0) < 52" "20 \<le> n" "n \<le> r_data_len p"
    using that p unfolding h by (cases "n < r_data_len p") simp_all
  moreover have "take n ?b1 = take n b \<and> length ?b1 = length b" if "n \<le> r_data_len p"
    using cleared_padding [OF that assms(2)] by simp
  moreover have "\<exists>e. packet_header p b = Inl e \<and> e \<noteq> DECODE_FAIL_NONE"
    if bad: "\<not> (0 < unat (b ! 0) \<and> unat (b ! 0) < 52 \<and> 20 \<le> n \<and> n \<le> r_data_len p)"
  proof -
    consider "unat (b ! 0) = 0 \<or> 52 \<le> unat (b ! 0)" | "\<not> (unat (b ! 0) = 0 \<or> 52 \<le> unat (b ! 0))" "n < 20"
      | "\<not> (unat (b ! 0) = 0 \<or> 52 \<le> unat (b ! 0))" "\<not> n < 20" "r_data_len p < n" using bad by linarith
    then show ?thesis unfolding h by cases simp_all
  qed
  ultimately show ?thesis unfolding if_bool_eq_conj by blast
qed

text \<open>The conditions on an acceptable packet, over its list of attributes.\<close>

definition packet_form :: "nat \<Rightarrow> int \<Rightarrow> nat \<Rightarrow> byte list \<Rightarrow> (byte \<times> byte list) list \<Rightarrow> bool" where
  "packet_form fr_max_attributes flags len b as \<longleftrightarrow>
     (let n = packet_totallen b; ts = fst ` set as
      in 0 < unat (b ! 0) \<and> unat (b ! 0) < 52 \<and> 20 \<le> n \<and> n \<le> len \<and> attrs_form as (slice b 20 (n - 20)) \<and>
         (fr_max_attributes = 0 \<or> length as \<le> fr_max_attributes) \<and>
         (unat (b ! 0) = PW_CODE_STATUS_SERVER \<or> flags \<noteq> 0 \<or> PW_EAP_MESSAGE \<in> ts \<longrightarrow> PW_MESSAGE_AUTHENTICATOR \<in> ts) \<and>
         \<not> (PW_EAP_MESSAGE \<in> ts \<and> ts \<inter> {PW_USER_PASSWORD, PW_CHAP_PASSWORD, PW_ARAP_PASSWORD} \<noteq> {}))"

lemma packet_policy_none:
  "packet_policy mx (fold attr_see as \<lparr>require_ma = r, seen_ma = False, eap = False, non_eap = False,
       num_attributes = 0\<rparr>) = DECODE_FAIL_NONE \<longleftrightarrow>
     (mx = 0 \<or> length as \<le> mx) \<and> (r \<or> PW_EAP_MESSAGE \<in> fst ` set as \<longrightarrow> PW_MESSAGE_AUTHENTICATOR \<in> fst ` set as) \<and>
     \<not> (PW_EAP_MESSAGE \<in> fst ` set as \<and> fst ` set as \<inter> {PW_USER_PASSWORD, PW_CHAP_PASSWORD, PW_ARAP_PASSWORD} \<noteq> {})"
  by (auto simp: packet_policy_def attr_see_fold)

lemma attr_loop_not_none: "attr_loop b attr c st = Some (Inl e) \<Longrightarrow> e \<noteq> DECODE_FAIL_NONE"
proof (induction b attr c st rule: attr_loop.induct)
  case (1 b attr c st)
  show ?case
  proof (cases "c > 0 \<and> \<not> c < 2 \<and> \<not> length b < attr + 2 \<and> b ! attr \<noteq> 0 \<and> \<not> unat (b ! (attr + 1)) < 2 \<and>
      \<not> c < int (unat (b ! (attr + 1)))")
    case True
    then have s: "attr_loop b attr c st = (case attr_switch (b ! attr) (b ! (attr + 1)) st of
          Inl e \<Rightarrow> Some (Inl e)
        | Inr st1 \<Rightarrow> attr_loop b (attr + unat (b ! (attr + 1))) (c - int (unat (b ! (attr + 1))))
                       (st1\<lparr>num_attributes := num_attributes st1 + 1\<rparr>))"
      by (subst attr_loop.simps) (simp del: of_nat_unat)
    show ?thesis
    proof (cases "attr_switch (b ! attr) (b ! (attr + 1)) st")
      case (Inl e')
      then show ?thesis using 1(2) unfolding s by (auto simp: attr_switch_see [where v = "[]"] split: if_splits)
    next
      case (Inr st1)
      then show ?thesis using 1(2) True unfolding s by (intro 1(1)) (auto simp del: of_nat_unat)
    qed
  next
    case False
    then show ?thesis using 1(2) by (subst (asm) attr_loop.simps) (auto simp del: of_nat_unat split: if_splits)
  qed
qed

abbreviation start_state :: "bool \<Rightarrow> attr_state" where
  "start_state r \<equiv> \<lparr>require_ma = r, seen_ma = False, eap = False, non_eap = False, num_attributes = 0\<rparr>"

lemma rad_packet_ok_run:
  assumes "r_data p = Some b" "r_data_len p \<le> length b" "20 \<le> r_data_len p" "20 \<le> n"
    and "packet_header p b = Inr (n, b1, p1)"
    and "attr_loop b1 20 (int (n - 20)) (start_state (unat (b ! 0) = PW_CODE_STATUS_SERVER \<or> flags \<noteq> 0)) = Some r"
  shows "rad_packet_ok mx p flags = Some (case r of Inl e \<Rightarrow> (e, p1)
    | Inr st \<Rightarrow> (packet_policy mx st, if packet_policy mx st \<noteq> DECODE_FAIL_NONE then p1
        else p1\<lparr>r_code := unat (b1 ! 0), r_id := int (unat (b1 ! 1)), r_vector := take 16 (drop 4 b1)\<rparr>))"
proof -
  have cnt: "int n - int 20 = int (n - 20)" using assms(4) by (simp add: of_nat_diff)
  have g: "\<not> r_data_len p < 20" "\<not> length b < r_data_len p" using assms(2,3) by simp_all
  show ?thesis
    unfolding rad_packet_ok_def RADIUS_HDR_LEN_def AUTH_VECTOR_LEN_def if_not_P [OF g(1)] if_not_P [OF g(2)]
      assms(1,5) option.case sum.case prod.case cnt assms(6) Let_def
    by (cases r) simp_all
qed

lemma packet_form_policy:
  "packet_form mx flags len b as \<longleftrightarrow>
     (0 < unat (b ! 0) \<and> unat (b ! 0) < 52 \<and> 20 \<le> packet_totallen b \<and> packet_totallen b \<le> len) \<and>
     attrs_form as (slice b 20 (packet_totallen b - 20)) \<and>
     packet_policy mx (fold attr_see as
       (start_state (unat (b ! 0) = PW_CODE_STATUS_SERVER \<or> flags \<noteq> 0))) = DECODE_FAIL_NONE"
  unfolding packet_form_def packet_policy_none Let_def by blast

lemma rad_packet_ok_cases:
  assumes "r_data p = Some b" "r_data_len p \<le> length b" "20 \<le> r_data_len p"
  defines "n \<equiv> packet_totallen b"
  defines "p' \<equiv> \<lambda>b1. p\<lparr>r_data := Some b1, r_data_len := n, r_code := unat (b ! 0), r_id := int (unat (b ! 1)),
          r_vector := take 16 (drop 4 b)\<rparr>"
  shows "(\<exists>e p1. rad_packet_ok mx p flags = Some (e, p1) \<and> e \<noteq> DECODE_FAIL_NONE \<and>
        \<not> (\<exists>as. packet_form mx flags (r_data_len p) b as)) \<or>
    (\<exists>b1 as. rad_packet_ok mx p flags = Some (DECODE_FAIL_NONE, p' b1) \<and>
      take n b1 = take n b \<and> length b1 = length b \<and> packet_form mx flags (r_data_len p) b as)"
proof (cases "0 < unat (b ! 0) \<and> unat (b ! 0) < 52 \<and> 20 \<le> n \<and> n \<le> r_data_len p")
  case False
  obtain e where e: "packet_header p b = Inl e" "e \<noteq> DECODE_FAIL_NONE"
    using packet_header_cases [OF assms(1,2)] False unfolding n_def by (auto split: if_splits)
  have "rad_packet_ok mx p flags = Some (e, p)"
    using e(1) assms(1-3) by (simp add: rad_packet_ok_def RADIUS_HDR_LEN_def)
  moreover have "\<not> (\<exists>as. packet_form mx flags (r_data_len p) b as)"
    using False unfolding packet_form_policy n_def by blast
  ultimately show ?thesis using e(2) by blast
next
  case True
  let ?st = "start_state (unat (b ! 0) = PW_CODE_STATUS_SERVER \<or> flags \<noteq> 0)"
  let ?form = "packet_form mx flags (r_data_len p) b"
  obtain b1 where h: "packet_header p b = Inr (n, b1, p\<lparr>r_data := Some b1, r_data_len := n\<rparr>)"
    and b1: "take n b1 = take n b" "length b1 = length b"
    using packet_header_cases [OF assms(1,2)] True unfolding n_def by (auto split: if_splits)
  have n20: "20 \<le> n" "n \<le> length b" using True assms(2) by simp_all
  have bound: "20 + (n - 20) \<le> length b1" using n20 b1 by simp
  have sl: "slice b1 20 (n - 20) = slice b 20 (n - 20)" 
    by (rule slice_take [OF _ b1(1)]) (use n20 in simp)
  have nth: "b1 ! i = b ! i" if "i < n" for i using that b1(1) by (metis nth_take)
  have "slice b1 4 16 = slice b 4 16" by (rule slice_take [OF _ b1(1)]) (use n20 in simp)
  then have hdr: "b1 ! 0 = b ! 0" "b1 ! 1 = b ! 1" "take 16 (drop 4 b1) = take 16 (drop 4 b)"
    using n20 nth by (simp_all add: slice_def)
  note li = attr_loop_iff [OF bound, of ?st, unfolded sl]
  obtain r where r: "attr_loop b1 20 (int (n - 20)) ?st = Some r" using conjunct1 [OF li] by blast
  note run = rad_packet_ok_run [OF assms(1-3) n20(1) h r]
  have form: "?form as \<longleftrightarrow> attrs_form as (slice b 20 (n - 20)) \<and>
      packet_policy mx (fold attr_see as ?st) = DECODE_FAIL_NONE" for as
    using True unfolding packet_form_policy n_def by blast
  have res: "r = Inr (fold attr_see as ?st)" if "attrs_form as (slice b 20 (n - 20))" for as
  proof -
    have "attr_loop b1 20 (int (n - 20)) ?st = Some (Inr (fold attr_see as ?st))"
      using conjunct2 [OF li, THEN spec, of "fold attr_see as ?st"] that by blast
    then show ?thesis using r by simp
  qed
  show ?thesis
  proof (cases r)
    case (Inl e)
    then have "rad_packet_ok mx p flags = Some (e, p\<lparr>r_data := Some b1, r_data_len := n\<rparr>)"
      using run by simp
    moreover have "e \<noteq> DECODE_FAIL_NONE" using attr_loop_not_none r Inl by blast
    moreover have "\<not> (\<exists>as. ?form as)" using form res Inl by blast
    ultimately show ?thesis by blast
  next
    case (Inr st)
    obtain as where as: "attrs_form as (slice b 20 (n - 20))" "st = fold attr_see as ?st"
      using conjunct2 [OF li, THEN spec, of st] r Inr by blast
    show ?thesis
    proof (cases "packet_policy mx st = DECODE_FAIL_NONE")
      case True
      then have "rad_packet_ok mx p flags = Some (DECODE_FAIL_NONE, p' b1)"
        unfolding run Inr p'_def by (simp add: hdr hdr(2) [unfolded One_nat_def])
      moreover have "?form as" using form as True by blast
      ultimately show ?thesis using b1 by blast
    next
      case False
      then have "rad_packet_ok mx p flags = Some (packet_policy mx st, p\<lparr>r_data := Some b1, r_data_len := n\<rparr>)"
        unfolding run Inr by simp
      moreover have "\<not> ?form as'" for as'
        using form [of as'] res [of as'] Inr False by (metis sum.inject(2))
      ultimately show ?thesis using False by blast
    qed
  qed
qed

section \<open>Properties\<close>


definition demo_packet :: "byte list \<Rightarrow> radius_packet" where
  "demo_packet b = \<lparr>r_code = 0, r_id = 0, r_vector = [], r_data = Some b, r_data_len = length b, r_offset = 0\<rparr>"


end
