(* ===== verification/RadVerify.thy ===== *)
theory RadVerify
  imports RadPacket
begin

text \<open>
  Signing and verifying packets, \<^verbatim>\<open>rad_sign\<close>, \<^verbatim>\<open>rad_verify\<close> and their helpers in
  \<^verbatim>\<open>lib/radius.c\<close>. \<open>junk\<close> is the uninitialised buffer of the digest contexts. A read or write
  outside the buffer of the packet, a NULL dereference and a loop that does not end are \<open>None\<close>. The
  packet itself is never NULL; \<open>original\<close> may be. The text of the errors is left out.
\<close>

section \<open>Digests of packets\<close>

text \<open>The result of the C function is an int between 0 and 255.\<close>

definition rad_digest_cmp :: "byte list \<Rightarrow> byte list \<Rightarrow> nat \<Rightarrow> byte" where
  "rad_digest_cmp a b len = fold (\<lambda>i result. result OR (a ! i XOR b ! i)) [0..<len] 0"

definition packet_digest :: "byte list \<Rightarrow> byte list \<Rightarrow> nat \<Rightarrow> byte list \<Rightarrow> byte list" where
  "packet_digest junk data data_len secret =
     fr_md5_final (fr_md5_update (fr_md5_update (fr_md5_init junk) (take data_len data)) secret)"

definition calc_acctdigest :: "byte list \<Rightarrow> radius_packet \<Rightarrow> byte list \<Rightarrow> (nat \<times> radius_packet) option" where
  "calc_acctdigest junk packet secret =
     (case r_data packet of
        None \<Rightarrow> None
      | Some b \<Rightarrow>
          if length b < RADIUS_HDR_LEN \<or> length b < r_data_len packet then None
          else let b1 = memcpy_at b 4 (replicate AUTH_VECTOR_LEN 0);
                   digest = packet_digest junk b1 (r_data_len packet) secret
               in Some (if rad_digest_cmp digest (r_vector packet) AUTH_VECTOR_LEN \<noteq> 0 then 2 else 0,
                        packet\<lparr>r_data := Some b1\<rparr>))"

definition calc_replydigest ::
  "byte list \<Rightarrow> radius_packet \<Rightarrow> radius_packet option \<Rightarrow> byte list \<Rightarrow> (nat \<times> radius_packet) option" where
  "calc_replydigest junk packet original secret =
     (case original of
        None \<Rightarrow> Some (3, packet)
      | Some orig \<Rightarrow>
          (case r_data packet of
             None \<Rightarrow> None
           | Some b \<Rightarrow>
               if length b < RADIUS_HDR_LEN \<or> length b < r_data_len packet then None
               else let b1 = memcpy_at b 4 (r_vector orig);
                        calc_digest = packet_digest junk b1 (r_data_len packet) secret;
                        b2 = memcpy_at b1 4 (r_vector packet)
                    in Some (if rad_digest_cmp (r_vector packet) calc_digest AUTH_VECTOR_LEN \<noteq> 0 then 2 else 0,
                             packet\<lparr>r_data := Some b2\<rparr>)))"

section \<open>rad_verify\<close>

text \<open>
  The inner switch: the buffer the HMAC is computed over, \<open>None\<close> for the error return.
\<close>

definition verify_vector :: "nat \<Rightarrow> radius_packet option \<Rightarrow> byte list \<Rightarrow> byte list option" where
  "verify_vector code original b =
     (let zero = Some (memcpy_at b 4 (replicate AUTH_VECTOR_LEN 0));
          do_ack = (case original of None \<Rightarrow> None | Some orig \<Rightarrow> Some (memcpy_at b 4 (r_vector orig)))
      in if code = PW_CODE_ACCOUNTING_RESPONSE
         then (case original of
                 None \<Rightarrow> zero
               | Some orig \<Rightarrow> if r_code orig = PW_CODE_STATUS_SERVER then do_ack else zero)
         else if code \<in> {PW_CODE_ACCOUNTING_REQUEST, PW_CODE_DISCONNECT_REQUEST, PW_CODE_COA_REQUEST} then zero
         else if code \<in> {PW_CODE_ACCESS_ACCEPT, PW_CODE_ACCESS_REJECT, PW_CODE_ACCESS_CHALLENGE,
                         PW_CODE_DISCONNECT_ACK, PW_CODE_DISCONNECT_NAK, PW_CODE_COA_ACK, PW_CODE_COA_NAK} then do_ack
         else Some b)"

text \<open>
  The case of a Message-Authenticator at offset \<open>ptr\<close>: whether the loop goes on, and the packet.
\<close>

definition verify_ma ::
  "byte list \<Rightarrow> radius_packet option \<Rightarrow> byte list \<Rightarrow> radius_packet \<Rightarrow> byte list \<Rightarrow> nat \<Rightarrow> (bool \<times> radius_packet) option" where
  "verify_ma junk original secret packet b ptr =
     (if length b < ptr + 2 + AUTH_VECTOR_LEN \<or> length b < r_data_len packet then None
      else let msg_auth_vector = slice b (ptr + 2) AUTH_VECTOR_LEN;
               b1 = memcpy_at b (ptr + 2) (replicate AUTH_VECTOR_LEN 0)
           in case verify_vector (r_code packet) original b1 of
                None \<Rightarrow> Some (False, packet\<lparr>r_data := Some b1\<rparr>)
              | Some b2 \<Rightarrow>
                  let calc_auth_vector = fr_hmac_md5 junk (take (r_data_len packet) b2) secret
                  in if rad_digest_cmp calc_auth_vector msg_auth_vector AUTH_VECTOR_LEN \<noteq> 0
                     then Some (False, packet\<lparr>r_data := Some b2\<rparr>)
                     else let b3 = memcpy_at b2 (ptr + 2) msg_auth_vector
                          in Some (True, packet\<lparr>r_data := Some (memcpy_at b3 4 (r_vector packet))\<rparr>))"

text \<open>The loop. An attribute of length zero would make it run forever.\<close>

partial_function (option) verify_loop ::
  "byte list \<Rightarrow> radius_packet option \<Rightarrow> byte list \<Rightarrow> radius_packet \<Rightarrow> nat \<Rightarrow> int \<Rightarrow> (bool \<times> radius_packet) option" where
  "verify_loop junk original secret packet ptr len =
     (if len > 0
      then (case r_data packet of
              None \<Rightarrow> None
            | Some b \<Rightarrow>
                if length b < ptr + 2 then None
                else let attrlen = unat (b ! (ptr + 1));
                         r = (if b ! ptr = PW_MESSAGE_AUTHENTICATOR then verify_ma junk original secret packet b ptr
                              else Some (True, packet))
                     in (case r of
                           None \<Rightarrow> None
                         | Some (go_on, packet1) \<Rightarrow>
                             if go_on then verify_loop junk original secret packet1 (ptr + attrlen) (len - int attrlen)
                             else Some (False, packet1)))
      else Some (True, packet))"

text \<open>What follows the loop.\<close>

definition verify_authenticator ::
  "byte list \<Rightarrow> radius_packet \<Rightarrow> radius_packet option \<Rightarrow> byte list \<Rightarrow> (int \<times> radius_packet) option" where
  "verify_authenticator junk packet original secret =
     (if r_code packet = 0 \<or> r_code packet \<ge> FR_MAX_PACKET_CODE then Some (- 1, packet)
      else if r_code packet \<in> {PW_CODE_ACCESS_REQUEST, PW_CODE_STATUS_SERVER} then Some (0, packet)
      else if r_code packet \<in> {PW_CODE_COA_REQUEST, PW_CODE_DISCONNECT_REQUEST, PW_CODE_ACCOUNTING_REQUEST}
      then map_option (map_prod (\<lambda>rcode. if rcode > 1 then - 1 else 0) id) (calc_acctdigest junk packet secret)
      else if r_code packet \<in> {PW_CODE_ACCESS_ACCEPT, PW_CODE_ACCESS_REJECT, PW_CODE_ACCESS_CHALLENGE,
             PW_CODE_ACCOUNTING_RESPONSE, PW_CODE_DISCONNECT_ACK, PW_CODE_DISCONNECT_NAK, PW_CODE_COA_ACK, PW_CODE_COA_NAK}
      then map_option (map_prod (\<lambda>rcode. if rcode > 1 then - 1 else 0) id) (calc_replydigest junk packet original secret)
      else Some (- 1, packet))"

definition rad_verify ::
  "byte list \<Rightarrow> radius_packet \<Rightarrow> radius_packet option \<Rightarrow> byte list \<Rightarrow> (int \<times> radius_packet) option" where
  "rad_verify junk packet original secret =
     (if r_data packet = None then Some (- 1, packet)
      else case verify_loop junk original secret packet RADIUS_HDR_LEN
                  (int (r_data_len packet) - int RADIUS_HDR_LEN) of
             None \<Rightarrow> None
           | Some (False, packet1) \<Rightarrow> Some (- 1, packet1)
           | Some (True, packet1) \<Rightarrow> verify_authenticator junk packet1 original secret)"

section \<open>rad_sign\<close>

text \<open>The first switch: the new vector of the packet, \<open>None\<close> for the error return.\<close>

definition sign_vector :: "nat \<Rightarrow> radius_packet option \<Rightarrow> byte list \<Rightarrow> byte list option" where
  "sign_vector code original vector =
     (if code \<in> {PW_CODE_ACCOUNTING_REQUEST, PW_CODE_DISCONNECT_REQUEST, PW_CODE_COA_REQUEST}
      then Some (replicate AUTH_VECTOR_LEN 0)
      else if code \<in> {PW_CODE_ACCESS_ACCEPT, PW_CODE_ACCESS_REJECT, PW_CODE_ACCESS_CHALLENGE,
             PW_CODE_ACCOUNTING_RESPONSE, PW_CODE_DISCONNECT_ACK, PW_CODE_DISCONNECT_NAK, PW_CODE_COA_ACK, PW_CODE_COA_NAK}
      then map_option r_vector original
      else Some vector)"

text \<open>The second switch: the buffer the HMAC is computed over, \<open>None\<close> for a NULL \<open>original\<close>.\<close>

definition sign_ma_buffer :: "nat \<Rightarrow> radius_packet option \<Rightarrow> byte list \<Rightarrow> byte list option" where
  "sign_ma_buffer code original b =
     (let zero = Some (memcpy_at b 4 (replicate AUTH_VECTOR_LEN 0));
          do_ack = map_option (\<lambda>orig. memcpy_at b 4 (r_vector orig)) original
      in if code = PW_CODE_ACCOUNTING_RESPONSE
         then (case original of
                 None \<Rightarrow> zero
               | Some orig \<Rightarrow> if r_code orig = PW_CODE_STATUS_SERVER then do_ack else zero)
         else if code \<in> {PW_CODE_ACCOUNTING_REQUEST, PW_CODE_DISCONNECT_REQUEST, PW_CODE_DISCONNECT_ACK,
                PW_CODE_DISCONNECT_NAK, PW_CODE_COA_REQUEST, PW_CODE_COA_ACK, PW_CODE_COA_NAK} then zero
         else if code \<in> {PW_CODE_ACCESS_ACCEPT, PW_CODE_ACCESS_REJECT, PW_CODE_ACCESS_CHALLENGE} then do_ack
         else Some b)"

definition sign_ma ::
  "byte list \<Rightarrow> radius_packet option \<Rightarrow> byte list \<Rightarrow> radius_packet \<Rightarrow> byte list \<Rightarrow> byte list option" where
  "sign_ma junk original secret packet b =
     (if r_offset packet > 0 \<and> nat (r_offset packet) + 18 \<le> r_data_len packet
      then (case sign_ma_buffer (r_code packet) original b of
              None \<Rightarrow> None
            | Some b1 \<Rightarrow>
                let calc_auth_vector = fr_hmac_md5 junk (take (r_data_len packet) b1) secret
                in Some (memcpy_at b1 (nat (r_offset packet) + 2) calc_auth_vector))
      else Some b)"

definition rad_sign ::
  "byte list \<Rightarrow> radius_packet \<Rightarrow> radius_packet option \<Rightarrow> byte list \<Rightarrow> (int \<times> radius_packet) option" where
  "rad_sign junk packet original secret =
     (if r_id packet < 0 then Some (- 1, packet)
      else case r_data packet of
        None \<Rightarrow> Some (- 1, packet)
      | Some b \<Rightarrow>
          if r_data_len packet < RADIUS_HDR_LEN \<or> r_offset packet < 0 then Some (- 1, packet)
          else if length b < r_data_len packet then None
          else (case sign_vector (r_code packet) original (r_vector packet) of
                  None \<Rightarrow> Some (- 1, packet)
                | Some vector \<Rightarrow>
                    (case sign_ma junk original secret packet b of
                       None \<Rightarrow> None
                     | Some b1 \<Rightarrow>
                         let b2 = memcpy_at b1 4 vector
                         in if r_code packet \<in> {PW_CODE_ACCESS_REQUEST, PW_CODE_STATUS_SERVER}
                            then Some (0, packet\<lparr>r_vector := vector, r_data := Some b2\<rparr>)
                            else let digest = packet_digest junk b2 (r_data_len packet) secret
                                 in Some (0, packet\<lparr>r_vector := digest, r_data := Some (memcpy_at b2 4 digest)\<rparr>))))"

section \<open>Buffers\<close>

lemma memcpy_at_nth:
  assumes "k + length xs \<le> length b" "j < length b"
  shows "memcpy_at b k xs ! j = (if k \<le> j \<and> j < k + length xs then xs ! (j - k) else b ! j)"
  using assms by (auto simp: memcpy_at_def nth_append)

lemma slice_nth: "i < len \<Longrightarrow> k + len \<le> length b \<Longrightarrow> slice b k len ! i = b ! (k + i)"
  by (simp add: slice_def)

lemma slice_length [simp]: "k + len \<le> length b \<Longrightarrow> length (slice b k len) = len"
  by (rule slice_parts(3))

lemma memcpy_at_same: "k + len \<le> length b \<Longrightarrow> memcpy_at b k (slice b k len) = b"
  by (rule nth_equalityI) (auto simp: memcpy_at_length memcpy_at_nth slice_nth)

lemma memcpy_at_twice:
  "k + length xs \<le> length b \<Longrightarrow> length ys = length xs \<Longrightarrow> memcpy_at (memcpy_at b k xs) k ys = memcpy_at b k ys"
  by (rule nth_equalityI) (auto simp: memcpy_at_length memcpy_at_nth)

lemma memcpy_at_commute:
  assumes "k + length xs \<le> k'" "k' + length ys \<le> length b"
  shows "memcpy_at (memcpy_at b k xs) k' ys = memcpy_at (memcpy_at b k' ys) k xs"
  by (rule nth_equalityI) (use assms in \<open>auto simp: memcpy_at_length memcpy_at_nth\<close>)

lemma slice_memcpy_at:
  assumes "k + length xs \<le> length b"
  shows "slice (memcpy_at b k xs) k (length xs) = xs"
  by (rule nth_equalityI) (use assms in \<open>auto simp: memcpy_at_length memcpy_at_nth slice_nth\<close>)

lemma slice_memcpy_other:
  assumes "k + length xs \<le> length b" "k' + len \<le> k \<or> k + length xs \<le> k'" "k' + len \<le> length b"
  shows "slice (memcpy_at b k xs) k' len = slice b k' len"
  by (rule nth_equalityI) (use assms in \<open>auto simp: memcpy_at_length memcpy_at_nth slice_nth\<close>)

text \<open>The timing-safe comparison is equality.\<close>

lemma or_eq_0: "a OR b = 0 \<longleftrightarrow> a = 0 \<and> b = 0" for a b :: byte
  by (rule or_eq_0_iff)

lemma xor_eq_0: "a XOR b = 0 \<longleftrightarrow> a = b" for a b :: byte
proof
  assume "a XOR b = 0"
  then have "(a XOR b) XOR b = b" by simp
  then show "a = b" by (simp add: xor.assoc)
qed simp

lemma rad_digest_cmp_eq:
  assumes "length a = n" "length b = n"
  shows "rad_digest_cmp a b n = 0 \<longleftrightarrow> a = b"
proof -
  have f: "fold (\<lambda>i r. r OR (a ! i XOR b ! i)) is r = 0 \<longleftrightarrow> r = 0 \<and> (\<forall>i\<in>set is. a ! i = b ! i)" for "is" r
    by (induction "is" arbitrary: r) (auto simp: or_eq_0 xor_eq_0)
  have "rad_digest_cmp a b n = 0 \<longleftrightarrow> (\<forall>i\<in>set [0..<n]. a ! i = b ! i)"
    unfolding rad_digest_cmp_def f by simp
  then show ?thesis using assms by (simp add: list_eq_iff_nth_eq Ball_def)
qed

section \<open>What the two functions compute\<close>

text \<open>Offsets of the Message-Authenticators of an attribute list that starts at \<open>ptr\<close>.\<close>

fun ma_offsets :: "nat \<Rightarrow> (byte \<times> byte list) list \<Rightarrow> nat list" where
  "ma_offsets ptr [] = []"
| "ma_offsets ptr ((t, v) # as) =
     (if t = PW_MESSAGE_AUTHENTICATOR then [ptr] else []) @ ma_offsets (ptr + (length v + 2)) as"

definition zeros :: "byte list" where
  "zeros = replicate AUTH_VECTOR_LEN 0"

text \<open>The vector the Message-Authenticator is computed with, by the receiver and by the sender.\<close>

definition verify_ma_vector :: "nat \<Rightarrow> radius_packet option \<Rightarrow> byte list \<Rightarrow> byte list option" where
  "verify_ma_vector code original vector =
     (if code = PW_CODE_ACCOUNTING_RESPONSE
      then (case original of
              None \<Rightarrow> Some zeros
            | Some orig \<Rightarrow> Some (if r_code orig = PW_CODE_STATUS_SERVER then r_vector orig else zeros))
      else if code \<in> {PW_CODE_ACCOUNTING_REQUEST, PW_CODE_DISCONNECT_REQUEST, PW_CODE_COA_REQUEST} then Some zeros
      else if code \<in> {PW_CODE_ACCESS_ACCEPT, PW_CODE_ACCESS_REJECT, PW_CODE_ACCESS_CHALLENGE,
             PW_CODE_DISCONNECT_ACK, PW_CODE_DISCONNECT_NAK, PW_CODE_COA_ACK, PW_CODE_COA_NAK} then map_option r_vector original
      else Some vector)"

definition original_ok :: "radius_packet option \<Rightarrow> bool" where
  "original_ok original \<longleftrightarrow> (\<forall>orig. original = Some orig \<longrightarrow> length (r_vector orig) = 16)"

lemma zeros_length [simp]: "length zeros = 16"
  by (simp add: zeros_def AUTH_VECTOR_LEN_def)

lemma verify_vector_eq:
  assumes "20 \<le> length b"
  shows "verify_vector code original b =
    map_option (memcpy_at b 4) (verify_ma_vector code original (slice b 4 16))"
  using assms memcpy_at_same [of 4 16 b]
  by (auto simp: verify_vector_def verify_ma_vector_def zeros_def Let_def split: option.splits)

lemma verify_ma_vector_length:
  "verify_ma_vector code original vector = Some v \<Longrightarrow> original_ok original \<Longrightarrow> length vector = 16 \<Longrightarrow> length v = 16"
  by (auto simp: verify_ma_vector_def original_ok_def split: if_splits option.splits)

text \<open>A correct Message-Authenticator at offset \<open>i\<close>: the HMAC of the packet with its own value cleared.\<close>

definition ma_ok :: "byte list \<Rightarrow> radius_packet option \<Rightarrow> radius_packet \<Rightarrow> byte list \<Rightarrow> nat \<Rightarrow> bool" where
  "ma_ok secret original packet b i \<longleftrightarrow>
     (\<exists>v. verify_ma_vector (r_code packet) original (r_vector packet) = Some v \<and>
        slice b (i + 2) 16 = hmac md5 secret (take (r_data_len packet) (memcpy_at (memcpy_at b (i + 2) zeros) 4 v)))"

text \<open>A correct authenticator in the header.\<close>

definition auth_ok :: "byte list \<Rightarrow> radius_packet option \<Rightarrow> radius_packet \<Rightarrow> byte list \<Rightarrow> bool" where
  "auth_ok secret original packet b \<longleftrightarrow>
     (let digest = (\<lambda>v. md5 (take (r_data_len packet) (memcpy_at b 4 v) @ secret)); code = r_code packet
      in code \<in> {PW_CODE_ACCESS_REQUEST, PW_CODE_STATUS_SERVER} \<or>
         code \<in> {PW_CODE_ACCOUNTING_REQUEST, PW_CODE_DISCONNECT_REQUEST, PW_CODE_COA_REQUEST} \<and>
           r_vector packet = digest zeros \<or>
         code \<in> {PW_CODE_ACCESS_ACCEPT, PW_CODE_ACCESS_REJECT, PW_CODE_ACCESS_CHALLENGE,
             PW_CODE_ACCOUNTING_RESPONSE, PW_CODE_DISCONNECT_ACK, PW_CODE_DISCONNECT_NAK, PW_CODE_COA_ACK, PW_CODE_COA_NAK} \<and>
           (\<exists>orig. original = Some orig \<and> r_vector packet = digest (r_vector orig)))"

text \<open>A packet as \<open>rad_packet_ok\<close> leaves it, short enough for the digests.\<close>

definition received :: "radius_packet \<Rightarrow> byte list \<Rightarrow> (byte \<times> byte list) list \<Rightarrow> bool" where
  "received packet b as \<longleftrightarrow> r_data packet = Some b \<and> 20 \<le> r_data_len packet \<and> r_data_len packet \<le> length b \<and>
     r_data_len packet < 65536 \<and> r_vector packet = slice b 4 16 \<and> attrs_form as (slice b 20 (r_data_len packet - 20))"

definition short_secret :: "byte list \<Rightarrow> bool" where
  "short_secret secret \<longleftrightarrow> length secret < 2 ^ 28"

lemma packet_digest_md5:
  assumes "length junk = 64" "n < 65536" "short_secret secret"
  shows "packet_digest junk b n secret = md5 (take n b @ secret)"
  unfolding packet_digest_def using assms
  by (intro md5_two) (simp_all add: short_secret_def hash_limit_def)

lemma packet_hmac:
  assumes "length junk = 64" "n < 65536" "short_secret secret"
  shows "fr_hmac_md5 junk (take n b) secret = hmac md5 secret (take n b)"
  using assms by (intro fr_hmac_md5_eq) (simp_all add: short_secret_def hash_limit_def)

lemma hmac_length [simp]: "length (hmac md5 k x) = 16"
  by (simp add: hmac_def Let_def md5.hash_length)

lemma verify_ma_cases:
  assumes q: "received q b as" and i: "20 \<le> i" "i + 18 \<le> r_data_len q"
    and ok: "length junk = 64" "short_secret secret" "original_ok original"
  shows "\<exists>c q1. verify_ma junk original secret q b i = Some (c, q1) \<and>
    (c \<longleftrightarrow> ma_ok secret original q b i) \<and> (c \<longrightarrow> q1 = q)"
proof -
  let ?n = "r_data_len q" and ?x = "slice b (i + 2) 16"
  let ?b1 = "memcpy_at b (i + 2) zeros"
  have r: "r_data q = Some b" "?n \<le> length b" "?n < 65536" "r_vector q = slice b 4 16" "20 \<le> ?n"
    using q by (simp_all add: received_def)
  have lb: "i + 2 + 16 \<le> length b" "4 + 16 \<le> length b" using i r(2,5) by simp_all
  have b1: "length ?b1 = length b" using lb by (simp add: memcpy_at_length)
  have s1: "slice ?b1 4 16 = r_vector q" unfolding r(4)
    by (rule slice_memcpy_other) (use lb i in auto)
  have vv: "verify_vector (r_code q) original ?b1 =
      map_option (memcpy_at ?b1 4) (verify_ma_vector (r_code q) original (r_vector q))"
    using verify_vector_eq [of ?b1] lb b1 s1 by simp
  have guard: "\<not> (length b < i + 2 + AUTH_VECTOR_LEN \<or> length b < ?n)" using lb r(2) by (simp add: AUTH_VECTOR_LEN_def)
  show ?thesis
  proof (cases "verify_ma_vector (r_code q) original (r_vector q)")
    case None
    then show ?thesis
      using guard vv by (simp add: verify_ma_def ma_ok_def zeros_def Let_def) blast
  next
    case (Some v)
    let ?h = "hmac md5 secret (take ?n (memcpy_at ?b1 4 v))"
    have v: "length v = 16" using verify_ma_vector_length [OF Some ok(3)] r(4) lb by simp
    have x: "length ?x = 16" by (rule slice_length) (use lb in simp)
    have cmp: "rad_digest_cmp ?h ?x 16 = 0 \<longleftrightarrow> ?h = ?x" by (rule rad_digest_cmp_eq [OF hmac_length x])
    have restored: "memcpy_at (memcpy_at (memcpy_at ?b1 4 v) (i + 2) ?x) 4 (r_vector q) = b"
    proof -
      have "memcpy_at (memcpy_at ?b1 4 v) (i + 2) ?x = memcpy_at (memcpy_at ?b1 (i + 2) ?x) 4 v"
        by (rule memcpy_at_commute) (use v x i lb b1 in auto)
      also have "memcpy_at ?b1 (i + 2) ?x = b"
        using memcpy_at_twice [of "i + 2" zeros b ?x] x lb memcpy_at_same [of "i + 2" 16 b] by simp
      finally show ?thesis
        using memcpy_at_twice [of 4 v b "slice b 4 16"] v lb memcpy_at_same [of 4 16 b] r(4) by simp
    qed
    have q1: "q\<lparr>r_data := Some b\<rparr> = q" using r(1) by simp
    have "verify_ma junk original secret q b i =
        (if ?h = ?x then Some (True, q) else Some (False, q\<lparr>r_data := Some (memcpy_at ?b1 4 v)\<rparr>))"
      unfolding verify_ma_def if_not_P [OF guard] Let_def
      using vv Some cmp restored q1 packet_hmac [OF ok(1) r(3) ok(2)]
      by (simp add: zeros_def AUTH_VECTOR_LEN_def)
    moreover have "ma_ok secret original q b i \<longleftrightarrow> ?h = ?x" using Some by (auto simp: ma_ok_def)
    ultimately show ?thesis by auto
  qed
qed

lemma verify_loop_cases:
  assumes b: "r_data q = Some b" "attrs_form as (slice b ptr m)" "ptr + m \<le> length b"
    and ma: "\<And>i. i \<in> set (ma_offsets ptr as) \<Longrightarrow>
      \<exists>c q1. verify_ma junk original secret q b i = Some (c, q1) \<and> (c \<longleftrightarrow> P i) \<and> (c \<longrightarrow> q1 = q)"
  shows "\<exists>c q1. verify_loop junk original secret q ptr (int m) = Some (c, q1) \<and>
    (c \<longleftrightarrow> (\<forall>i\<in>set (ma_offsets ptr as). P i)) \<and> (c \<longrightarrow> q1 = q)"
  using b(2,3) ma
proof (induction as arbitrary: ptr m)
  case Nil
  then have "m = 0" using slice_length [of ptr m b] by (simp add: attrs_form_def)
  then show ?case by (subst verify_loop.simps) auto
next
  case (Cons a as)
  have m: "0 < m" using Cons.prems(1) by (cases a) (auto simp: attrs_form_def slice_def intro: gr0I)
  obtain t v as' where a0: "a # as = (t, v) # as'" "attr_ok (t, v)" "b ! ptr = t" "unat (b ! (ptr + 1)) = length v + 2"
    "length v + 2 \<le> m" "attrs_form as' (slice b (ptr + (length v + 2)) (m - (length v + 2)))"
    by (rule attrs_form_Cons [OF Cons.prems(1) m Cons.prems(2)])
  then have a: "a = (t, v)" "as' = as" by simp_all
  let ?l = "length v + 2"
  have IH: "\<exists>c q1. verify_loop junk original secret q (ptr + ?l) (int (m - ?l)) = Some (c, q1) \<and>
      (c \<longleftrightarrow> (\<forall>i\<in>set (ma_offsets (ptr + ?l) as). P i)) \<and> (c \<longrightarrow> q1 = q)"
    by (rule Cons.IH) (use a0(5,6) a Cons.prems in auto)
  have step: "verify_loop junk original secret q ptr (int m) =
     (case (if t = PW_MESSAGE_AUTHENTICATOR then verify_ma junk original secret q b ptr else Some (True, q)) of
        None \<Rightarrow> None
      | Some (go_on, q1) \<Rightarrow> if go_on then verify_loop junk original secret q1 (ptr + ?l) (int (m - ?l)) else Some (False, q1))"
    using m a0(3,4,5) b(1) Cons.prems(2)
    by (subst verify_loop.simps) (simp add: Let_def of_nat_diff split: option.split)
  show ?case
  proof (cases "t = PW_MESSAGE_AUTHENTICATOR")
    case False
    then show ?thesis using step IH a by simp
  next
    case True
    then obtain c q1 where c: "verify_ma junk original secret q b ptr = Some (c, q1)" "c \<longleftrightarrow> P ptr" "c \<longrightarrow> q1 = q"
      using Cons.prems(3) [of ptr] a by auto
    show ?thesis
    proof (cases c)
      case True
      then show ?thesis using step IH a c \<open>t = PW_MESSAGE_AUTHENTICATOR\<close> by simp
    next
      case False
      then show ?thesis using step a c \<open>t = PW_MESSAGE_AUTHENTICATOR\<close> by simp blast
    qed
  qed
qed

lemma ma_offsets_bound:
  assumes "\<forall>a\<in>set as. attr_ok a" "i \<in> set (ma_offsets ptr as)"
  shows "ptr \<le> i \<and> i + 18 \<le> ptr + length (concat (map attr_bytes as))"
  using assms
proof (induction as arbitrary: ptr)
  case (Cons a as)
  obtain t v where a: "a = (t, v)" by (cases a)
  show ?case
  proof (cases "i \<in> set (ma_offsets (ptr + (length v + 2)) as)")
    case True
    then show ?thesis using Cons.IH [OF _ True] Cons.prems(1) a by auto
  next
    case False
    then show ?thesis using Cons.prems a by (auto split: if_splits)
  qed
qed simp

lemma received_offsets:
  assumes "received q b as" "i \<in> set (ma_offsets 20 as)"
  shows "20 \<le> i" "i + 18 \<le> r_data_len q"
proof -
  have "length (slice b 20 (r_data_len q - 20)) = r_data_len q - 20"
    using assms(1) by (intro slice_length) (simp add: received_def)
  then have "length (concat (map attr_bytes as)) = r_data_len q - 20" "\<forall>a\<in>set as. attr_ok a"
    using assms(1) by (simp_all add: received_def attrs_form_def)
  then show "20 \<le> i" "i + 18 \<le> r_data_len q"
    using ma_offsets_bound [OF _ assms(2)] assms(1) by (auto simp: received_def)
qed

lemma verify_authenticator_cases:
  assumes q: "received q b as" and ok: "length junk = 64" "short_secret secret" "original_ok original"
    and code: "r_code q < 52"
  shows "\<exists>r q1. verify_authenticator junk q original secret = Some (r, q1) \<and> r \<in> {0, - 1} \<and>
    (r = 0 \<longleftrightarrow> auth_ok secret original q b)"
proof -
  let ?n = "r_data_len q"
  have r: "r_data q = Some b" "?n \<le> length b" "?n < 65536" "r_vector q = slice b 4 16" "20 \<le> ?n"
    using q by (simp_all add: received_def)
  have guard: "\<not> (length b < RADIUS_HDR_LEN \<or> length b < ?n)" using r by (simp add: RADIUS_HDR_LEN_def)
  have vl: "length (r_vector q) = 16" using r by simp
  have dig: "packet_digest junk b1 ?n secret = md5 (take ?n b1 @ secret)" for b1
    using packet_digest_md5 [OF ok(1) r(3) ok(2)] .
  have cmp: "rad_digest_cmp (md5 x) (r_vector q) 16 = 0 \<longleftrightarrow> md5 x = r_vector q"
    "rad_digest_cmp (r_vector q) (md5 x) 16 = 0 \<longleftrightarrow> r_vector q = md5 x" for x
    by (rule rad_digest_cmp_eq; simp add: vl md5.hash_length)+
  have acct: "\<exists>q1. calc_acctdigest junk q secret =
      Some (if r_vector q = md5 (take ?n (memcpy_at b 4 zeros) @ secret) then 0 else 2, q1)"
    unfolding calc_acctdigest_def r(1) option.case if_not_P [OF guard] Let_def dig
    using cmp(1) by (auto simp: AUTH_VECTOR_LEN_def zeros_def)
  have reply: "\<exists>q1. calc_replydigest junk q (Some orig) secret =
      Some (if r_vector q = md5 (take ?n (memcpy_at b 4 (r_vector orig)) @ secret) then 0 else 2, q1)" for orig
    unfolding calc_replydigest_def r(1) option.case if_not_P [OF guard] Let_def dig
    using cmp(2) by (auto simp: AUTH_VECTOR_LEN_def)
  have noreply: "calc_replydigest junk q None secret = Some (3, q)" by (simp add: calc_replydigest_def)
  have vz: "auth_ok secret original q b \<longleftrightarrow> r_vector q = md5 (take ?n (memcpy_at b 4 zeros) @ secret)"
    if "r_code q \<in> {PW_CODE_COA_REQUEST, PW_CODE_DISCONNECT_REQUEST, PW_CODE_ACCOUNTING_REQUEST}"
    using that by (auto simp: auth_ok_def Let_def)
  let ?replies = "{PW_CODE_ACCESS_ACCEPT, PW_CODE_ACCESS_REJECT, PW_CODE_ACCESS_CHALLENGE,
      PW_CODE_ACCOUNTING_RESPONSE, PW_CODE_DISCONNECT_ACK, PW_CODE_DISCONNECT_NAK, PW_CODE_COA_ACK, PW_CODE_COA_NAK}"
  consider "r_code q \<in> {PW_CODE_ACCESS_REQUEST, PW_CODE_STATUS_SERVER}"
    | "r_code q \<in> {PW_CODE_COA_REQUEST, PW_CODE_DISCONNECT_REQUEST, PW_CODE_ACCOUNTING_REQUEST}"
    | "r_code q \<in> ?replies"
    | "r_code q \<notin> {PW_CODE_ACCESS_REQUEST, PW_CODE_STATUS_SERVER} \<union>
        {PW_CODE_COA_REQUEST, PW_CODE_DISCONNECT_REQUEST, PW_CODE_ACCOUNTING_REQUEST} \<union> ?replies" by blast
  then show ?thesis
  proof cases
    case 1
    then show ?thesis by (auto simp: verify_authenticator_def auth_ok_def FR_MAX_PACKET_CODE_def)
  next
    case 2
    obtain q1 where "calc_acctdigest junk q secret =
        Some (if r_vector q = md5 (take ?n (memcpy_at b 4 zeros) @ secret) then 0 else 2, q1)" using acct by blast
    then have "verify_authenticator junk q original secret =
        Some (if r_vector q = md5 (take ?n (memcpy_at b 4 zeros) @ secret) then 0 else - 1, q1)"
      using 2 by (auto simp: verify_authenticator_def FR_MAX_PACKET_CODE_def)
    then show ?thesis unfolding vz [OF 2] by simp
  next
    case 3
    have run: "verify_authenticator junk q original secret =
        map_option (map_prod (\<lambda>rcode. if rcode > 1 then - 1 else 0) id) (calc_replydigest junk q original secret)"
      using 3 by (auto simp: verify_authenticator_def FR_MAX_PACKET_CODE_def)
    show ?thesis
    proof (cases original)
      case None
      then show ?thesis using 3 run noreply by (auto simp: auth_ok_def Let_def)
    next
      case (Some orig)
      obtain q1 where q1: "calc_replydigest junk q original secret =
          Some (if r_vector q = md5 (take ?n (memcpy_at b 4 (r_vector orig)) @ secret) then 0 else 2, q1)"
        using reply Some by blast
      have "auth_ok secret original q b \<longleftrightarrow> r_vector q = md5 (take ?n (memcpy_at b 4 (r_vector orig)) @ secret)"
        using 3 Some by (auto simp: auth_ok_def Let_def)
      then show ?thesis unfolding run q1 by simp
    qed
  next
    case 4
    then show ?thesis using code by (auto simp: verify_authenticator_def auth_ok_def FR_MAX_PACKET_CODE_def Let_def)
  qed
qed

lemma rad_verify_cases:
  assumes q: "received q b as" and code: "r_code q < 52"
    and ok: "length junk = 64" "short_secret secret" "original_ok original"
  shows "\<exists>r q1. rad_verify junk q original secret = Some (r, q1) \<and> r \<in> {0, - 1} \<and>
    (r = 0 \<longleftrightarrow> (\<forall>i\<in>set (ma_offsets 20 as). ma_ok secret original q b i) \<and> auth_ok secret original q b)"
proof -
  let ?n = "r_data_len q"
  have r: "r_data q = Some b" "attrs_form as (slice b 20 (?n - 20))" "20 + (?n - 20) \<le> length b" "20 \<le> ?n"
    using q by (auto simp: received_def)
  have len: "int ?n - int RADIUS_HDR_LEN = int (?n - 20)" using r(4) by (simp add: RADIUS_HDR_LEN_def of_nat_diff)
  obtain c q1 where c: "verify_loop junk original secret q 20 (int (?n - 20)) = Some (c, q1)"
    "c \<longleftrightarrow> (\<forall>i\<in>set (ma_offsets 20 as). ma_ok secret original q b i)" "c \<longrightarrow> q1 = q"
    using verify_loop_cases [OF r(1-3), of junk original secret "ma_ok secret original q b"]
      verify_ma_cases [OF q received_offsets [OF q] ok] by blast
  have run: "rad_verify junk q original secret =
      (if c then verify_authenticator junk q1 original secret else Some (- 1, q1))"
    using c(1) r(1) unfolding rad_verify_def len by (cases c) (simp_all add: RADIUS_HDR_LEN_def)
  show ?thesis
  proof (cases c)
    case True
    then have "q1 = q" using c(3) by blast
    then show ?thesis
      using run True c(2) verify_authenticator_cases [OF q ok code] by simp
  next
    case False
    then have "rad_verify junk q original secret = Some (- 1, q1)" using run by simp
    moreover have "\<not> (\<forall>i\<in>set (ma_offsets 20 as). ma_ok secret original q b i)" using c(2) False by blast
    ultimately show ?thesis by (intro exI [of _ "- 1"] exI [of _ q1]) simp
  qed
qed

section \<open>Signing\<close>

text \<open>The vector of the HMAC as the sender computes it.\<close>

definition sign_ma_vector :: "nat \<Rightarrow> radius_packet option \<Rightarrow> byte list \<Rightarrow> byte list option" where
  "sign_ma_vector code original vector =
     (if code \<in> {PW_CODE_DISCONNECT_ACK, PW_CODE_DISCONNECT_NAK, PW_CODE_COA_ACK, PW_CODE_COA_NAK} then Some zeros
      else verify_ma_vector code original vector)"

lemma sign_ma_buffer_eq:
  assumes "20 \<le> length b"
  shows "sign_ma_buffer code original b =
    map_option (memcpy_at b 4) (sign_ma_vector code original (slice b 4 16))"
  using assms memcpy_at_same [of 4 16 b]
  by (auto simp: sign_ma_buffer_def sign_ma_vector_def verify_ma_vector_def zeros_def Let_def
      option.map_comp o_def split: option.splits)

text \<open>A packet as the encoder leaves it, with the Message-Authenticator, if any, cleared.\<close>

definition encoded :: "radius_packet \<Rightarrow> byte list \<Rightarrow> (byte \<times> byte list) list \<Rightarrow> bool" where
  "encoded packet b as \<longleftrightarrow> received packet b as \<and> 0 \<le> r_id packet \<and> r_code packet < 52 \<and>
     (ma_offsets 20 as = [] \<and> r_offset packet = 0 \<or>
      (\<exists>i. ma_offsets 20 as = [i] \<and> r_offset packet = int i \<and> slice b (i + 2) 16 = zeros))"

lemma sign_vector_length:
  "sign_vector code original vector = Some v \<Longrightarrow> original_ok original \<Longrightarrow> length vector = 16 \<Longrightarrow> length v = 16"
  by (auto simp: sign_vector_def original_ok_def AUTH_VECTOR_LEN_def split: if_splits)

text \<open>Replacing the value of a Message-Authenticator keeps the attributes well formed.\<close>

lemma attrs_form_set_ma:
  assumes "attrs_form as (slice b ptr m)" "ptr + m \<le> length b" "i \<in> set (ma_offsets ptr as)" "length y = 16"
  shows "\<exists>as'. attrs_form as' (slice (memcpy_at b (i + 2) y) ptr m) \<and> ma_offsets ptr as' = ma_offsets ptr as"
  using assms(1-3)
proof (induction as arbitrary: ptr m)
  case (Cons a as)
  have form: "\<forall>a\<in>set (a # as). attr_ok a" "length (concat (map attr_bytes (a # as))) = m"
    using Cons.prems(1) slice_length [OF Cons.prems(2)] unfolding attrs_form_def by (blast, metis)
  have m: "0 < m" using form(2) by (cases a) auto
  note bound = ma_offsets_bound [OF form(1) Cons.prems(3), unfolded form(2)]
  obtain t v as' where o: "a # as = (t, v) # as'" "attr_ok (t, v)" "b ! ptr = t" "unat (b ! (ptr + 1)) = length v + 2"
    "length v + 2 \<le> m" "attrs_form as' (slice b (ptr + (length v + 2)) (m - (length v + 2)))"
    "slice b ptr m = attr_bytes (t, v) @ concat (map attr_bytes as')"
    by (rule attrs_form_Cons [OF Cons.prems(1) m Cons.prems(2)])
  then have a: "a = (t, v)" "as' = as" by simp_all
  let ?l = "length v + 2" and ?b = "memcpy_at b (i + 2) y"
  have lb: "length ?b = length b" using bound Cons.prems(2) assms(4) by (simp add: memcpy_at_length)
  have split: "slice c ptr m = slice c ptr ?l @ slice c (ptr + ?l) (m - ?l)" for c :: "byte list"
  proof -
    obtain k where k: "m = ?l + k" using o(5) le_Suc_ex by blast
    show ?thesis unfolding slice_def k take_add drop_drop diff_add_inverse by (simp only: add.commute)
  qed
  have b1: "slice b ptr ?l = attr_bytes (t, v)"
    using o(7) slice_parts(1) [of ?l b ptr m] o(5) by simp
  show ?case
  proof (cases "i \<in> set (ma_offsets (ptr + ?l) as)")
    case True
    have off: "ptr + ?l \<le> i"
      using ma_offsets_bound [OF _ True] form(1) by auto
    obtain as2 where as2: "attrs_form as2 (slice ?b (ptr + ?l) (m - ?l))"
      "ma_offsets (ptr + ?l) as2 = ma_offsets (ptr + ?l) as"
    proof -
      have rest: "attrs_form as (slice b (ptr + ?l) (m - ?l))" using o(6) a(2) by simp
      have le: "ptr + ?l + (m - ?l) \<le> length b" using o(5) Cons.prems(2) by simp
      show thesis using Cons.IH [OF rest le True] that by blast
    qed
    have "slice ?b ptr ?l = slice b ptr ?l"
      by (rule slice_memcpy_other) (use off bound Cons.prems(2) assms(4) o(5) in auto)
    then have "attrs_form ((t, v) # as2) (slice ?b ptr m)"
      using as2(1) o(2) b1 unfolding split attrs_form_def by (simp del: attr_ok.simps attr_bytes.simps)
    then show ?thesis using as2(2) a by (intro exI [of _ "(t, v) # as2"]) simp
  next
    case False
    then have i: "i = ptr" "t = PW_MESSAGE_AUTHENTICATOR" using Cons.prems(3) a by (auto split: if_splits)
    then have v: "length v = 16" using o(2) by simp
    have "slice ?b (ptr + ?l) (m - ?l) = slice b (ptr + ?l) (m - ?l)"
      by (rule slice_memcpy_other) (use i v bound Cons.prems(2) assms(4) o(5) in auto)
    moreover have "slice ?b ptr ?l = attr_bytes (t, y)"
    proof -
      have two: "slice c ptr ?l = slice c ptr 2 @ slice c (ptr + 2) 16" for c :: "byte list"
        using v take_add [of 2 16 "drop ptr c"] by (simp add: slice_def add.commute)
      have "slice ?b ptr 2 = slice b ptr 2"
        by (rule slice_memcpy_other) (use i bound Cons.prems(2) assms(4) in auto)
      moreover have "slice b ptr 2 = [t, word_of_nat (length v + 2)]"
        using b1 slice_parts(1) [of 2 b ptr ?l] by (simp add: numeral_2_eq_2)
      moreover have "slice ?b (ptr + 2) 16 = y"
        using slice_memcpy_at [of "i + 2" y b] i bound Cons.prems(2) assms(4) by simp
      ultimately show ?thesis using two v assms(4) by simp
    qed
    ultimately have "attrs_form ((t, y) # as) (slice ?b ptr m)"
      using o(2,6) a v assms(4) unfolding split attrs_form_def by simp
    then show ?thesis using a v assms(4) by (intro exI [of _ "(t, y) # as"]) simp
  qed
qed simp

lemma sign_ma_cases:
  assumes e: "encoded p b as" and ok: "length junk = 64" "short_secret secret" "original_ok original"
    and v: "sign_ma_vector (r_code p) original (r_vector p) = Some v1"
  defines "b0 \<equiv> (case ma_offsets 20 as of [] \<Rightarrow> b
    | i # _ \<Rightarrow> memcpy_at b (i + 2) (hmac md5 secret (take (r_data_len p) (memcpy_at b 4 v1))))"
  shows "\<exists>b1. sign_ma junk original secret p b = Some b1 \<and>
      (\<forall>w. length w = 16 \<longrightarrow> memcpy_at b1 4 w = memcpy_at b0 4 w) \<and> length b1 = length b"
    and "length b0 = length b"
    and "\<exists>as'. attrs_form as' (slice b0 20 (r_data_len p - 20)) \<and> ma_offsets 20 as' = ma_offsets 20 as"
proof -
  let ?n = "r_data_len p"
  have r: "received p b as" "20 \<le> ?n" "?n \<le> length b" "?n < 65536" "r_vector p = slice b 4 16"
    "attrs_form as (slice b 20 (?n - 20))"
    using e by (simp_all add: encoded_def received_def)
  have lv: "length v1 = 16"
    using v verify_ma_vector_length [of "r_code p" original "r_vector p" v1] ok(3) r(2,3,5)
    by (auto simp: sign_ma_vector_def split: if_splits)
  have buf: "sign_ma_buffer (r_code p) original b = Some (memcpy_at b 4 v1)"
    using sign_ma_buffer_eq [of b "r_code p" original] v r(2,3,5) by simp
  have "(\<exists>b1. sign_ma junk original secret p b = Some b1 \<and>
      (\<forall>w. length w = 16 \<longrightarrow> memcpy_at b1 4 w = memcpy_at b0 4 w) \<and> length b1 = length b) \<and> length b0 = length b \<and>
    (\<exists>as'. attrs_form as' (slice b0 20 (?n - 20)) \<and> ma_offsets 20 as' = ma_offsets 20 as)"
  proof (cases "ma_offsets 20 as")
    case Nil
    then have "r_offset p = 0" using e by (auto simp: encoded_def)
    then show ?thesis using Nil r(6) by (auto simp: sign_ma_def b0_def)
  next
    case (Cons i l)
    then have off: "r_offset p = int i" "l = []" using e by (auto simp: encoded_def)
    have i: "20 \<le> i" "i + 18 \<le> ?n" using received_offsets [OF r(1), of i] Cons by auto
    let ?M = "hmac md5 secret (take ?n (memcpy_at b 4 v1))"
    have b0: "b0 = memcpy_at b (i + 2) ?M" using Cons by (simp add: b0_def)
    have run: "sign_ma junk original secret p b = Some (memcpy_at (memcpy_at b 4 v1) (i + 2) ?M)"
      using i off buf packet_hmac [OF ok(1) r(4) ok(2)] by (simp add: sign_ma_def Let_def)
    have com: "memcpy_at (memcpy_at b 4 v1) (i + 2) ?M = memcpy_at b0 4 v1"
      unfolding b0 by (rule memcpy_at_commute) (use i r(3) lv in auto)
    have l0: "length b0 = length b" unfolding b0 using i r(3) by (simp add: memcpy_at_length)
    have "memcpy_at (memcpy_at b0 4 v1) 4 w = memcpy_at b0 4 w" if "length w = 16" for w
      by (rule memcpy_at_twice) (use that lv r(2,3) l0 in auto)
    moreover have "length (memcpy_at b0 4 v1) = length b" using l0 lv r(2,3) by (simp add: memcpy_at_length)
    moreover have "\<exists>as'. attrs_form as' (slice b0 20 (?n - 20)) \<and> ma_offsets 20 as' = ma_offsets 20 as"
      unfolding b0 by (rule attrs_form_set_ma [OF r(6)]) (use r(2,3) Cons in auto)
    ultimately show ?thesis using run l0 unfolding com by blast
  qed
  then show "\<exists>b1. sign_ma junk original secret p b = Some b1 \<and>
      (\<forall>w. length w = 16 \<longrightarrow> memcpy_at b1 4 w = memcpy_at b0 4 w) \<and> length b1 = length b"
    "length b0 = length b"
    "\<exists>as'. attrs_form as' (slice b0 20 (r_data_len p - 20)) \<and> ma_offsets 20 as' = ma_offsets 20 as"
    by blast+
qed

lemma rad_sign_cases:
  assumes e: "encoded p b as" and ok: "length junk = 64" "short_secret secret" "original_ok original"
    and v: "sign_ma_vector (r_code p) original (r_vector p) = Some v1" "sign_vector (r_code p) original (r_vector p) = Some v2"
  defines "b0 \<equiv> (case ma_offsets 20 as of [] \<Rightarrow> b
    | i # _ \<Rightarrow> memcpy_at b (i + 2) (hmac md5 secret (take (r_data_len p) (memcpy_at b 4 v1))))"
  defines "D \<equiv> (if r_code p \<in> {PW_CODE_ACCESS_REQUEST, PW_CODE_STATUS_SERVER} then v2
    else md5 (take (r_data_len p) (memcpy_at b0 4 v2) @ secret))"
  shows "rad_sign junk p original secret = Some (0, p\<lparr>r_vector := D, r_data := Some (memcpy_at b0 4 D)\<rparr>)"
    and "length D = 16"
proof -
  let ?n = "r_data_len p"
  have r: "r_data p = Some b" "20 \<le> ?n" "?n \<le> length b" "?n < 65536" "r_vector p = slice b 4 16"
    "0 \<le> r_id p" "0 \<le> r_offset p"
    using e by (auto simp: encoded_def received_def)
  have l2: "length v2 = 16" using sign_vector_length [OF v(2) ok(3)] r(2,3,5) by simp
  then show lD: "length D = 16" by (simp add: D_def md5.hash_length)
  obtain b1 where b1: "sign_ma junk original secret p b = Some b1" "\<And>w. length w = 16 \<Longrightarrow> memcpy_at b1 4 w = memcpy_at b0 4 w"
    "length b1 = length b" using sign_ma_cases(1) [OF e ok v(1)] unfolding b0_def by blast
  have g: "\<not> r_id p < 0" "\<not> (?n < RADIUS_HDR_LEN \<or> r_offset p < 0)" "\<not> length b < ?n"
    using r by (simp_all add: RADIUS_HDR_LEN_def)
  have dig: "packet_digest junk c ?n secret = md5 (take ?n c @ secret)" for c
    by (rule packet_digest_md5 [OF ok(1) r(4) ok(2)])
  have twice: "memcpy_at (memcpy_at b1 4 v2) 4 D = memcpy_at b0 4 D"
    using memcpy_at_twice [of 4 v2 b1 D] l2 lD b1(2,3) r(2,3) by simp
  have D: "D = md5 (take ?n (memcpy_at b0 4 v2) @ secret)"
    if "r_code p \<notin> {PW_CODE_ACCESS_REQUEST, PW_CODE_STATUS_SERVER}"
    using that by (simp add: D_def)
  have D': "D = v2" if "r_code p \<in> {PW_CODE_ACCESS_REQUEST, PW_CODE_STATUS_SERVER}"
    using that by (auto simp: D_def)
  show "rad_sign junk p original secret = Some (0, p\<lparr>r_vector := D, r_data := Some (memcpy_at b0 4 D)\<rparr>)"
    unfolding rad_sign_def if_not_P [OF g(1)] r(1) option.case if_not_P [OF g(2)] if_not_P [OF g(3)] v(2) b1(1) Let_def dig
    using twice unfolding b1(2) [OF l2]
    by (cases "r_code p \<in> {PW_CODE_ACCESS_REQUEST, PW_CODE_STATUS_SERVER}")
      (simp_all only: D D' if_True if_False simp_thms)
qed

abbreviation reply_codes :: "nat set" where
  "reply_codes \<equiv> {PW_CODE_ACCESS_ACCEPT, PW_CODE_ACCESS_REJECT, PW_CODE_ACCESS_CHALLENGE,
     PW_CODE_ACCOUNTING_RESPONSE, PW_CODE_DISCONNECT_ACK, PW_CODE_DISCONNECT_NAK, PW_CODE_COA_ACK, PW_CODE_COA_NAK}"

abbreviation signed_request_codes :: "nat set" where
  "signed_request_codes \<equiv> {PW_CODE_ACCOUNTING_REQUEST, PW_CODE_DISCONNECT_REQUEST, PW_CODE_COA_REQUEST}"

abbreviation plain_request_codes :: "nat set" where
  "plain_request_codes \<equiv> {PW_CODE_ACCESS_REQUEST, PW_CODE_STATUS_SERVER}"

text \<open>The response authenticator of a signed packet is correct.\<close>

lemma signed_auth_ok:
  assumes code: "r_code p \<in> plain_request_codes \<union> signed_request_codes \<union> reply_codes"
    and v2: "sign_vector (r_code p) original (r_vector p) = Some v2" and l: "original_ok original" "length D = 16"
      "20 \<le> length b0"
    and D: "D = (if r_code p \<in> plain_request_codes then v2 else md5 (take (r_data_len p) (memcpy_at b0 4 v2) @ secret))"
    and q: "r_data_len q = r_data_len p" "r_code q = r_code p" "r_vector q = D"
  shows "auth_ok secret original q (memcpy_at b0 4 D)"
proof -
  have tw: "memcpy_at (memcpy_at b0 4 D) 4 w = memcpy_at b0 4 w" if "length w = 16" for w
    by (rule memcpy_at_twice) (use that l in auto)
  consider "r_code p \<in> plain_request_codes" | "r_code p \<in> signed_request_codes" | "r_code p \<in> reply_codes"
    using code by blast
  then show ?thesis
  proof cases
    case 1
    then show ?thesis using q by (auto simp: auth_ok_def)
  next
    case 2
    then have v: "v2 = zeros" using v2 by (auto simp: sign_vector_def zeros_def AUTH_VECTOR_LEN_def)
    have "D = md5 (take (r_data_len p) (memcpy_at b0 4 zeros) @ secret)" using 2 D v by auto
    then show ?thesis using 2 q tw [OF zeros_length] by (auto simp: auth_ok_def Let_def)
  next
    case 3
    then obtain orig where o: "original = Some orig" "v2 = r_vector orig"
      using v2 by (auto simp: sign_vector_def)
    then have lo: "length (r_vector orig) = 16" using l(1) by (simp add: original_ok_def)
    have "D = md5 (take (r_data_len p) (memcpy_at b0 4 (r_vector orig)) @ secret)" using 3 D o(2) by auto
    then show ?thesis using 3 q o(1) tw [OF lo] by (auto simp: auth_ok_def Let_def)
  qed
qed

lemma verify_vector_stable:
  assumes "r_code p \<in> plain_request_codes \<union> signed_request_codes \<union> reply_codes"
    and "sign_vector (r_code p) original (r_vector p) = Some v2" "r_code p \<in> plain_request_codes \<Longrightarrow> D = v2"
  shows "verify_ma_vector (r_code p) original D = verify_ma_vector (r_code p) original (r_vector p)"
  using assms by (auto simp: verify_ma_vector_def sign_vector_def)

lemma sign_then_verify:
  assumes e: "encoded p b as" and ok: "length junk = 64" "length junk' = 64" "short_secret secret" "original_ok original"
    and code: "r_code p \<in> plain_request_codes \<union> signed_request_codes \<union> reply_codes"
    and v: "sign_ma_vector (r_code p) original (r_vector p) = Some v1"
      "sign_vector (r_code p) original (r_vector p) = Some v2"
      "verify_ma_vector (r_code p) original (r_vector p) = Some w"
  shows "\<exists>p'. rad_sign junk p original secret = Some (0, p') \<and>
    (\<forall>q. r_data q = r_data p' \<and> r_data_len q = r_data_len p' \<and> r_code q = r_code p' \<and> r_vector q = r_vector p' \<longrightarrow>
      (\<exists>r q1. rad_verify junk' q original secret = Some (r, q1) \<and> r \<in> {0, - 1} \<and>
        (r = 0 \<longleftrightarrow> ma_offsets 20 as = [] \<or>
          hmac md5 secret (take (r_data_len p) (memcpy_at b 4 v1)) =
          hmac md5 secret (take (r_data_len p) (memcpy_at b 4 w)))))"
proof -
  let ?n = "r_data_len p" and ?h = "\<lambda>x. hmac md5 secret (take (r_data_len p) (memcpy_at b 4 x))"
  define b0 where "b0 = (case ma_offsets 20 as of [] \<Rightarrow> b | i # _ \<Rightarrow> memcpy_at b (i + 2) (?h v1))"
  define D where "D = (if r_code p \<in> plain_request_codes then v2 else md5 (take ?n (memcpy_at b0 4 v2) @ secret))"
  note sc = sign_ma_cases [OF e ok(1,3,4) v(1), folded b0_def]
  have sign: "rad_sign junk p original secret = Some (0, p\<lparr>r_vector := D, r_data := Some (memcpy_at b0 4 D)\<rparr>)"
    and lD: "length D = 16"
    using rad_sign_cases [OF e ok(1,3,4) v(1,2)] unfolding b0_def D_def by blast+
  have r: "received p b as" "20 \<le> ?n" "?n \<le> length b" "?n < 65536" "r_vector p = slice b 4 16" "r_code p < 52"
    using e by (simp_all add: encoded_def received_def)
  have l0: "length b0 = length b" by (rule sc(2))
  obtain as' where as': "attrs_form as' (slice b0 20 (?n - 20))" "ma_offsets 20 as' = ma_offsets 20 as" using sc(3) by blast
  let ?b = "memcpy_at b0 4 D"
  have lb: "length ?b = length b" using l0 lD r(2,3) by (simp add: memcpy_at_length)
  have sl: "slice ?b 20 (?n - 20) = slice b0 20 (?n - 20)"
    by (rule slice_memcpy_other) (use lD l0 r(2,3) in auto)
  have sD: "slice ?b 4 16 = D" using slice_memcpy_at [of 4 D b0] lD l0 r(2,3) by simp
  have lw: "length w = 16" using verify_ma_vector_length [OF v(3) ok(4)] r(2,3,5) by simp
  have "\<exists>rc q1. rad_verify junk' q original secret = Some (rc, q1) \<and> rc \<in> {0, - 1} \<and>
      (rc = 0 \<longleftrightarrow> ma_offsets 20 as = [] \<or> ?h v1 = ?h w)"
    if q: "r_data q = Some ?b" "r_data_len q = ?n" "r_code q = r_code p" "r_vector q = D" for q
  proof -
    have rq: "received q ?b as'" using q as'(1) lb r(2-4) sl sD by (simp add: received_def)
    have auth: "auth_ok secret original q ?b"
      by (rule signed_auth_ok [OF code v(2) ok(4) lD _ D_def q(2-4)]) (use l0 r(2,3) in simp)
    have vw: "verify_ma_vector (r_code q) original (r_vector q) = Some w"
      using verify_vector_stable [OF code v(2), of D] v(3) q(3,4) by (auto simp: D_def)
    have ma: "ma_ok secret original q ?b i \<longleftrightarrow> ?h v1 = ?h w" if i: "ma_offsets 20 as = [i]" for i
    proof -
      have bi: "20 \<le> i" "i + 18 \<le> ?n" using received_offsets [OF r(1), of i] i by auto
      have z: "slice b (i + 2) 16 = zeros" using e i by (auto simp: encoded_def)
      have b0: "b0 = memcpy_at b (i + 2) (?h v1)" using i by (simp add: b0_def)
      have "slice ?b (i + 2) 16 = slice b0 (i + 2) 16"
        by (rule slice_memcpy_other) (use lD l0 bi r(3) in auto)
      also have "\<dots> = ?h v1" using slice_memcpy_at [of "i + 2" "?h v1" b] bi r(3) by (simp add: b0)
      finally have s: "slice ?b (i + 2) 16 = ?h v1" .
      have "memcpy_at ?b (i + 2) zeros = memcpy_at (memcpy_at b0 (i + 2) zeros) 4 D"
        by (rule memcpy_at_commute) (use lD l0 bi r(3) in auto)
      also have "memcpy_at b0 (i + 2) zeros = memcpy_at b (i + 2) zeros"
        unfolding b0 by (rule memcpy_at_twice) (use bi r(3) in auto)
      also have "\<dots> = b" using memcpy_at_same [of "i + 2" 16 b] z bi r(3) by simp
      finally have "memcpy_at (memcpy_at ?b (i + 2) zeros) 4 w = memcpy_at b 4 w"
        using memcpy_at_twice [of 4 D b w] lD lw r(2,3) by simp
      then show ?thesis using vw s q(2) by (simp add: ma_ok_def)
    qed
    have "(\<forall>i\<in>set (ma_offsets 20 as'). ma_ok secret original q ?b i) \<longleftrightarrow> ma_offsets 20 as = [] \<or> ?h v1 = ?h w"
      using ma e unfolding as'(2) by (auto simp: encoded_def)
    then show ?thesis
      using rad_verify_cases [OF rq _ ok(2,3,4)] q(3) r(6) auth by simp
  qed
  then show ?thesis using sign by (intro exI [of _ "p\<lparr>r_vector := D, r_data := Some ?b\<rparr>"]) simp
qed

section \<open>Properties\<close>

text \<open>
  C1: a packet that \<^verbatim>\<open>rad_packet_ok\<close> accepts is verified safely: \<^verbatim>\<open>rad_verify\<close> ends, stays
  inside the buffer and returns 0 or -1; it returns 0 exactly when every Message-Authenticator is the
  HMAC of the packet with that value cleared and the vector its code asks for, and the authenticator
  of the header is the digest its code asks for (an unknown code fails).
\<close>

theorem verify_exact:
  assumes "r_data p = Some b" "r_data_len p \<le> length b" "r_data_len p < 65536"
    and "rad_packet_ok mx p flags = Some (DECODE_FAIL_NONE, p')"
    and "length junk = 64" "short_secret secret" "original_ok original"
  shows "\<exists>b' as r q1. r_data p' = Some b' \<and> attrs_form as (slice b' 20 (r_data_len p' - 20)) \<and>
    rad_verify junk p' original secret = Some (r, q1) \<and> r \<in> {0, - 1} \<and>
    (r = 0 \<longleftrightarrow> (\<forall>i\<in>set (ma_offsets 20 as). ma_ok secret original p' b' i) \<and> auth_ok secret original p' b')"
proof -
  let ?n = "packet_totallen b"
  have len: "20 \<le> r_data_len p" using assms(4) by (simp add: rad_packet_ok_def RADIUS_HDR_LEN_def split: if_splits)
  obtain b1 as where p': "p' = p\<lparr>r_data := Some b1, r_data_len := ?n, r_code := unat (b ! 0),
      r_id := int (unat (b ! 1)), r_vector := take 16 (drop 4 b)\<rparr>"
    and b1: "take ?n b1 = take ?n b" "length b1 = length b" and form: "packet_form mx flags (r_data_len p) b as"
    using rad_packet_ok_cases [OF assms(1,2) len, of mx flags] assms(4) by auto
  have n: "20 \<le> ?n" "?n \<le> r_data_len p" "unat (b ! 0) < 52" "attrs_form as (slice b 20 (?n - 20))"
    using form by (simp_all add: packet_form_def Let_def)
  have s: "slice b1 20 (?n - 20) = slice b 20 (?n - 20)" "slice b1 4 16 = slice b 4 16"
    by (rule slice_take [OF _ b1(1)]; use n in simp)+
  have rc: "received p' b1 as"
    using n s b1(2) assms(2,3) by (simp add: received_def p' slice_def)
  have "r_code p' < 52" using n(3) by (simp add: p')
  from rad_verify_cases [OF rc this assms(5-7)] show ?thesis
    using rc unfolding received_def by blast
qed

theorem verify_exact_witness:
  "\<exists>p' r q1. rad_packet_ok 0 (demo_packet ([1, 7, 0, 25] @ replicate 16 9 @ [1, 5, 0x62, 0x6f, 0x62])) 0 =
      Some (DECODE_FAIL_NONE, p') \<and> rad_verify (replicate 64 0) p' None [1, 2] = Some (r, q1)"
proof -
  let ?b = "[1, 7, 0, 25] @ replicate 16 9 @ [1, 5, 0x62, 0x6f, 0x62] :: byte list"
  have "map_option fst (rad_packet_ok 0 (demo_packet ?b) 0) = Some DECODE_FAIL_NONE" by code_simp
  then obtain p' where p': "rad_packet_ok 0 (demo_packet ?b) 0 = Some (DECODE_FAIL_NONE, p')" by auto
  show ?thesis
    using verify_exact [OF _ _ _ p', of ?b "replicate 64 0" "[1, 2]" None] p'
    by (auto simp: demo_packet_def short_secret_def original_ok_def)
qed

text \<open>
  C13: a packet that \<^verbatim>\<open>rad_sign\<close> has signed is accepted by \<^verbatim>\<open>rad_verify\<close> of a peer that holds
  the same secret and, for a reply, the same request: for every known code, without a
  Message-Authenticator or, except in the replies to CoA and Disconnect requests, with one.
\<close>

theorem sign_verify:
  assumes "encoded p b as" "length junk = 64" "length junk' = 64" "short_secret secret" "original_ok original"
    and "r_code p \<in> plain_request_codes \<union> signed_request_codes \<union> reply_codes"
    and "r_code p \<in> reply_codes \<longrightarrow> original \<noteq> None"
    and "ma_offsets 20 as = [] \<or> r_code p \<notin> {PW_CODE_DISCONNECT_ACK, PW_CODE_DISCONNECT_NAK, PW_CODE_COA_ACK, PW_CODE_COA_NAK}"
  shows "\<exists>p'. rad_sign junk p original secret = Some (0, p') \<and>
    (\<forall>q. r_data q = r_data p' \<and> r_data_len q = r_data_len p' \<and> r_code q = r_code p' \<and> r_vector q = r_vector p' \<longrightarrow>
      (\<exists>q1. rad_verify junk' q original secret = Some (0, q1)))"
proof -
  obtain v2 where v2: "sign_vector (r_code p) original (r_vector p) = Some v2"
    using assms(6,7) by (cases original) (auto simp: sign_vector_def)
  obtain w where w: "verify_ma_vector (r_code p) original (r_vector p) = Some w"
    using assms(6,7) by (cases original) (auto simp: verify_ma_vector_def)
  obtain v1 where v1: "sign_ma_vector (r_code p) original (r_vector p) = Some v1"
    using w by (cases "r_code p \<in> {PW_CODE_DISCONNECT_ACK, PW_CODE_DISCONNECT_NAK, PW_CODE_COA_ACK, PW_CODE_COA_NAK}")
      (simp_all only: sign_ma_vector_def if_True if_False)
  have "ma_offsets 20 as = [] \<or> v1 = w" using assms(8) v1 w by (auto simp: sign_ma_vector_def)
  then have eq: "ma_offsets 20 as = [] \<or> hmac md5 secret (take (r_data_len p) (memcpy_at b 4 v1)) =
      hmac md5 secret (take (r_data_len p) (memcpy_at b 4 w))" by blast
  obtain p' where s: "rad_sign junk p original secret = Some (0, p')"
    and ver: "\<And>q. r_data q = r_data p' \<and> r_data_len q = r_data_len p' \<and> r_code q = r_code p' \<and> r_vector q = r_vector p' \<Longrightarrow>
      \<exists>r q1. rad_verify junk' q original secret = Some (r, q1) \<and> r = 0"
    using sign_then_verify [OF assms(1-6) v1 v2 w] by (simp only: eq simp_thms) blast
  have "\<exists>q1. rad_verify junk' q original secret = Some (0, q1)"
    if "r_data q = r_data p' \<and> r_data_len q = r_data_len p' \<and> r_code q = r_code p' \<and> r_vector q = r_vector p'" for q
    using ver [OF that] by auto
  then show ?thesis using s by blast
qed

text \<open>An Access-Request whose only attribute is an empty Message-Authenticator.\<close>

definition demo_request :: radius_packet where
  "demo_request = \<lparr>r_code = 1, r_id = 7, r_vector = replicate 16 9,
     r_data = Some ([1, 7, 0, 38] @ replicate 16 9 @ [80, 18] @ zeros), r_data_len = 38, r_offset = 20\<rparr>"

lemma demo_encoded:
  assumes "c < 52"
  shows "encoded (demo_request\<lparr>r_code := c\<rparr>) ([1, 7, 0, 38] @ replicate 16 9 @ [80, 18] @ zeros)
    [(PW_MESSAGE_AUTHENTICATOR, zeros)]"
  using assms by (simp add: encoded_def received_def demo_request_def attrs_form_def slice_def
      PW_MESSAGE_AUTHENTICATOR_def zeros_def AUTH_VECTOR_LEN_def)

theorem sign_verify_witness:
  "\<exists>p' q1. rad_sign (replicate 64 0) demo_request None [1, 2] = Some (0, p') \<and>
     rad_verify (replicate 64 5) p' None [1, 2] = Some (0, q1)"
  using sign_verify [OF demo_encoded [of 1], of "replicate 64 0" "replicate 64 5" "[1, 2]" None]
  by (auto simp: demo_request_def short_secret_def original_ok_def)

text \<open>
  The replies to CoA and Disconnect requests (codes 41, 42, 44 and 45) are the exception. The
  sender computes their Message-Authenticator with a cleared authenticator, the receiver with the
  authenticator of the request, so that a signed reply with a Message-Authenticator is rejected by
  the same code unless the two HMACs happen to be equal.
\<close>

lemma coa_reply_rejected:
  assumes "encoded p b as" "length junk = 64" "length junk' = 64" "short_secret secret"
    and "original = Some orig" "length (r_vector orig) = 16"
    and "r_code p \<in> {PW_CODE_DISCONNECT_ACK, PW_CODE_DISCONNECT_NAK, PW_CODE_COA_ACK, PW_CODE_COA_NAK}"
    and "ma_offsets 20 as = [i]"
  shows "\<exists>p' r q1. rad_sign junk p original secret = Some (0, p') \<and> rad_verify junk' p' original secret = Some (r, q1) \<and>
    r = (if hmac md5 secret (take (r_data_len p) (memcpy_at b 4 zeros)) =
            hmac md5 secret (take (r_data_len p) (memcpy_at b 4 (r_vector orig))) then 0 else - 1)"
proof -
  have oo: "original_ok original" using assms(5,6) by (simp add: original_ok_def)
  have c: "r_code p \<in> plain_request_codes \<union> signed_request_codes \<union> reply_codes" using assms(7) by auto
  have v: "sign_ma_vector (r_code p) original (r_vector p) = Some zeros"
    "sign_vector (r_code p) original (r_vector p) = Some (r_vector orig)"
    "verify_ma_vector (r_code p) original (r_vector p) = Some (r_vector orig)"
    using assms(5,7) by (auto simp: sign_ma_vector_def sign_vector_def verify_ma_vector_def)
  obtain p' where s: "rad_sign junk p original secret = Some (0, p')"
    "\<exists>r q1. rad_verify junk' p' original secret = Some (r, q1) \<and> r \<in> {0, - 1} \<and>
      (r = 0 \<longleftrightarrow> ma_offsets 20 as = [] \<or>
        hmac md5 secret (take (r_data_len p) (memcpy_at b 4 zeros)) =
        hmac md5 secret (take (r_data_len p) (memcpy_at b 4 (r_vector orig))))"
    using sign_then_verify [OF assms(1-4) oo c v] by blast
  then obtain r q1 where r: "rad_verify junk' p' original secret = Some (r, q1)" "r = 0 \<or> r = - 1"
      "r = 0 \<longleftrightarrow> hmac md5 secret (take (r_data_len p) (memcpy_at b 4 zeros)) =
        hmac md5 secret (take (r_data_len p) (memcpy_at b 4 (r_vector orig)))"
    using assms(8) by auto
  have "r = (if hmac md5 secret (take (r_data_len p) (memcpy_at b 4 zeros)) =
            hmac md5 secret (take (r_data_len p) (memcpy_at b 4 (r_vector orig))) then 0 else - 1)"
    using r(2,3) by auto
  then show ?thesis using s(1) r(1) by blast
qed

lemma coa_reply_rejected_witness:
  "\<exists>p' r q1. rad_sign (replicate 64 0) (demo_request\<lparr>r_code := 44\<rparr>) (Some demo_request) [1, 2] = Some (0, p') \<and>
     rad_verify (replicate 64 5) p' (Some demo_request) [1, 2] = Some (r, q1) \<and>
     r = (if hmac md5 [1, 2] ([1, 7, 0, 38] @ zeros @ [80, 18] @ zeros) =
             hmac md5 [1, 2] ([1, 7, 0, 38] @ replicate 16 9 @ [80, 18] @ zeros) then 0 else - 1)"
proof -
  have m: "take 38 (memcpy_at ([1, 7, 0, 38] @ replicate 16 9 @ [80, 18] @ zeros) 4 zeros) =
      [1, 7, 0, 38] @ zeros @ [80, 18] @ zeros"
    "take 38 (memcpy_at ([1, 7, 0, 38] @ replicate 16 9 @ [80, 18] @ zeros) 4 (replicate 16 9)) =
      [1, 7, 0, 38] @ replicate 16 9 @ [80, 18] @ (zeros :: byte list)"
    by (simp_all add: memcpy_at_def zeros_def AUTH_VECTOR_LEN_def)
  have "\<exists>p' r q1. rad_sign (replicate 64 0) (demo_request\<lparr>r_code := 44\<rparr>) (Some demo_request) [1, 2] = Some (0, p') \<and>
     rad_verify (replicate 64 5) p' (Some demo_request) [1, 2] = Some (r, q1) \<and>
     r = (if hmac md5 [1, 2] (take 38 (memcpy_at ([1, 7, 0, 38] @ replicate 16 9 @ [80, 18] @ zeros) 4 zeros)) =
             hmac md5 [1, 2] (take 38 (memcpy_at ([1, 7, 0, 38] @ replicate 16 9 @ [80, 18] @ zeros) 4 (replicate 16 9)))
          then 0 else - 1)"
    using coa_reply_rejected [OF demo_encoded [of 44], of "replicate 64 0" "replicate 64 5" "[1, 2]" "Some demo_request" demo_request 20]
    by (simp add: short_secret_def demo_request_def PW_MESSAGE_AUTHENTICATOR_def del: append.simps)
  then show ?thesis unfolding m .
qed

end
