(* ===== verification/RadTlv.thy ===== *)
theory RadTlv
  imports BlockHash
begin

text \<open>
  \<^verbatim>\<open>rad_tlv_ok\<close> of \<^verbatim>\<open>lib/radius.c\<close>: the check of a vendor attribute whose TLVs have type fields
  of \<open>dv_type\<close> and length fields of \<open>dv_length\<close> bytes. The data is the list of its bytes, the return
  code 0 or -1; the text of the errors is left out.
\<close>

section \<open>rad_tlv_ok\<close>

text \<open>The loop over the TLVs: 0 when they are well formed, -1 otherwise.\<close>

function tlv_loop :: "byte list \<Rightarrow> nat \<Rightarrow> nat \<Rightarrow> int" where
  "tlv_loop data dv_type dv_length =
     (if data = [] then 0
      else if length data < dv_type + dv_length then - 1
      else if dv_type = 4 \<and> data ! 0 = 0 \<and> data ! 1 = 0 \<and> data ! 2 = 0 \<and> data ! 3 = 0 then - 1
      else if dv_type = 4 \<and> data ! 0 \<noteq> 0 then - 1
      else if dv_type = 2 \<and> data ! 0 = 0 \<and> data ! 1 = 0 then - 1
      else if dv_type \<noteq> 4 \<and> dv_type \<noteq> 2 \<and> dv_type \<noteq> 1 then - 1
      else if dv_length = 0 then 0
      else if dv_length = 2 \<and> data ! dv_type \<noteq> 0 then - 1
      else if dv_length \<noteq> 2 \<and> dv_length \<noteq> 1 then - 1
      else let attrlen = unat (data ! (dv_type + dv_length - 1))
           in if attrlen < dv_type + dv_length then - 1
              else if attrlen > length data then - 1
              else tlv_loop (drop attrlen data) dv_type dv_length)"
  by auto
termination
  by (relation "measure (\<lambda>(data, t, l). length data)") auto

declare tlv_loop.simps [simp del]

definition rad_tlv_ok :: "byte list \<Rightarrow> nat \<Rightarrow> nat \<Rightarrow> int" where
  "rad_tlv_ok data dv_type dv_length =
     (if dv_length > 2 \<or> dv_type = 0 \<or> dv_type > 4 then - 1 else tlv_loop data dv_type dv_length)"

section \<open>The grammar of TLVs\<close>

text \<open>A type field: not zero unless it is one byte, and less than \<open>2^24\<close>.\<close>

definition tlv_type_ok :: "nat \<Rightarrow> byte list \<Rightarrow> bool" where
  "tlv_type_ok t ty \<longleftrightarrow> length ty = t \<and> (t = 1 \<or> t = 2 \<and> ty \<noteq> [0, 0] \<or> t = 4 \<and> ty ! 0 = 0 \<and> ty \<noteq> [0, 0, 0, 0])"

definition tlv_bytes :: "nat \<Rightarrow> byte list \<times> byte list \<Rightarrow> byte list" where
  "tlv_bytes l tlv = fst tlv @ (if l = 2 then [0] else []) @
     word_of_nat (length (fst tlv) + l + length (snd tlv)) # snd tlv"

definition tlv_ok :: "nat \<Rightarrow> nat \<Rightarrow> byte list \<times> byte list \<Rightarrow> bool" where
  "tlv_ok t l tlv \<longleftrightarrow> tlv_type_ok t (fst tlv) \<and> t + l + length (snd tlv) \<le> 255"

text \<open>What a step of the loop asks of the data.\<close>

definition tlv_good :: "byte list \<Rightarrow> nat \<Rightarrow> nat \<Rightarrow> bool" where
  "tlv_good data t l \<longleftrightarrow> t + l \<le> length data \<and> tlv_type_ok t (take t data) \<and> (l = 2 \<longrightarrow> data ! t = 0) \<and>
     t + l \<le> unat (data ! (t + l - 1)) \<and> unat (data ! (t + l - 1)) \<le> length data"

lemma list2: "length (data :: byte list) \<ge> 2 \<Longrightarrow> take 2 data = [data ! 0, data ! 1]"
  by (auto simp: numeral_eq_Suc Suc_le_length_iff)

lemma list4: "length (data :: byte list) \<ge> 4 \<Longrightarrow> take 4 data = [data ! 0, data ! 1, data ! 2, data ! 3]"
  by (auto simp: numeral_eq_Suc Suc_le_length_iff)

lemma tlv_loop_step:
  assumes "t \<in> {1, 2, 4}" "l \<in> {1, 2}" "data \<noteq> []"
  shows "tlv_loop data t l =
    (if tlv_good data t l then tlv_loop (drop (unat (data ! (t + l - 1))) data) t l else - 1)"
proof (cases "t + l \<le> length data")
  case False
  then show ?thesis using assms by (subst tlv_loop.simps) (auto simp: tlv_good_def)
next
  case True
  consider "t = 1" | "t = 2" "take t data = [data ! 0, data ! 1]"
    | "t = 4" "take t data = [data ! 0, data ! 1, data ! 2, data ! 3]"
    using assms(1) True list2 [of data] list4 [of data] by auto
  then have ty: "tlv_type_ok t (take t data) \<longleftrightarrow>
      \<not> (t = 4 \<and> data ! 0 = 0 \<and> data ! 1 = 0 \<and> data ! 2 = 0 \<and> data ! 3 = 0) \<and> \<not> (t = 4 \<and> data ! 0 \<noteq> 0) \<and>
      \<not> (t = 2 \<and> data ! 0 = 0 \<and> data ! 1 = 0)"
    using True by cases (auto simp: tlv_type_ok_def)
  show ?thesis
  proof -
    define A where "A \<longleftrightarrow> t = 4 \<and> data ! 0 = 0 \<and> data ! 1 = 0 \<and> data ! 2 = 0 \<and> data ! 3 = 0"
    define B where "B \<longleftrightarrow> t = 4 \<and> data ! 0 \<noteq> 0"
    define C where "C \<longleftrightarrow> t = 2 \<and> data ! 0 = 0 \<and> data ! 1 = 0"
    define D where "D \<longleftrightarrow> l = 2 \<and> data ! t \<noteq> 0"
    define n where "n = unat (data ! (t + l - 1))"
    have c: "\<not> length data < t + l" "\<not> (t \<noteq> 4 \<and> t \<noteq> 2 \<and> t \<noteq> 1)" "l \<noteq> 0" "\<not> (l \<noteq> 2 \<and> l \<noteq> 1)"
      using True assms(1,2) by auto
    have "tlv_loop data t l = (if A then - 1 else if B then - 1 else if C then - 1 else if D then - 1
        else if n < t + l then - 1 else if n > length data then - 1 else tlv_loop (drop n data) t l)"
      unfolding tlv_loop.simps [of data t l] if_not_P [OF assms(3)] if_not_P [OF c(1)] if_not_P [OF c(2)]
        if_not_P [OF c(3)] if_not_P [OF c(4)] Let_def A_def B_def C_def D_def n_def ..
    moreover have "tlv_good data t l \<longleftrightarrow> \<not> A \<and> \<not> B \<and> \<not> C \<and> \<not> D \<and> \<not> n < t + l \<and> \<not> n > length data"
      using True unfolding tlv_good_def ty A_def B_def C_def D_def n_def by (simp only: not_less) blast
    ultimately show ?thesis unfolding n_def [symmetric] by simp
  qed
qed

lemma tlv_good_split:
  assumes "t \<in> {1, 2, 4}" "l \<in> {1, 2}" "tlv_good data t l"
  defines "n \<equiv> unat (data ! (t + l - 1))"
  shows "data = tlv_bytes l (take t data, slice data (t + l) (n - (t + l))) @ drop n data"
    and "tlv_ok t l (take t data, slice data (t + l) (n - (t + l)))" "0 < n"
proof -
  have g: "t + l \<le> n" "n \<le> length data" "tlv_type_ok t (take t data)" "l = 2 \<Longrightarrow> data ! t = 0"
    using assms(3) by (simp_all add: tlv_good_def n_def)
  have "n < 2 ^ LENGTH(8)" unfolding n_def by (rule unsigned_less)
  then have n: "n \<le> 255" by simp
  have v: "length (slice data (t + l) (n - (t + l))) = n - (t + l)"
    by (rule slice_parts(3)) (use g in simp)
  show "tlv_ok t l (take t data, slice data (t + l) (n - (t + l)))" using g n v by (simp add: tlv_ok_def)
  show "0 < n" using g(1) assms(1) by auto
  have lt: "length (take t data) = t" using g by simp
  have w: "word_of_nat (t + l + (n - (t + l))) = data ! (t + l - 1)" using g(1) by (simp add: n_def)
  have hdr: "(if l = 2 then [0] else []) @ [data ! (t + l - 1)] = slice data t l"
    using assms(2) g list2 [of "drop t data"] by (auto simp: slice_def take_Suc_conv_app_nth hd_drop_conv_nth)
  have "data = take t data @ slice data t l @ slice data (t + l) (n - (t + l)) @ drop n data"
  proof -
    have "drop n data = drop (n - (t + l)) (drop (t + l) data)" using g(1) by (simp add: add.commute)
    then show ?thesis by (simp add: slice_def add.commute flip: drop_drop)
  qed
  then show "data = tlv_bytes l (take t data, slice data (t + l) (n - (t + l))) @ drop n data"
    unfolding tlv_bytes_def fst_conv snd_conv lt v w hdr [symmetric] by simp
qed

lemma tlv_bytes_good:
  assumes "t \<in> {1, 2, 4}" "l \<in> {1, 2}" "tlv_ok t l (ty, v)" "data = tlv_bytes l (ty, v) @ rest"
  shows "tlv_good data t l" "drop (unat (data ! (t + l - 1))) data = rest"
proof -
  have ok: "length ty = t" "tlv_type_ok t ty" "t + l + length v \<le> 255"
    using assms(3) by (auto simp: tlv_ok_def tlv_type_ok_def)
  have "unat (word_of_nat (t + l + length v) :: byte) = t + l + length v"
    using ok(3) by (simp only: unat_of_nat take_bit_nat_eq_self_iff) simp
  moreover have "data ! (t + l - 1) = word_of_nat (t + l + length v)"
    using assms(2,4) ok(1) by (auto simp: tlv_bytes_def nth_append)
  ultimately have n: "unat (data ! (t + l - 1)) = t + l + length v" by simp
  have len: "length (tlv_bytes l (ty, v)) = t + l + length v" using assms(2) ok(1) by (auto simp: tlv_bytes_def)
  have "drop (t + l + length v) data = rest" unfolding assms(4) using len by simp
  then show "drop (unat (data ! (t + l - 1))) data = rest" unfolding n .
  have "take t data = ty" "l = 2 \<longrightarrow> data ! t = 0" using assms(4) ok(1) by (simp_all add: tlv_bytes_def nth_append)
  then show "tlv_good data t l" unfolding tlv_good_def n using ok(2) len assms(4) by simp
qed

lemma tlv_loop_iff:
  assumes "t \<in> {1, 2, 4}" "l \<in> {1, 2}"
  shows "tlv_loop data t l \<in> {0, - 1} \<and>
    (tlv_loop data t l = 0 \<longleftrightarrow> (\<exists>tlvs. data = concat (map (tlv_bytes l) tlvs) \<and> (\<forall>x\<in>set tlvs. tlv_ok t l x)))"
proof (induction data rule: length_induct)
  case (1 data)
  have ne: "tlv_bytes l x \<noteq> []" for x by (simp add: tlv_bytes_def)
  show ?case
  proof (cases "data = []")
    case True
    then show ?thesis by (subst (1 2) tlv_loop.simps) (auto intro: exI [of _ "[]"])
  next
    case False
    let ?n = "unat (data ! (t + l - 1))"
    show ?thesis
    proof (cases "tlv_good data t l")
      case bad: False
      have "\<not> (data = concat (map (tlv_bytes l) tlvs) \<and> (\<forall>x\<in>set tlvs. tlv_ok t l x))" for tlvs
      proof (cases tlvs)
        case (Cons x xs)
        then show ?thesis using tlv_bytes_good(1) [OF assms, of "fst x" "snd x" data] bad by auto
      qed (use False in simp)
      then show ?thesis using tlv_loop_step [OF assms False] bad by auto
    next
      case good: True
      note sp = tlv_good_split [OF assms good]
      let ?x = "(take t data, slice data (t + l) (?n - (t + l)))"
      have step: "tlv_loop data t l = tlv_loop (drop ?n data) t l" using tlv_loop_step [OF assms False] good by simp
      have IH: "tlv_loop (drop ?n data) t l \<in> {0, - 1} \<and> (tlv_loop (drop ?n data) t l = 0 \<longleftrightarrow>
          (\<exists>tlvs. drop ?n data = concat (map (tlv_bytes l) tlvs) \<and> (\<forall>x\<in>set tlvs. tlv_ok t l x)))"
        by (rule 1 [THEN spec, THEN mp]) (use sp(3) False in simp)
      have "(\<exists>tlvs. data = concat (map (tlv_bytes l) tlvs) \<and> (\<forall>x\<in>set tlvs. tlv_ok t l x)) \<longleftrightarrow>
          (\<exists>tlvs. drop ?n data = concat (map (tlv_bytes l) tlvs) \<and> (\<forall>x\<in>set tlvs. tlv_ok t l x))"
      proof (rule iffI; elim exE conjE)
        fix tlvs assume a: "data = concat (map (tlv_bytes l) tlvs)" "\<forall>x\<in>set tlvs. tlv_ok t l x"
        then obtain x xs where x: "tlvs = x # xs" using False by (cases tlvs) auto
        have "drop ?n data = concat (map (tlv_bytes l) xs)"
          using tlv_bytes_good(2) [OF assms, of "fst x" "snd x" data "concat (map (tlv_bytes l) xs)"] a x by simp
        then show "\<exists>tlvs. drop ?n data = concat (map (tlv_bytes l) tlvs) \<and> (\<forall>x\<in>set tlvs. tlv_ok t l x)"
          using a(2) x by auto
      next
        fix tlvs assume a: "drop ?n data = concat (map (tlv_bytes l) tlvs)" "\<forall>x\<in>set tlvs. tlv_ok t l x"
        then have "data = concat (map (tlv_bytes l) (?x # tlvs))" using sp(1) by simp
        then show "\<exists>tlvs. data = concat (map (tlv_bytes l) tlvs) \<and> (\<forall>x\<in>set tlvs. tlv_ok t l x)"
          using sp(2) a(2) by (metis set_ConsD)
      qed
      then show ?thesis using IH unfolding step by blast
    qed
  qed
qed

section \<open>Properties\<close>

text \<open>
  C36: \<^verbatim>\<open>rad_tlv_ok\<close> accepts exactly the data that is a sequence of TLVs: each a type field of 1, 2
  or 4 bytes (not zero unless it is a single byte, and less than \<open>2^24\<close>), a length field of 1 or 2
  bytes that counts the whole TLV, at most 255, and that many bytes. Without length fields only the
  first type is looked at; every other field width is refused.
\<close>

theorem rad_tlv_ok_exact:
  "rad_tlv_ok data t l =
     (if t \<in> {1, 2, 4} \<and> l \<in> {1, 2}
      then if \<exists>tlvs. data = concat (map (tlv_bytes l) tlvs) \<and> (\<forall>x\<in>set tlvs. tlv_ok t l x) then 0 else - 1
      else if t \<in> {1, 2, 4} \<and> l = 0
      then if data = [] \<or> t \<le> length data \<and> tlv_type_ok t (take t data) then 0 else - 1
      else if t = 3 \<and> l \<le> 2 \<and> data = [] then 0 else - 1)"
proof -
  have n0: "tlv_loop data t 0 = (if data = [] \<or> t \<le> length data \<and> tlv_type_ok t (take t data) then 0 else - 1)"
    if "t \<in> {1, 2, 4}"
    using that list2 [of data] list4 [of data]
    by (subst tlv_loop.simps) (auto simp: tlv_type_ok_def)
  have n3: "tlv_loop data 3 l = (if data = [] then 0 else - 1)"
    by (subst tlv_loop.simps) auto
  have n12: "tlv_loop data t l = (if \<exists>tlvs. data = concat (map (tlv_bytes l) tlvs) \<and> (\<forall>x\<in>set tlvs. tlv_ok t l x) then 0 else - 1)"
    if "t \<in> {1, 2, 4}" "l \<in> {1, 2}"
    using tlv_loop_iff [OF that, of data] by auto
  consider "2 < l \<or> t = 0 \<or> 4 < t" | "l \<le> 2" "t = 3" | "l = 0" "t \<in> {1, 2, 4}" | "l \<in> {1, 2}" "t \<in> {1, 2, 4}"
    by (cases "2 < l \<or> t = 0 \<or> 4 < t") (force, fastforce)
  then show ?thesis
  proof cases
    case 1
    then show ?thesis by (auto simp: rad_tlv_ok_def)
  next
    case 2
    then show ?thesis using n3 by (simp add: rad_tlv_ok_def)
  next
    case 3
    have "rad_tlv_ok data t l = tlv_loop data t 0" using 3 by (auto simp: rad_tlv_ok_def)
    then show ?thesis using n0 [OF 3(2)] 3 by simp
  next
    case 4
    have "rad_tlv_ok data t l = tlv_loop data t l" using 4 by (auto simp: rad_tlv_ok_def)
    then show ?thesis using n12 [OF 4(2,1)] 4 by simp
  qed
qed

theorem rad_tlv_ok_exact_witness:
  "rad_tlv_ok [0, 7, 0, 5, 9] 2 2 = 0 \<and>
   (\<exists>tlvs. [0, 7, 0, 5, 9] = concat (map (tlv_bytes 2) tlvs) \<and> (\<forall>x\<in>set tlvs. tlv_ok 2 2 x))"
proof -
  have r: "rad_tlv_ok [0, 7, 0, 5, 9] 2 2 = 0" by code_simp
  then show ?thesis using rad_tlv_ok_exact [of "[0, 7, 0, 5, 9]" 2 2] by (simp split: if_splits) blast
qed

end
