(* ===== verification/Spec2Isabelle.thy ===== *)
theory Spec2Isabelle
  imports ModcallFindings Hash HashBits HashTable HashMap Packet PacketKeys PacketList PacketLife Event EventTimers EventFd RbTree RbSet RbWalk Fifo Heap Connection ConnectionPool PoolOps PoolThreads Cbuff Base64
    BlockHash Md5 RadPassword RadTunnel Hmac RadPacket RadVerify RadTlv
begin

text \<open>
  Verification library for the RADIUS server of this repository, the FreeRADIUS 3.2.2 tree under
  \<^verbatim>\<open>docker/radius/freeradius-server-3.2.2/src\<close>. File names below are relative to that directory.

  \<^bold>\<open>The program.\<close> A packet that arrives is checked (\<^verbatim>\<open>rad_packet_ok\<close>, \<^verbatim>\<open>rad_tlv_ok\<close>) and verified
  (\<^verbatim>\<open>rad_verify\<close>), becomes a request, and is run through the sections of a virtual server by the
  interpreter of the policy language (\<^verbatim>\<open>main/modcall.c\<close>). The modules take connections to their
  databases from a pool (\<^verbatim>\<open>main/connection.c\<close>). A request that is proxied gets an identifier and is
  kept in a packet list until its reply comes (\<^verbatim>\<open>lib/packet.c\<close>); timers and sockets are driven by
  the event loop (\<^verbatim>\<open>lib/event.c\<close>). Replies hide their passwords and are signed (\<^verbatim>\<open>rad_sign\<close>). Below
  are the data structures: heap, red-black tree, hash table, FIFO, circular buffer, and the digests.

  \<^bold>\<open>Theories.\<close> The operations keep the names of the C functions; the manifest maps every definition
  to its lines.

  \<^item> \<open>Prelude\<close>: machine integers, the collections of simplification rules, facts on lists and bytes.
  \<^item> \<open>Fifo\<close> (\<^verbatim>\<open>lib/fifo.c\<close>): the ring refines a bounded list (locale \<open>bounded_queue\<close>); what freeing a
    wrapped ring misses.
  \<^item> \<open>Heap\<close> (\<^verbatim>\<open>lib/heap.c\<close>): the array heap with indices stored in its elements refines a priority
    set; locale \<open>indexed_heap\<close> is what the pool and the event list use of it.
  \<^item> \<open>RbTree\<close>, \<open>RbSet\<close>, \<open>RbWalk\<close> (\<^verbatim>\<open>lib/rbtree.c\<close>): insertion, deletion and their rebalancing on a
    tree with parent links (a zipper), refinement of a set with keys (locale \<open>keyed_set\<close>, used by the
    packet list), depth, and the walks, of which one deletes while it walks.
  \<^item> \<open>Hash\<close>, \<open>HashBits\<close>, \<open>HashTable\<close>, \<open>HashMap\<close> (\<^verbatim>\<open>lib/hash.c\<close>): the split-ordered hash table with the
    lazy splitting of its chains; its two bit tables; in which chain an element is; refinement of a map
    for data without collisions, walks and iterators; what a collision does.
  \<^item> \<open>Cbuff\<close> (\<^verbatim>\<open>lib/cbuff.c\<close>): a queue that drops its oldest elements; its allocation is one short.
  \<^item> \<open>Base64\<close> (\<^verbatim>\<open>lib/base64.c\<close>), \<open>BlockHash\<close> and \<open>Md5\<close> (\<^verbatim>\<open>lib/md5.c\<close>), \<open>Hmac\<close>
    (\<^verbatim>\<open>lib/hmacmd5.c\<close>): round trip and bounds of the decoder; the digests against RFC 1321 and RFC
    2104. Locale \<open>hash_stream\<close> is a digest context fed in pieces, \<open>digest16\<close> (in \<open>RadPassword\<close>) what
    the password hiding needs of a digest.
  \<^item> \<open>RadPassword\<close>, \<open>RadTunnel\<close> (\<^verbatim>\<open>lib/radius.c\<close>): hiding of User-Password, CHAP and
    Tunnel-Password; equivalence of the two encoders, round trips, every branch of the decoder.
  \<^item> \<open>RadPacket\<close>, \<open>RadTlv\<close>, \<open>RadVerify\<close> (\<^verbatim>\<open>lib/radius.c\<close>): the checks of packets and TLVs accept
    exactly a grammar; \<^verbatim>\<open>rad_verify\<close> accepts exactly authentic packets and those of \<^verbatim>\<open>rad_sign\<close>, with
    the exceptions stated.
  \<^item> \<open>Connection\<close>, \<open>ConnectionPool\<close>, \<open>PoolOps\<close>, \<open>PoolThreads\<close> (\<^verbatim>\<open>main/connection.c\<close>): the operations
    of the pool, the consistency of list, heap and counters, each operation by one thread, and the
    interleaving of the critical sections of any number of threads as an inductive step relation.
  \<^item> \<open>Event\<close>, \<open>EventTimers\<close>, \<open>EventFd\<close> (\<^verbatim>\<open>lib/event.c\<close>): timers as a map from their variables, the loop,
    the table of sockets.
  \<^item> \<open>Packet\<close>, \<open>PacketKeys\<close>, \<open>PacketList\<close>, \<open>PacketLife\<close> (\<^verbatim>\<open>lib/packet.c\<close>, \<^verbatim>\<open>fr_ipaddr_cmp\<close> of
    \<^verbatim>\<open>lib/misc.c\<close>): the order of requests, the bits of the identifiers, and the life of a request from
    its identifier to its reply.
  \<^item> \<open>Request\<close>, \<open>Modcall\<close>, \<open>ModcallSem\<close>, \<open>ModcallProps\<close>, \<open>ModcallIf\<close>, \<open>ModcallActions\<close>,
    \<open>ModcallFindings\<close> (\<^verbatim>\<open>main/modcall.c\<close>, the request data of \<^verbatim>\<open>main/util.c\<close>): the interpreter with its
    stack, the same without a stack, what sections of modules, failover, if/elsif/else and the
    compiled actions mean, and where code and documentation differ.

  \<^bold>\<open>Conventions.\<close> A struct is a record, an operation takes it and returns it updated. A pointer is an
  address (a number), or the structure itself where nothing else points to it; NULL is \<open>None\<close> or 0.
  Machine integers are words where they can wrap, and \<open>int\<close> or \<open>nat\<close> where the code keeps them small. A
  failed assertion, an access outside of a buffer and a loop that does not end are \<open>None\<close> (in the
  interpreter a \<open>fault\<close>), so a theorem that gives a result also says that none of these happens.
  Assertions are read as active; a build with \<^verbatim>\<open>NDEBUG\<close> goes on behind a failed one. The answers of the
  allocator, the clock, the random numbers, the sockets and the callbacks of users are arguments.

  \<^bold>\<open>Termination and bounds.\<close> All definitions are total functions except six loops whose end
  depends on more than the size of their arguments: \<open>pow_loop\<close>, \<open>walk_delete_order\<close>, \<open>event_list_free\<close>,
  \<open>run_due\<close>, \<open>verify_loop\<close> and \<open>fr_hash_table_fixup\<close> are \<open>partial_function\<close>s, and the properties on them show that they return. The
  interpreter ends because the tree gets smaller; its stack has 32 frames, and the refinement holds
  for trees nested less deeply than that. No definition of the model has fuel; \<open>iterate\<close> in \<open>HashMap\<close>
  is a client that calls an iterator a given number of times, and any number above that of the
  elements gives all of them.

  \<^bold>\<open>Not modelled.\<close> The state machine of requests (\<^verbatim>\<open>main/process.c\<close>), TLS, listeners, the
  configuration parser, dictionaries, attribute lists and their expansion, the control socket, and the
  modules: they are system calls, OpenSSL, parsing and printing, or rest on attribute lists and
  dictionaries read from files. Of modelled files: the variants with OpenSSL and kqueue, mutexes
  whose critical sections are taken as atomic, logging, debug output and error texts, the
  compilation of configuration sections into the interpreter's tree, and \<^verbatim>\<open>fr_socket\<close>.
\<close>

end
